(* ===== verification/Prelude.thy ===== *)
theory Prelude
  imports Complex_Main "HOL-Library.Word"
begin

unbundle bit_operations_syntax

text \<open>
  Shared vocabulary of the development: the machine types of the C++ sources, the error
  numbers they return, the traps a C++ statement can end in (an exception nobody catches, a
  failed \<^verbatim>\<open>assert\<close>, undefined behaviour), the outcome of an operation that may block, and
  the lemmas on byte lists and words that several components use.
\<close>

section \<open>Machine types\<close>

type_synonym u8 = "8 word"
type_synonym u16 = "16 word"
type_synonym u32 = "32 word"
type_synonym u64 = "64 word"

text \<open>
  A C \<^verbatim>\<open>int\<close> is a \<^typ>\<open>u32\<close> read with \<^const>\<open>sint\<close>; an \<^verbatim>\<open>int64_t\<close> result is an
  \<^typ>\<open>int\<close> that lies in the signed 64-bit range; \<^verbatim>\<open>size_t\<close> and \<^verbatim>\<open>uint64_t\<close> are \<^typ>\<open>u64\<close>.
\<close>

type_synonym bytes = "u8 list"

definition size_bytes :: "bytes \<Rightarrow> u64" where
  "size_bytes bs = of_nat (length bs)"

text \<open>The conversion of a \<^verbatim>\<open>size_t\<close> or \<^verbatim>\<open>uint64_t\<close> value to \<^verbatim>\<open>int64_t\<close>.\<close>

definition to_i64 :: "u64 \<Rightarrow> int" where
  "to_i64 w = sint w"

text \<open>The conversion of an \<^verbatim>\<open>int64_t\<close> value to \<^verbatim>\<open>uint64_t\<close>.\<close>

definition of_i64 :: "int \<Rightarrow> u64" where
  "of_i64 i = word_of_int i"

section \<open>Error numbers, traps, outcomes\<close>

abbreviation EINTR :: int where "EINTR \<equiv> 4"
abbreviation EBADF :: int where "EBADF \<equiv> 9"
abbreviation EAGAIN :: int where "EAGAIN \<equiv> 11"
abbreviation EFAULT :: int where "EFAULT \<equiv> 14"
abbreviation EINVAL :: int where "EINVAL \<equiv> 22"
abbreviation EMFILE :: int where "EMFILE \<equiv> 24"
abbreviation EBADFD :: int where "EBADFD \<equiv> 77"
abbreviation ENOTSOCK :: int where "ENOTSOCK \<equiv> 88"
abbreviation EOPNOTSUPP :: int where "EOPNOTSUPP \<equiv> 95"
abbreviation ENOTSUP :: int where "ENOTSUP \<equiv> 95"
abbreviation EAFNOSUPPORT :: int where "EAFNOSUPPORT \<equiv> 97"
abbreviation EADDRNOTAVAIL :: int where "EADDRNOTAVAIL \<equiv> 99"
abbreviation ECONNREFUSED :: int where "ECONNREFUSED \<equiv> 111"
abbreviation EHOSTUNREACH :: int where "EHOSTUNREACH \<equiv> 113"

text \<open>What a C++ statement does when it neither returns nor blocks.\<close>

datatype trap =
    Assert_failed    \<comment> \<open>a failed \<^verbatim>\<open>assert\<close> in a build without \<^verbatim>\<open>NDEBUG\<close>\<close>
  | Length_error     \<comment> \<open>\<^verbatim>\<open>std::length_error\<close> from a container\<close>
  | Invalid_argument \<comment> \<open>\<^verbatim>\<open>std::invalid_argument\<close>\<close>
  | System_error int \<comment> \<open>\<^verbatim>\<open>std::system_error\<close> with its errno\<close>
  | Runtime_error    \<comment> \<open>\<^verbatim>\<open>std::runtime_error\<close>\<close>
  | Out_of_range     \<comment> \<open>\<^verbatim>\<open>std::out_of_range\<close>\<close>
  | Bad_optional_access \<comment> \<open>\<^verbatim>\<open>std::bad_optional_access\<close>\<close>
  | Div_by_zero      \<comment> \<open>undefined: integer division by zero\<close>
  | Overflow         \<comment> \<open>undefined: signed overflow\<close>
  | Bad_conversion   \<comment> \<open>undefined: a floating value outside the integer type\<close>
  | Bad_shift        \<comment> \<open>undefined: a shift by the width or more\<close>
  | Null_deref       \<comment> \<open>undefined: a null pointer is dereferenced\<close>

text \<open>
  An operation that may wait on a condition variable: it is done, it cannot proceed in this
  state (the thread sleeps with the state unchanged), it runs for ever, or it ends in a trap.
\<close>

datatype ('r, 's) outcome = Done 'r 's | Blocked | Diverges | Trapped trap

text \<open>
  \<^verbatim>\<open>assert(p)\<close> does nothing when \<^verbatim>\<open>NDEBUG\<close> is defined; the first argument says whether it is.
\<close>

definition asserts :: "bool \<Rightarrow> bool \<Rightarrow> bool" where
  "asserts ndebug p \<longleftrightarrow> ndebug \<or> p"

lemma asserts_simps [simp]: "asserts ndebug True" "asserts True p" "asserts False p = p"
  by (simp_all add: asserts_def)

text \<open>One operation after another.\<close>

definition bind_act ::
  "('s \<Rightarrow> ('a, 's) outcome) \<Rightarrow> ('a \<Rightarrow> 's \<Rightarrow> ('b, 's) outcome) \<Rightarrow> 's \<Rightarrow> ('b, 's) outcome" where
  "bind_act f g s =
     (case f s of
        Done x s' \<Rightarrow> g x s' | Blocked \<Rightarrow> Blocked | Diverges \<Rightarrow> Diverges | Trapped t \<Rightarrow> Trapped t)"

text \<open>A computation that goes on unless it has ended in a trap.\<close>

definition and_then :: "trap + 'a \<Rightarrow> ('a \<Rightarrow> trap + 'b) \<Rightarrow> trap + 'b" where
  "and_then r k = (case r of Inl t \<Rightarrow> Inl t | Inr x \<Rightarrow> k x)"

lemma and_then_simps [simp]: "and_then (Inl t) k = Inl t" "and_then (Inr x) k = k x"
  by (simp_all add: and_then_def)

section \<open>Collections\<close>

named_theorems op_defs \<open>definitions of the operations of the components\<close>
named_theorems view_simps \<open>how an abstraction commutes with an operation\<close>

section \<open>Sizes and conversions\<close>

definition fits :: "bytes \<Rightarrow> bool" where
  "fits bs \<longleftrightarrow> length bs < 2 ^ 63"

lemma fits_Nil [simp]: "fits []"
  by (simp add: fits_def)

lemma unat_size_bytes: "length bs < 2 ^ 64 \<Longrightarrow> unat (size_bytes bs) = length bs"
  by (simp add: size_bytes_def unat_of_nat take_bit_nat_eq_self)

lemma unat_size_bytes_fits [simp]: "fits bs \<Longrightarrow> unat (size_bytes bs) = length bs"
  by (rule unat_size_bytes) (simp add: fits_def)

lemma unat_u64_less: "unat (w :: u64) < 2 ^ 64"
  using unsigned_less [of w, where ?'a = nat] by simp

lemma unat_u32_less: "unat (w :: u32) < 2 ^ 32"
  using unsigned_less [of w, where ?'a = nat] by simp

lemma unat_ucast_u32_u64: "unat (ucast (w :: u32) :: u64) = unat w"
proof -
  have "unat w < 2 ^ 64" using unat_u32_less [of w] by simp
  then show ?thesis by (simp add: unsigned_ucast_eq take_bit_nat_eq_self)
qed

lemma sint_unat: "unat (w :: u64) < 2 ^ 63 \<Longrightarrow> sint w = int (unat w)"
proof -
  assume small: "unat w < 2 ^ 63"
  have eq: "int (unat w) = uint w" by simp
  have "int (unat w) < int (2 ^ 63)" using small by (simp only: of_nat_less_iff)
  then have "uint w < 2 ^ 63" by (simp only: eq of_nat_power of_nat_numeral)
  moreover have "- (2 ^ 63) \<le> uint w" by (rule order_trans [of _ 0]) simp_all
  ultimately have "signed_take_bit 63 (uint w) = uint w"
    by (simp only: signed_take_bit_int_eq_self)
  then show ?thesis by (simp add: sint_uint)
qed

lemma to_i64_size_bytes [simp]: "fits bs \<Longrightarrow> to_i64 (size_bytes bs) = int (length bs)"
  unfolding to_i64_def by (subst sint_unat) (simp_all add: fits_def unat_size_bytes)

lemma to_i64_of_i64: "- (2 ^ 63) \<le> i \<Longrightarrow> i < 2 ^ 63 \<Longrightarrow> to_i64 (of_i64 i) = i"
  by (simp add: to_i64_def of_i64_def sint_sbintrunc' signed_take_bit_int_eq_self)

lemma unat_plus_no_wrap:
  "unat (a :: u64) + unat b < 2 ^ 64 \<Longrightarrow> unat (a + b) = unat a + unat b"
  by (simp add: unat_word_ariths)

section \<open>Lists updated by index\<close>

lemma nth_update: "j < length xs \<Longrightarrow> xs[i := x] ! j = (if i = j then x else xs ! j)"
  by (cases "i = j") simp_all

text \<open>How many elements satisfy a predicate, when one of them comes to satisfy it.\<close>

lemma count_update_same:
  assumes "i < length xs" and "P (xs ! i) \<longleftrightarrow> P x"
  shows "length (filter P (xs[i := x])) = length (filter P xs)"
proof -
  have "length (filter P (take i xs @ x # drop (Suc i) xs)) =
      length (filter P (take i xs @ xs ! i # drop (Suc i) xs))" using assms(2) by simp
  then show ?thesis using assms(1) by (simp add: upd_conv_take_nth_drop flip: id_take_nth_drop)
qed

lemma count_update_more:
  assumes "i < length xs" and "\<not> P (xs ! i)" and "P x"
  shows "length (filter P (xs[i := x])) = Suc (length (filter P xs))"
proof -
  have "length (filter P (take i xs @ x # drop (Suc i) xs)) =
      Suc (length (filter P (take i xs @ xs ! i # drop (Suc i) xs)))" using assms(2,3) by simp
  then show ?thesis using assms(1) by (simp add: upd_conv_take_nth_drop flip: id_take_nth_drop)
qed

section \<open>Overlaying a byte list with another\<close>

text \<open>\<^verbatim>\<open>std::copy\<close> of \<open>bs\<close> to offset \<open>p\<close> of \<open>xs\<close>.\<close>

definition overlay :: "nat \<Rightarrow> 'a list \<Rightarrow> 'a list \<Rightarrow> 'a list" where
  "overlay p bs xs = take p xs @ bs @ drop (p + length bs) xs"

text \<open>\<^verbatim>\<open>std::vector::resize\<close> to a larger size, new elements value-initialised.\<close>

definition grow :: "nat \<Rightarrow> bytes \<Rightarrow> bytes" where
  "grow n xs = xs @ replicate (n - length xs) 0"

lemma length_grow [simp]: "length (grow n xs) = max n (length xs)"
  by (simp add: grow_def)

lemma grow_id [simp]: "n \<le> length xs \<Longrightarrow> grow n xs = xs"
  by (simp add: grow_def)

lemma nth_grow: "i < max n (length xs) \<Longrightarrow> grow n xs ! i = (if i < length xs then xs ! i else 0)"
  by (simp add: grow_def nth_append)

lemma length_overlay [simp]:
  "p + length bs \<le> length xs \<Longrightarrow> length (overlay p bs xs) = length xs"
  by (simp add: overlay_def)

lemma nth_overlay:
  "p + length bs \<le> length xs \<Longrightarrow> i < length xs \<Longrightarrow>
   overlay p bs xs ! i = (if p \<le> i \<and> i < p + length bs then bs ! (i - p) else xs ! i)"
  by (auto simp: overlay_def nth_append min_def)

lemma take_drop_overlay [simp]:
  "p + length bs \<le> length xs \<Longrightarrow> take (length bs) (drop p (overlay p bs xs)) = bs"
  by (simp add: overlay_def)

section \<open>Little-endian words\<close>

text \<open>The object representation of a 64-bit word, as \<^verbatim>\<open>memcpy\<close> sees it on x86-64.\<close>

definition le_bytes :: "u64 \<Rightarrow> bytes" where
  "le_bytes w = map (\<lambda>i. ucast (drop_bit (8 * i) w)) [0..<8]"

definition le_word :: "bytes \<Rightarrow> u64" where
  "le_word bs = foldr (\<lambda>b acc. ucast b OR push_bit 8 acc) bs 0"

lemma length_le_bytes [simp]: "length (le_bytes w) = 8"
  by (simp add: le_bytes_def)

lemma le_word_Nil [simp]: "le_word [] = 0"
  by (simp add: le_word_def)

lemma le_word_Cons [simp]: "le_word (b # bs) = ucast b OR push_bit 8 (le_word bs)"
  by (simp add: le_word_def)

lemma bit_le_word:
  "bit (le_word bs) n \<longleftrightarrow> n < 64 \<and> n div 8 < length bs \<and> bit (bs ! (n div 8)) (n mod 8)"
proof (induction bs arbitrary: n)
  case Nil
  then show ?case by simp
next
  case (Cons b bs)
  show ?case
  proof (cases "n < 8")
    case True
    then show ?thesis
      by (auto simp: bit_simps)
  next
    case False
    then have b: "\<not> bit b n" using bit_imp_le_length [of b n] by auto
    from False have "n div 8 = Suc ((n - 8) div 8)" "n mod 8 = (n - 8) mod 8"
      by (simp_all add: le_div_geq le_mod_geq not_less)
    with False b show ?thesis
      by (auto simp: bit_simps Cons.IH)
  qed
qed

lemma nth_le_bytes: "i < 8 \<Longrightarrow> le_bytes w ! i = ucast (drop_bit (8 * i) w)"
  by (simp add: le_bytes_def)

lemma le_word_le_bytes [simp]: "le_word (le_bytes w) = w"
proof (rule bit_word_eqI)
  fix n assume "n < LENGTH(64)"
  then have "n div 8 < 8" by auto
  then show "bit (le_word (le_bytes w)) n = bit w n"
    using \<open>n < LENGTH(64)\<close> by (simp add: bit_le_word nth_le_bytes bit_simps)
qed

lemma le_bytes_le_word [simp]: "length bs = 8 \<Longrightarrow> le_bytes (le_word bs) = bs"
proof (rule nth_equalityI, simp)
  fix i assume len: "length bs = 8" and "i < length (le_bytes (le_word bs))"
  then have i: "i < 8" by simp
  show "le_bytes (le_word bs) ! i = bs ! i"
  proof (rule bit_word_eqI)
    fix n assume n: "n < LENGTH(8)"
    then have "(8 * i + n) div 8 = i" "(8 * i + n) mod 8 = n" "8 * i + n < 64"
      using i by auto
    then show "bit (le_bytes (le_word bs) ! i) n = bit (bs ! i) n"
      using i n len by (simp add: nth_le_bytes bit_simps bit_le_word)
  qed
qed

end
