(* ===== verification/Disk.thy ===== *)
theory Disk
  imports Prelude
begin

text \<open>
  The simulated disk, src/disk/disk.hpp and disk.cpp: \<^verbatim>\<open>disk_file\<close>, a growing byte buffer, and
  \<^verbatim>\<open>open_file\<close>, a position and a list of writes not yet handed to the file it shares. An
  operation of an open file takes and returns the pair of both states; several open files of
  one \<^verbatim>\<open>disk_file\<close> are operations on one second component. Positions and sizes are 64-bit words
  that wrap as in C++. The only exception is the vector's \<^verbatim>\<open>length_error\<close>.
\<close>

section \<open>disk\_file\<close>

record disk_file =
  buffer :: bytes

definition max_file_size :: u64 where
  "max_file_size = 0x7fffffffffffffff"

text \<open>\<^verbatim>\<open>std::vector<std::byte>::max_size()\<close>.\<close>

definition vector_max :: u64 where
  "vector_max = 0x7fffffffffffffff"

definition resize :: "u64 \<Rightarrow> bytes \<Rightarrow> trap + bytes" where
  "resize n xs =
     (if vector_max < n then Inl Length_error
      else Inr (if unat n \<le> length xs then take (unat n) xs else grow (unat n) xs))"

definition df_write :: "u64 \<Rightarrow> bytes \<Rightarrow> disk_file \<Rightarrow> trap + int \<times> disk_file" where
  "df_write pos buf d =
     (if pos < 0 \<or> max_file_size \<le> pos then Inr (- EINVAL, d)
      else
        (let expanded =
           (if pos + size_bytes buf > size_bytes (buffer d)
            then resize (pos + size_bytes buf) (buffer d)
            else Inr (buffer d))
         in case expanded of
              Inl e \<Rightarrow> Inl e
            | Inr b \<Rightarrow> Inr (to_i64 (size_bytes buf), d\<lparr>buffer := overlay (unat pos) buf b\<rparr>)))"

text \<open>The result and the caller's buffer after the call.\<close>

definition df_read :: "u64 \<Rightarrow> bytes \<Rightarrow> disk_file \<Rightarrow> int \<times> bytes" where
  "df_read pos buf d =
     (if pos < 0 \<or> pos \<ge> size_bytes (buffer d) then (- EINVAL, buf)
      else
        (let num = min (size_bytes buf) (size_bytes (buffer d) - pos)
         in (to_i64 num, overlay 0 (take (unat num) (drop (unat pos) (buffer d))) buf)))"

definition df_get_size :: "disk_file \<Rightarrow> u64" where
  "df_get_size d = size_bytes (buffer d)"

section \<open>open\_file\<close>

type_synonym write_req = "bytes \<times> u64"

record open_file =
  write_backlog :: "write_req list"
  cur_pos :: u64
  direct :: bool

type_synonym file_state = "open_file \<times> disk_file"

fun flush_backlog :: "write_req list \<Rightarrow> disk_file \<Rightarrow> trap + disk_file" where
  "flush_backlog [] d = Inr d"
| "flush_backlog ((bs, pos) # reqs) d =
     (case df_write pos bs d of Inl e \<Rightarrow> Inl e | Inr (_, d') \<Rightarrow> flush_backlog reqs d')"

definition fsync_unlocked :: "file_state \<Rightarrow> trap + int \<times> file_state" where
  "fsync_unlocked s =
     (case s of (f, d) \<Rightarrow>
        if direct f then Inr (0, f, d)
        else case flush_backlog (write_backlog f) d of
               Inl e \<Rightarrow> Inl e
             | Inr d' \<Rightarrow> Inr (0, f\<lparr>write_backlog := []\<rparr>, d'))"

definition pwrite_unlocked :: "bytes \<Rightarrow> u64 \<Rightarrow> file_state \<Rightarrow> trap + int \<times> file_state" where
  "pwrite_unlocked buf offset s =
     (case s of (f, d) \<Rightarrow>
        if direct f then
          (case df_write offset buf d of
             Inl e \<Rightarrow> Inl e
           | Inr (n, d') \<Rightarrow> Inr (to_i64 (of_i64 n), f, d'))
        else Inr (to_i64 (size_bytes buf),
                  f\<lparr>write_backlog := write_backlog f @ [(buf, offset)]\<rparr>, d))"

definition pread_unlocked ::
  "bytes \<Rightarrow> u64 \<Rightarrow> file_state \<Rightarrow> trap + (int \<times> bytes) \<times> file_state" where
  "pread_unlocked buf offset s =
     (case fsync_unlocked s of
        Inl e \<Rightarrow> Inl e
      | Inr (_, f, d) \<Rightarrow>
          (let (n, buf') = df_read offset buf d
           in Inr ((to_i64 (of_i64 n), buf'), f, d)))"

definition file_write :: "bytes \<Rightarrow> file_state \<Rightarrow> trap + int \<times> file_state" where
  "file_write buf s =
     (case pwrite_unlocked buf (cur_pos (fst s)) s of
        Inl e \<Rightarrow> Inl e
      | Inr (result, f, d) \<Rightarrow>
          if result < 0 then Inr (result, f, d)
          else Inr (result, f\<lparr>cur_pos := cur_pos f + of_i64 result\<rparr>, d))"

definition file_read :: "bytes \<Rightarrow> file_state \<Rightarrow> trap + (int \<times> bytes) \<times> file_state" where
  "file_read buf s =
     (case pread_unlocked buf (cur_pos (fst s)) s of
        Inl e \<Rightarrow> Inl e
      | Inr ((result, buf'), f, d) \<Rightarrow>
          if result < 0 then Inr ((result, buf'), f, d)
          else Inr ((result, buf'), f\<lparr>cur_pos := cur_pos f + of_i64 result\<rparr>, d))"

definition file_pwrite :: "bytes \<Rightarrow> u64 \<Rightarrow> file_state \<Rightarrow> trap + int \<times> file_state" where
  "file_pwrite buf offset s = pwrite_unlocked buf offset s"

definition file_pread ::
  "bytes \<Rightarrow> u64 \<Rightarrow> file_state \<Rightarrow> trap + (int \<times> bytes) \<times> file_state" where
  "file_pread buf offset s = pread_unlocked buf offset s"

text \<open>\<^verbatim>\<open>whence\<close>: 0 is SEEK\_SET, 1 is SEEK\_CUR, 2 is SEEK\_END.\<close>

definition file_lseek :: "u64 \<Rightarrow> int \<Rightarrow> file_state \<Rightarrow> int \<times> file_state" where
  "file_lseek offset whence s =
     (case s of (f, d) \<Rightarrow>
        if whence = 0 then (to_i64 offset, f\<lparr>cur_pos := offset\<rparr>, d)
        else if whence = 1 then
          (to_i64 (cur_pos f + offset), f\<lparr>cur_pos := cur_pos f + offset\<rparr>, d)
        else if whence = 2 then
          (to_i64 (df_get_size d + offset), f\<lparr>cur_pos := df_get_size d + offset\<rparr>, d)
        else (- EINVAL, f, d))"

definition file_fsync :: "file_state \<Rightarrow> trap + int \<times> file_state" where
  "file_fsync s = fsync_unlocked s"

lemmas file_defs = file_write_def file_read_def file_pwrite_def file_pread_def file_lseek_def
  file_fsync_def fsync_unlocked_def pwrite_unlocked_def pread_unlocked_def

section \<open>The contents of a disk\_file\<close>

text \<open>
  Abstractly a file maps offsets to bytes. A write in bounds is a function update on an
  interval, with zeros in a gap before it.
\<close>

definition contents :: "disk_file \<Rightarrow> nat \<Rightarrow> u8 option" where
  "contents d i = (if i < length (buffer d) then Some (buffer d ! i) else None)"

definition write_ok :: "u64 \<Rightarrow> bytes \<Rightarrow> bool" where
  "write_ok pos bs \<longleftrightarrow> pos < max_file_size \<and> unat pos + length bs < 2 ^ 63"

definition df_ok :: "disk_file \<Rightarrow> bool" where
  "df_ok d \<longleftrightarrow> fits (buffer d)"

lemma unat_max_file_size [simp]: "unat max_file_size = 2 ^ 63 - 1"
  by (simp add: max_file_size_def)

lemma unat_vector_max [simp]: "unat vector_max = 2 ^ 63 - 1"
  by (simp add: vector_max_def)

lemma write_ok_fits: "write_ok pos bs \<Longrightarrow> fits bs"
  by (simp add: write_ok_def fits_def)

lemma unat_write_end: "write_ok pos bs \<Longrightarrow> unat (pos + size_bytes bs) = unat pos + length bs"
proof -
  assume ok: "write_ok pos bs"
  then have "unat pos + unat (size_bytes bs) < 2 ^ 64"
    by (simp add: write_ok_fits) (simp add: write_ok_def)
  with ok show ?thesis by (simp add: unat_plus_no_wrap write_ok_fits)
qed

definition df_put :: "u64 \<Rightarrow> bytes \<Rightarrow> disk_file \<Rightarrow> disk_file" where
  "df_put pos bs d =
     d\<lparr>buffer := overlay (unat pos) bs (grow (unat pos + length bs) (buffer d))\<rparr>"

lemma df_write_ok:
  assumes "write_ok pos bs" and "df_ok d"
  shows "df_write pos bs d = Inr (int (length bs), df_put pos bs d)" and "df_ok (df_put pos bs d)"
proof -
  note fits = write_ok_fits [OF assms(1)]
  have "\<not> max_file_size \<le> pos" using assms(1) by (simp add: write_ok_def not_le)
  moreover have gt: "pos + size_bytes bs > size_bytes (buffer d) \<longleftrightarrow>
      length (buffer d) < unat pos + length bs"
    using assms by (simp add: word_less_nat_alt unat_write_end df_ok_def)
  moreover have "\<not> vector_max < pos + size_bytes bs"
    using assms(1) by (simp add: word_less_nat_alt unat_write_end) (simp add: write_ok_def)
  ultimately show "df_write pos bs d = Inr (int (length bs), df_put pos bs d)"
    using fits assms(1)
    by (simp add: df_write_def resize_def df_put_def unat_write_end Let_def)
  show "df_ok (df_put pos bs d)"
    using assms by (simp add: df_ok_def df_put_def fits_def write_ok_def)
qed

lemma contents_df_put:
  "contents (df_put pos bs d) i =
     (if unat pos \<le> i \<and> i < unat pos + length bs then Some (bs ! (i - unat pos))
      else if i < length (buffer d) then Some (buffer d ! i)
      else if i < unat pos + length bs then Some 0 else None)"
  by (auto simp: contents_def df_put_def nth_overlay nth_grow max_def)

lemma df_read_in_bounds:
  assumes "df_ok d" and "fits buf" and "unat pos < length (buffer d)"
  defines "n \<equiv> min (length buf) (length (buffer d) - unat pos)"
  shows "df_read pos buf d = (int n, take n (drop (unat pos) (buffer d)) @ drop n buf)"
proof -
  have sz: "unat (size_bytes (buffer d)) = length (buffer d)"
    using assms(1) by (simp add: df_ok_def)
  have "\<not> pos \<ge> size_bytes (buffer d)"
    using assms(3) by (simp add: word_le_nat_alt sz)
  moreover have le: "pos \<le> size_bytes (buffer d)"
    using assms(3) by (simp add: word_le_nat_alt sz)
  define num where "num = min (size_bytes buf) (size_bytes (buffer d) - pos)"
  have num: "unat num = n"
    using assms(2) le by (simp add: num_def n_def min_def word_le_nat_alt unat_sub sz)
  moreover have "to_i64 num = int n"
  proof -
    have "n < 2 ^ 63" using assms(2) by (simp add: n_def fits_def)
    then show ?thesis using num by (simp add: to_i64_def sint_unat)
  qed
  ultimately show ?thesis
    by (simp add: df_read_def num_def [symmetric] Let_def overlay_def n_def)
qed

lemma df_read_out_of_bounds:
  "df_ok d \<Longrightarrow> length (buffer d) \<le> unat pos \<Longrightarrow> df_read pos buf d = (- EINVAL, buf)"
  by (simp add: df_read_def word_le_nat_alt df_ok_def)

lemma length_df_read [simp]:
  "df_ok d \<Longrightarrow> fits buf \<Longrightarrow> length (snd (df_read pos buf d)) = length buf"
proof (cases "unat pos < length (buffer d)")
  case True
  moreover assume "df_ok d" "fits buf"
  ultimately show ?thesis by (simp add: df_read_in_bounds)
qed (simp add: df_read_out_of_bounds)

section \<open>The contract of a random-access store\<close>

text \<open>
  The specification on a plain byte list: a write grows the list with zeros and overlays it,
  a read copies what there is from its offset.
\<close>

definition spec_write :: "nat \<Rightarrow> bytes \<Rightarrow> bytes \<Rightarrow> bytes" where
  "spec_write p bs xs = overlay p bs (grow (p + length bs) xs)"

definition spec_read :: "nat \<Rightarrow> bytes \<Rightarrow> bytes \<Rightarrow> int \<times> bytes" where
  "spec_read p buf xs =
     (let n = min (length buf) (length xs - p)
      in if length xs \<le> p then (- EINVAL, buf)
         else (int n, take n (drop p xs) @ drop n buf))"

lemma length_spec_write [simp]: "length (spec_write p bs xs) = max (p + length bs) (length xs)"
  by (simp add: spec_write_def)

lemma nth_spec_write:
  "i < max (p + length bs) (length xs) \<Longrightarrow>
   spec_write p bs xs ! i =
     (if p \<le> i \<and> i < p + length bs then bs ! (i - p) else if i < length xs then xs ! i else 0)"
  by (simp add: spec_write_def nth_overlay nth_grow)

lemma spec_read_back:
  assumes "bs \<noteq> []" and "length buf = length bs"
  shows "spec_read p buf (spec_write p bs xs) = (int (length bs), bs)"
proof -
  have "take (length bs) (drop p (spec_write p bs xs)) = bs"
    by (simp add: spec_write_def)
  moreover have "p < length (spec_write p bs xs)"
    using assms(1) by (cases bs) (auto simp: less_max_iff_disj)
  ultimately show ?thesis
    using assms by (auto simp: spec_read_def Let_def not_le min_def)
qed

lemma spec_read_elsewhere:
  assumes "q + length buf \<le> p \<or> p + length bs \<le> q" and "q + length buf \<le> length xs"
    and q: "q < length xs"
  shows "spec_read q buf (spec_write p bs xs) = spec_read q buf xs"
proof -
  have "take (length buf) (drop q (spec_write p bs xs)) = take (length buf) (drop q xs)"
  proof (rule nth_equalityI)
    fix i assume "i < length (take (length buf) (drop q (spec_write p bs xs)))"
    then have "i < length buf" by simp
    then show "take (length buf) (drop q (spec_write p bs xs)) ! i =
        take (length buf) (drop q xs) ! i"
      using assms by (auto simp: nth_spec_write)
  qed (use assms in auto)
  moreover have "min (length buf) (length xs - q) = length buf"
    "min (length buf) (max (p + length bs) (length xs) - q) = length buf"
    using assms(2) by auto
  ultimately show ?thesis using q by (simp add: spec_read_def Let_def)
qed

locale random_access =
  fixes ok :: "'s \<Rightarrow> bool"
    and data :: "'s \<Rightarrow> bytes"
    and wr :: "bytes \<Rightarrow> u64 \<Rightarrow> 's \<Rightarrow> trap + int \<times> 's"
    and rd :: "bytes \<Rightarrow> u64 \<Rightarrow> 's \<Rightarrow> trap + (int \<times> bytes) \<times> 's"
  assumes wr_spec: "ok s \<Longrightarrow> write_ok p bs \<Longrightarrow> \<exists>s'. wr bs p s = Inr (int (length bs), s') \<and>
      ok s' \<and> data s' = spec_write (unat p) bs (data s)"
    and rd_spec: "ok s \<Longrightarrow> fits buf \<Longrightarrow> \<exists>s'. rd buf p s = Inr (spec_read (unat p) buf (data s), s') \<and>
      ok s' \<and> data s' = data s"
begin

lemma read_back:
  assumes "ok s" and "write_ok p bs" and "bs \<noteq> []" and "length buf = length bs"
    and "wr bs p s = Inr (n, s')"
  shows "n = int (length bs) \<and> (\<exists>s''. rd buf p s' = Inr ((int (length bs), bs), s''))"
proof -
  from wr_spec [OF assms(1,2)] assms(5) have s': "n = int (length bs)" "ok s'"
    "data s' = spec_write (unat p) bs (data s)" by auto
  have "fits buf" using write_ok_fits [OF assms(2)] assms(4) by (simp add: fits_def)
  from rd_spec [OF s'(2) this, of p] show ?thesis
    using s' assms(3,4) by (auto simp: spec_read_back)
qed

lemma read_elsewhere:
  assumes "ok s" and "write_ok p bs" and "fits buf"
    and "unat q + length buf \<le> unat p \<or> unat p + length bs \<le> unat q"
    and "unat q + length buf \<le> length (data s)" and "unat q < length (data s)"
    and "wr bs p s = Inr (n, s')"
  shows "\<exists>r s1 s2. rd buf q s = Inr (r, s1) \<and> rd buf q s' = Inr (r, s2)"
proof -
  from wr_spec [OF assms(1,2)] assms(7) have s': "ok s'"
    "data s' = spec_write (unat p) bs (data s)" by auto
  from rd_spec [OF assms(1,3), of q] rd_spec [OF s'(1) assms(3), of q] show ?thesis
    using spec_read_elsewhere [OF assms(4-6)] s'(2) by auto
qed

end

text \<open>The file itself is such a store, a read leaving it unchanged.\<close>

definition df_read_st :: "bytes \<Rightarrow> u64 \<Rightarrow> disk_file \<Rightarrow> trap + (int \<times> bytes) \<times> disk_file" where
  "df_read_st buf p d = Inr (df_read p buf d, d)"

lemma df_read_spec:
  assumes "df_ok d" and "fits buf"
  shows "df_read p buf d = spec_read (unat p) buf (buffer d)"
proof (cases "unat p < length (buffer d)")
  case True
  then show ?thesis
    by (simp add: df_read_in_bounds [OF assms] spec_read_def Let_def)
next
  case False
  then show ?thesis
    using assms(1) by (simp add: df_read_out_of_bounds spec_read_def Let_def)
qed

lemma df_put_spec: "buffer (df_put p bs d) = spec_write (unat p) bs (buffer d)"
  by (simp add: df_put_def spec_write_def)

interpretation df: random_access df_ok buffer "\<lambda>bs p. df_write p bs" df_read_st
  by unfold_locales (auto simp: df_write_ok df_put_spec df_read_st_def df_read_spec)

section \<open>The buffered file refines the direct one\<close>

text \<open>
  The view of an open file is what a reader is to see: the file in direct mode, all pending
  writes applied in the order they were issued.
\<close>

definition apply_writes :: "write_req list \<Rightarrow> disk_file \<Rightarrow> disk_file" where
  "apply_writes reqs d = fold (\<lambda>(bs, p) d. df_put p bs d) reqs d"

definition view :: "file_state \<Rightarrow> file_state" where
  "view s = (case s of (f, d) \<Rightarrow>
     (f\<lparr>direct := True, write_backlog := []\<rparr>, apply_writes (write_backlog f) d))"

definition file_inv :: "file_state \<Rightarrow> bool" where
  "file_inv s \<longleftrightarrow> (case s of (f, d) \<Rightarrow>
     df_ok d \<and> (\<forall>(bs, p) \<in> set (write_backlog f). write_ok p bs) \<and>
     (direct f \<longrightarrow> write_backlog f = []))"

lemma apply_writes_Nil [simp]: "apply_writes [] d = d"
  by (simp add: apply_writes_def)

lemma apply_writes_snoc: "apply_writes (reqs @ [(bs, p)]) d = df_put p bs (apply_writes reqs d)"
  by (simp add: apply_writes_def)

lemma flush_backlog_ok:
  "df_ok d \<Longrightarrow> \<forall>(bs, p) \<in> set reqs. write_ok p bs \<Longrightarrow>
   flush_backlog reqs d = Inr (apply_writes reqs d) \<and> df_ok (apply_writes reqs d)"
  by (induction reqs d rule: flush_backlog.induct) (auto simp: df_write_ok apply_writes_def)

datatype file_op =
  Pread bytes u64 | Pwrite bytes u64 | Read bytes | Write bytes | Lseek u64 int | Fsync

datatype file_res = Count int | Data int bytes

definition run_op :: "file_op \<Rightarrow> file_state \<Rightarrow> trap + file_res \<times> file_state" where
  "run_op a s =
     (let count = (\<lambda>x. case x of Inl e \<Rightarrow> Inl e | Inr (n, s') \<Rightarrow> Inr (Count n, s'));
          data = (\<lambda>x. case x of Inl e \<Rightarrow> Inl e | Inr ((n, b), s') \<Rightarrow> Inr (Data n b, s'))
      in case a of
           Pread b p \<Rightarrow> data (file_pread b p s)
         | Pwrite b p \<Rightarrow> count (file_pwrite b p s)
         | Read b \<Rightarrow> data (file_read b s)
         | Write b \<Rightarrow> count (file_write b s)
         | Lseek p w \<Rightarrow> count (Inr (file_lseek p w s))
         | Fsync \<Rightarrow> count (file_fsync s))"

text \<open>
  The operations for which buffering is invisible: writes within the size limit, reads into
  a buffer, and every \<^verbatim>\<open>lseek\<close> but one relative to the end of the file.
\<close>

definition op_ok :: "file_op \<Rightarrow> file_state \<Rightarrow> bool" where
  "op_ok a s =
     (case a of
        Pread b p \<Rightarrow> fits b
      | Pwrite b p \<Rightarrow> write_ok p b
      | Read b \<Rightarrow> fits b
      | Write b \<Rightarrow> write_ok (cur_pos (fst s)) b
      | Lseek p w \<Rightarrow> w \<noteq> 2
      | Fsync \<Rightarrow> True)"

lemma fsync_view:
  assumes "file_inv s"
  shows "\<exists>s'. fsync_unlocked s = Inr (0, s') \<and> file_inv s' \<and> view s' = view s \<and>
    write_backlog (fst s') = [] \<and> snd s' = snd (view s) \<and>
    fst s' = (fst s)\<lparr>write_backlog := []\<rparr> \<and> fsync_unlocked (view s) = Inr (0, view s)"
proof (cases s)
  case (Pair f d)
  then have "flush_backlog (write_backlog f) d = Inr (apply_writes (write_backlog f) d)"
    "df_ok (apply_writes (write_backlog f) d)"
    using assms flush_backlog_ok [of d "write_backlog f"] by (simp_all add: file_inv_def)
  with Pair assms show ?thesis
    by (auto simp: fsync_unlocked_def view_def file_inv_def)
qed

lemma pwrite_view:
  assumes "file_inv s" and "write_ok p bs"
  shows "\<exists>s'. pwrite_unlocked bs p s = Inr (int (length bs), s') \<and> file_inv s' \<and>
    cur_pos (fst s') = cur_pos (fst s) \<and> direct (fst s') = direct (fst s) \<and>
    pwrite_unlocked bs p (view s) = Inr (int (length bs), view s') \<and>
    buffer (snd (view s')) = spec_write (unat p) bs (buffer (snd (view s)))"
proof (cases s)
  case (Pair f d)
  have conv: "to_i64 (of_i64 (int (length bs))) = int (length bs)"
    using write_ok_fits [OF assms(2)] by (intro to_i64_of_i64) (simp_all add: fits_def)
  have d: "df_ok d" "df_ok (apply_writes (write_backlog f) d)"
    using assms(1) Pair flush_backlog_ok [of d "write_backlog f"] by (simp_all add: file_inv_def)
  show ?thesis
  proof (cases "direct f")
    case True
    then have "write_backlog f = []" using assms(1) Pair by (simp add: file_inv_def)
    with True d assms(2) conv Pair show ?thesis
      by (auto simp: pwrite_unlocked_def view_def df_write_ok file_inv_def df_put_spec)
  next
    case False
    with d assms conv Pair show ?thesis
      by (auto simp: pwrite_unlocked_def view_def df_write_ok file_inv_def df_put_spec
          apply_writes_snoc write_ok_fits)
  qed
qed

lemma df_read_range:
  assumes "df_ok d" and "fits buf"
  shows "to_i64 (of_i64 (fst (df_read p buf d))) = fst (df_read p buf d)"
proof (rule to_i64_of_i64)
  have "int (min (length buf) (length (buffer d) - unat p)) < 2 ^ 63"
    using assms(2) by (simp add: fits_def min_def)
  then show "fst (df_read p buf d) < 2 ^ 63"
    by (simp add: df_read_spec [OF assms] spec_read_def Let_def)
qed (simp add: df_read_spec [OF assms] spec_read_def Let_def)

lemma pread_view:
  assumes "file_inv s" and "fits buf"
  shows "\<exists>s'. pread_unlocked buf p s = Inr (spec_read (unat p) buf (buffer (snd (view s))), s') \<and>
    file_inv s' \<and> view s' = view s \<and> cur_pos (fst s') = cur_pos (fst s) \<and>
    pread_unlocked buf p (view s) =
      Inr (spec_read (unat p) buf (buffer (snd (view s))), view s)"
proof -
  from fsync_view [OF assms(1)] obtain s' where s': "fsync_unlocked s = Inr (0, s')"
    "file_inv s'" "view s' = view s" "snd s' = snd (view s)"
    "fst s' = (fst s)\<lparr>write_backlog := []\<rparr>" "fsync_unlocked (view s) = Inr (0, view s)" by blast
  have ok: "df_ok (snd (view s))"
    using s'(2,4) by (auto simp: file_inv_def split: prod.splits)
  have pos: "cur_pos (fst s') = cur_pos (fst s)" by (simp add: s'(5))
  note rd = df_read_range [OF ok assms(2), of p] df_read_spec [OF ok assms(2), of p]
  have "pread_unlocked buf p s = Inr (spec_read (unat p) buf (buffer (snd (view s))), s')"
    using rd s'(4) by (cases s') (simp add: pread_unlocked_def s'(1) case_prod_beta)
  moreover have "pread_unlocked buf p (view s) =
      Inr (spec_read (unat p) buf (buffer (snd (view s))), view s)"
    using rd s'(6) by (cases "view s") (simp add: pread_unlocked_def case_prod_beta)
  ultimately show ?thesis using s'(2,3) pos by blast
qed

lemma view_set_pos: "view (f\<lparr>cur_pos := p\<rparr>, d) = ((fst (view (f, d)))\<lparr>cur_pos := p\<rparr>, snd (view (f, d)))"
  by (simp add: view_def)

lemma file_inv_set_pos: "file_inv (f\<lparr>cur_pos := p\<rparr>, d) = file_inv (f, d)"
  by (simp add: file_inv_def)

lemma pos_view [simp]: "cur_pos (fst (view s)) = cur_pos (fst s)"
  by (simp add: view_def split: prod.splits)

lemma file_write_view:
  assumes "file_inv s" and "write_ok (cur_pos (fst s)) bs"
  shows "\<exists>s'. file_write bs s = Inr (int (length bs), s') \<and> file_inv s' \<and>
    cur_pos (fst s') = cur_pos (fst s) + size_bytes bs \<and>
    direct (fst s') = direct (fst s) \<and>
    file_write bs (view s) = Inr (int (length bs), view s') \<and>
    buffer (snd (view s')) = spec_write (unat (cur_pos (fst s))) bs (buffer (snd (view s)))"
proof -
  from pwrite_view [OF assms] obtain f d where
    s1: "pwrite_unlocked bs (cur_pos (fst s)) s = Inr (int (length bs), f, d)" "file_inv (f, d)"
      "cur_pos f = cur_pos (fst s)" "direct f = direct (fst s)"
      "pwrite_unlocked bs (cur_pos (fst s)) (view s) = Inr (int (length bs), view (f, d))"
      "buffer (snd (view (f, d))) = spec_write (unat (cur_pos (fst s))) bs (buffer (snd (view s)))"
    by (metis fst_conv surj_pair)
  have "of_i64 (int (length bs)) = size_bytes bs" by (simp add: of_i64_def size_bytes_def)
  moreover obtain f' d' where v: "view (f, d) = (f', d')" by fastforce
  moreover have "cur_pos f' = cur_pos f" using pos_view [of "(f, d)"] v by simp
  ultimately show ?thesis
    using s1 by (intro exI [of _ "(f\<lparr>cur_pos := cur_pos f + size_bytes bs\<rparr>, d)"])
      (simp add: file_write_def view_set_pos file_inv_set_pos)
qed

lemma file_read_view:
  assumes "file_inv s" and "fits buf"
  defines "r \<equiv> spec_read (unat (cur_pos (fst s))) buf (buffer (snd (view s)))"
  shows "\<exists>s'. file_read buf s = Inr (r, s') \<and> file_inv s' \<and> file_read buf (view s) = Inr (r, view s') \<and>
    cur_pos (fst s') = (if fst r < 0 then cur_pos (fst s) else cur_pos (fst s) + of_i64 (fst r)) \<and>
    snd (view s') = snd (view s)"
proof -
  from pread_view [OF assms(1,2), of "cur_pos (fst s)"] obtain f d where
    s1: "pread_unlocked buf (cur_pos (fst s)) s = Inr (r, f, d)" "file_inv (f, d)"
      "view (f, d) = view s" "cur_pos f = cur_pos (fst s)"
      "pread_unlocked buf (cur_pos (fst s)) (view s) = Inr (r, view s)"
    unfolding r_def by (metis fst_conv surj_pair)
  obtain f' d' where v: "view s = (f', d')" by fastforce
  have p: "cur_pos f' = cur_pos (fst s)" using pos_view [of s] v by simp
  show ?thesis
  proof (cases "fst r < 0")
    case True
    with s1 v p show ?thesis
      by (intro exI [of _ "(f, d)"]) (simp add: file_read_def case_prod_beta)
  next
    case False
    with s1 v p show ?thesis
      by (intro exI [of _ "(f\<lparr>cur_pos := cur_pos f + of_i64 (fst r)\<rparr>, d)"])
        (simp add: file_read_def case_prod_beta view_set_pos file_inv_set_pos)
  qed
qed

lemma file_lseek_view:
  assumes "file_inv s" and "w \<noteq> 2"
  shows "\<exists>n s'. file_lseek p w s = (n, s') \<and> file_inv s' \<and> file_lseek p w (view s) = (n, view s')"
proof (cases s)
  case (Pair f d)
  obtain f' d' where v: "view (f, d) = (f', d')" by fastforce
  then have "cur_pos f' = cur_pos f" using pos_view [of "(f, d)"] by simp
  with Pair assms v show ?thesis
    by (auto simp: file_lseek_def view_set_pos file_inv_set_pos)
qed

lemma run_op_view:
  assumes "file_inv s" and "op_ok a s"
  shows "\<exists>r s'. run_op a s = Inr (r, s') \<and> file_inv s' \<and> run_op a (view s) = Inr (r, view s')"
proof (cases a)
  case (Pread b p)
  with assms pread_view [OF assms(1), of b p] show ?thesis
    by (auto simp: run_op_def op_ok_def file_pread_def case_prod_beta)
next
  case (Pwrite b p)
  with assms pwrite_view [OF assms(1), of p b] show ?thesis
    by (auto simp: run_op_def op_ok_def file_pwrite_def)
next
  case (Read b)
  with assms file_read_view [OF assms(1), of b] show ?thesis
    by (auto simp: run_op_def op_ok_def case_prod_beta)
next
  case (Write b)
  with assms file_write_view [OF assms(1), of b] show ?thesis
    by (auto simp: run_op_def op_ok_def)
next
  case (Lseek p w)
  with assms file_lseek_view [OF assms(1), of w p] show ?thesis
    by (auto simp: run_op_def op_ok_def)
next
  case Fsync
  with fsync_view [OF assms(1)] show ?thesis
    by (auto simp: run_op_def file_fsync_def)
qed

fun run_ops :: "file_op list \<Rightarrow> file_state \<Rightarrow> trap + file_res list \<times> file_state" where
  "run_ops [] s = Inr ([], s)"
| "run_ops (a # as) s =
     (case run_op a s of
        Inl e \<Rightarrow> Inl e
      | Inr (r, s') \<Rightarrow>
          (case run_ops as s' of Inl e \<Rightarrow> Inl e | Inr (rs, s'') \<Rightarrow> Inr (r # rs, s'')))"

fun ops_ok :: "file_op list \<Rightarrow> file_state \<Rightarrow> bool" where
  "ops_ok [] s = True"
| "ops_ok (a # as) s =
     (op_ok a s \<and> (case run_op a s of Inl e \<Rightarrow> True | Inr (r, s') \<Rightarrow> ops_ok as s'))"

lemma run_ops_view:
  "file_inv s \<Longrightarrow> ops_ok as s \<Longrightarrow>
   \<exists>rs s'. run_ops as s = Inr (rs, s') \<and> file_inv s' \<and> run_ops as (view s) = Inr (rs, view s')"
proof (induction as arbitrary: s)
  case Nil
  then show ?case by simp
next
  case (Cons a as)
  from run_op_view [of s a] Cons.prems obtain r s1 where s1: "run_op a s = Inr (r, s1)"
    "file_inv s1" "run_op a (view s) = Inr (r, view s1)" by auto
  with Cons obtain rs s' where "run_ops as s1 = Inr (rs, s')" "file_inv s'"
    "run_ops as (view s1) = Inr (rs, view s')" by fastforce
  with s1 show ?case by auto
qed

text \<open>Through its view an open file is a random-access store in either mode.\<close>

interpretation opf: random_access file_inv "\<lambda>s. buffer (snd (view s))" file_pwrite file_pread
proof (unfold_locales, goal_cases)
  case (1 s p bs)
  from pwrite_view [OF this] show ?case by (auto simp: file_pwrite_def)
next
  case (2 s buf p)
  from pread_view [OF this, of p] show ?case by (auto simp: file_pread_def)
qed

section \<open>Consecutive writes\<close>

lemma spec_write_append:
  "spec_write (p + length as) bs (spec_write p as xs) = spec_write p (as @ bs) xs"
proof (rule nth_equalityI)
  fix i assume "i < length (spec_write (p + length as) bs (spec_write p as xs))"
  then have i: "i < max (p + length as + length bs) (length (spec_write p as xs))"
    "i < max (p + length (as @ bs)) (length xs)" by auto
  show "spec_write (p + length as) bs (spec_write p as xs) ! i = spec_write p (as @ bs) xs ! i"
    unfolding nth_spec_write [OF i(1)] nth_spec_write [OF i(2)]
    by (auto simp: nth_spec_write less_max_iff_disj nth_append)
qed auto

lemma run_ops_append:
  "run_ops (as @ bs) s =
     (case run_ops as s of
        Inl e \<Rightarrow> Inl e
      | Inr (rs, s') \<Rightarrow>
          (case run_ops bs s' of Inl e \<Rightarrow> Inl e | Inr (rs', s'') \<Rightarrow> Inr (rs @ rs', s'')))"
  by (induction as arbitrary: s) (auto split: sum.splits)

lemma write_ok_prefix: "write_ok p (as @ bs) \<Longrightarrow> write_ok p as"
  by (simp add: write_ok_def)

lemma write_ok_suffix:
  assumes "write_ok p (as @ bs)" and "bs \<noteq> []"
  shows "write_ok (p + size_bytes as) bs \<and> unat (p + size_bytes as) = unat p + length as"
proof -
  have "unat (p + size_bytes as) = unat p + length as"
    by (rule unat_write_end [OF write_ok_prefix [OF assms(1)]])
  moreover from this have "unat (p + size_bytes as) < 2 ^ 63 - 1"
    using assms by (cases bs) (auto simp: write_ok_def)
  ultimately show ?thesis
    using assms(1) by (simp add: write_ok_def word_less_nat_alt)
qed

lemma run_writes:
  assumes "file_inv s" and "\<forall>b \<in> set bss. b \<noteq> []" and "write_ok (cur_pos (fst s)) (concat bss)"
  shows "\<exists>s'. run_ops (map Write bss) s = Inr (map (\<lambda>b. Count (int (length b))) bss, s') \<and>
    file_inv s' \<and> (bss \<noteq> [] \<longrightarrow> buffer (snd (view s')) =
      spec_write (unat (cur_pos (fst s))) (concat bss) (buffer (snd (view s))))"
  using assms
proof (induction bss arbitrary: s)
  case Nil
  then show ?case by simp
next
  case (Cons b bss)
  have ok: "write_ok (cur_pos (fst s)) b"
    using Cons.prems(3) by (auto intro: write_ok_prefix)
  from file_write_view [OF Cons.prems(1) ok] obtain s1 where
    s1: "file_write b s = Inr (int (length b), s1)" "file_inv s1"
      "cur_pos (fst s1) = cur_pos (fst s) + size_bytes b"
      "buffer (snd (view s1)) = spec_write (unat (cur_pos (fst s))) b (buffer (snd (view s)))"
    by blast
  have step: "run_op (Write b) s = Inr (Count (int (length b)), s1)"
    by (simp add: run_op_def s1(1))
  show ?case
  proof (cases "bss = []")
    case True
    with step s1 show ?thesis by simp
  next
    case False
    then have ne: "concat bss \<noteq> []" using Cons.prems(2) by (cases bss) auto
    have suf: "write_ok (cur_pos (fst s1)) (concat bss)"
      "unat (cur_pos (fst s1)) = unat (cur_pos (fst s)) + length b"
      using write_ok_suffix [OF _ ne, of "cur_pos (fst s)" b] Cons.prems(3) s1(3) by auto
    from Cons.IH [OF s1(2) _ suf(1)] Cons.prems(2) False obtain s' where
      "run_ops (map Write bss) s1 = Inr (map (\<lambda>b. Count (int (length b))) bss, s')" "file_inv s'"
      "buffer (snd (view s')) =
         spec_write (unat (cur_pos (fst s1))) (concat bss) (buffer (snd (view s1)))" by auto
    with step suf(2) s1(4) show ?thesis by (simp add: spec_write_append)
  qed
qed

section \<open>Properties\<close>

text \<open>a write within the size limit returns its length and leaves a file whose bytes are
  those written in the written interval, the old ones elsewhere, and zeros in a gap between
  the old end and the offset (even for an empty write); an offset at or above 2^63 - 1 is
  refused with EINVAL and changes nothing.\<close>

theorem disk_write_contents:
  assumes "df_ok d" and "write_ok pos bs" and "max_file_size \<le> big"
  shows "\<exists>d'. df_write pos bs d = Inr (int (length bs), d') \<and> df_ok d' \<and>
    length (buffer d') = max (length (buffer d)) (unat pos + length bs) \<and>
    (\<forall>i. contents d' i =
       (if unat pos \<le> i \<and> i < unat pos + length bs then Some (bs ! (i - unat pos))
        else if i < length (buffer d) then contents d i
        else if i < unat pos + length bs then Some 0 else None)) \<and>
    df_write big bs d = Inr (- EINVAL, d)"
proof -
  have "length (buffer (df_put pos bs d)) = max (length (buffer d)) (unat pos + length bs)"
    by (simp add: df_put_spec max.commute)
  moreover have "df_write big bs d = Inr (- EINVAL, d)"
    using assms(3) by (simp add: df_write_def)
  ultimately show ?thesis
    using df_write_ok [OF assms(2,1)]
    by (intro exI [of _ "df_put pos bs d"]) (simp add: contents_df_put contents_def [of d])
qed

theorem disk_write_contents_witness:
  "\<exists>d'. df_write 2 [7, 8] \<lparr>buffer = [1]\<rparr> = Inr (int (length [7 :: u8, 8]), d') \<and> df_ok d' \<and>
    length (buffer d') = max (length (buffer \<lparr>buffer = [1]\<rparr>)) (unat (2 :: u64) + length [7 :: u8, 8]) \<and>
    (\<forall>i. contents d' i =
       (if unat (2 :: u64) \<le> i \<and> i < unat (2 :: u64) + length [7 :: u8, 8]
        then Some ([7, 8] ! (i - unat (2 :: u64)))
        else if i < length (buffer \<lparr>buffer = [1]\<rparr>) then contents \<lparr>buffer = [1]\<rparr> i
        else if i < unat (2 :: u64) + length [7 :: u8, 8] then Some 0 else None)) \<and>
    df_write max_file_size [7, 8] \<lparr>buffer = [1]\<rparr> = Inr (- EINVAL, \<lparr>buffer = [1]\<rparr>)"
  by (rule disk_write_contents)
    (simp_all add: df_ok_def fits_def write_ok_def max_file_size_def)



text \<open>a positional read of the interval just written returns exactly the bytes written,
  in buffered and in direct mode.\<close>

theorem pread_after_pwrite:
  assumes "file_inv s" and "write_ok p bs" and "bs \<noteq> []" and "length buf = length bs"
  shows "\<exists>s1 s2. file_pwrite bs p s = Inr (int (length bs), s1) \<and>
    file_pread buf p s1 = Inr ((int (length bs), bs), s2)"
proof -
  from pwrite_view [OF assms(1,2)] obtain s1 where
    "file_pwrite bs p s = Inr (int (length bs), s1)" by (auto simp: file_pwrite_def)
  with opf.read_back [OF assms, of "int (length bs)" s1] show ?thesis by blast
qed

theorem pread_after_pwrite_witness:
  "\<exists>s1 s2. file_pwrite [1, 2] 5 (\<lparr>write_backlog = [], cur_pos = 0, direct = False\<rparr>, \<lparr>buffer = []\<rparr>) =
      Inr (int (length [1 :: u8, 2]), s1) \<and>
    file_pread [0, 0] 5 s1 = Inr ((int (length [1 :: u8, 2]), [1, 2]), s2)"
  by (rule pread_after_pwrite)
    (simp_all add: file_inv_def df_ok_def write_ok_def max_file_size_def)

text \<open>what a sequence of non-empty writes through the file position stored is read back
  as one block after seeking to where it began.\<close>

theorem sequential_writes_read_back:
  assumes "file_inv s" and "bss \<noteq> []" and "\<forall>b \<in> set bss. b \<noteq> []"
    and "write_ok (cur_pos (fst s)) (concat bss)" and "length buf = length (concat bss)"
  shows "\<exists>s'. run_ops (map Write bss @ [Lseek (cur_pos (fst s)) 0, Read buf]) s =
    Inr (map (\<lambda>b. Count (int (length b))) bss @
         [Count (int (unat (cur_pos (fst s)))), Data (int (length (concat bss))) (concat bss)], s')"
proof -
  let ?p = "cur_pos (fst s)"
  from run_writes [OF assms(1,3,4)] assms(2) obtain f d where s1:
    "run_ops (map Write bss) s = Inr (map (\<lambda>b. Count (int (length b))) bss, f, d)"
    "file_inv (f, d)"
    "buffer (snd (view (f, d))) = spec_write (unat ?p) (concat bss) (buffer (snd (view s)))"
    by auto
  have ne: "concat bss \<noteq> []" using assms(2,3) by (cases bss) auto
  let ?s2 = "(f\<lparr>cur_pos := ?p\<rparr>, d)"
  have "unat ?p < 2 ^ 63" using assms(4) by (simp add: write_ok_def)
  then have seek: "run_op (Lseek ?p 0) (f, d) = Inr (Count (int (unat ?p)), ?s2)"
    by (simp add: run_op_def file_lseek_def to_i64_def sint_unat)
  have inv: "file_inv ?s2" using s1(2) by (simp add: file_inv_set_pos)
  have fits: "fits buf"
    using write_ok_fits [OF assms(4)] assms(5) by (simp add: fits_def)
  have "buffer (snd (view ?s2)) = spec_write (unat ?p) (concat bss) (buffer (snd (view s)))"
    using s1(3) by (simp add: view_set_pos)
  with file_read_view [OF inv fits] spec_read_back [OF ne assms(5)]
  obtain s' where "file_read buf ?s2 = Inr ((int (length (concat bss)), concat bss), s')" by auto
  then have "run_op (Read buf) ?s2 = Inr (Data (int (length (concat bss))) (concat bss), s')"
    by (simp add: run_op_def)
  with s1(1) seek show ?thesis by (simp add: run_ops_append)
qed

theorem sequential_writes_read_back_witness:
  "\<exists>s'. run_ops (map Write [[1], [2, 3]] @
      [Lseek (cur_pos (fst (\<lparr>write_backlog = [], cur_pos = 4, direct = False\<rparr>, \<lparr>buffer = []\<rparr>))) 0,
       Read [0, 0, 0]]) (\<lparr>write_backlog = [], cur_pos = 4, direct = False\<rparr>, \<lparr>buffer = []\<rparr>) =
    Inr (map (\<lambda>b. Count (int (length b))) [[1 :: u8], [2, 3]] @
      [Count (int (unat (cur_pos (fst (\<lparr>write_backlog = [], cur_pos = 4, direct = False\<rparr>, \<lparr>buffer = []\<rparr>))))),
       Data (int (length (concat [[1 :: u8], [2, 3]]))) (concat [[1], [2, 3]])], s')"
  by (rule sequential_writes_read_back)
    (simp_all add: file_inv_def df_ok_def write_ok_def max_file_size_def)

text \<open>lseek relative to the end does not see pending writes: after a buffered write past
  the end of the stored file it reports the size without them, while the direct file reports
  the end of the write.\<close>

theorem seek_end_ignores_pending_writes:
  assumes "df_ok d" and "write_ok p bs" and "length (buffer d) < unat p + length bs"
  defines "b \<equiv> (\<lparr>write_backlog = [], cur_pos = 0, direct = False\<rparr>, d)"
  defines "t \<equiv> (\<lparr>write_backlog = [], cur_pos = 0, direct = True\<rparr>, d)"
  shows "(\<exists>s1 s2. run_ops [Pwrite bs p, Lseek 0 2] b =
            Inr ([Count (int (length bs)), Count (int (length (buffer d)))], s1) \<and>
          run_ops [Pwrite bs p, Lseek 0 2] t =
            Inr ([Count (int (length bs)), Count (int (unat p + length bs))], s2))"
proof -
  have conv: "to_i64 (of_i64 (int (length bs))) = int (length bs)"
    using write_ok_fits [OF assms(2)] by (intro to_i64_of_i64) (simp_all add: fits_def)
  have "length (buffer (df_put p bs d)) = unat p + length bs"
    using assms(3) by (simp add: df_put_spec)
  then have "to_i64 (df_get_size (df_put p bs d)) = int (unat p + length bs)"
    "to_i64 (df_get_size d) = int (length (buffer d))"
    using df_write_ok(2) [OF assms(2,1)] assms(1) by (simp_all add: df_get_size_def df_ok_def)
  then show ?thesis
    using df_write_ok(1) [OF assms(2,1)] conv write_ok_fits [OF assms(2)]
    by (simp add: b_def t_def run_op_def file_pwrite_def pwrite_unlocked_def file_lseek_def)
qed

theorem seek_end_ignores_pending_writes_witness:
  "\<exists>s1 s2. run_ops [Pwrite [1, 2] 0, Lseek 0 2]
        (\<lparr>write_backlog = [], cur_pos = 0, direct = False\<rparr>, \<lparr>buffer = []\<rparr>) =
      Inr ([Count (int (length [1 :: u8, 2])), Count (int (length (buffer \<lparr>buffer = []\<rparr>)))], s1) \<and>
    run_ops [Pwrite [1, 2] 0, Lseek 0 2]
        (\<lparr>write_backlog = [], cur_pos = 0, direct = True\<rparr>, \<lparr>buffer = []\<rparr>) =
      Inr ([Count (int (length [1 :: u8, 2])), Count (int (unat (0 :: u64) + length [1 :: u8, 2]))], s2)"
  by (rule seek_end_ignores_pending_writes)
    (simp_all add: df_ok_def write_ok_def max_file_size_def)

text \<open>buffering hides a refused write: at an offset of at least 2^63 - 1 the direct file
  answers EINVAL, while the buffered file reports the whole length, then reports a successful
  fsync, and nothing was stored.\<close>

theorem buffered_write_error_lost:
  fixes d :: disk_file
  assumes "max_file_size \<le> p" and "fits bs"
  defines "b \<equiv> (\<lparr>write_backlog = [], cur_pos = 0, direct = False\<rparr>, d)"
  defines "t \<equiv> (\<lparr>write_backlog = [], cur_pos = 0, direct = True\<rparr>, d)"
  shows "run_ops [Pwrite bs p, Fsync] b = Inr ([Count (int (length bs)), Count 0], b) \<and>
    run_ops [Pwrite bs p, Fsync] t = Inr ([Count (- EINVAL), Count 0], t)"
proof -
  have "df_write p bs d = Inr (- EINVAL, d)" using assms(1) by (simp add: df_write_def)
  moreover have "to_i64 (of_i64 (- EINVAL)) = - EINVAL" by (rule to_i64_of_i64) simp_all
  ultimately show ?thesis
    using assms(2) by (simp add: b_def t_def run_op_def file_pwrite_def pwrite_unlocked_def
        file_fsync_def fsync_unlocked_def)
qed

theorem buffered_write_error_lost_witness:
  "run_ops [Pwrite [1] max_file_size, Fsync]
      (\<lparr>write_backlog = [], cur_pos = 0, direct = False\<rparr>, \<lparr>buffer = [9]\<rparr>) =
    Inr ([Count (int (length [1 :: u8])), Count 0],
      (\<lparr>write_backlog = [], cur_pos = 0, direct = False\<rparr>, \<lparr>buffer = [9]\<rparr>)) \<and>
   run_ops [Pwrite [1] max_file_size, Fsync]
      (\<lparr>write_backlog = [], cur_pos = 0, direct = True\<rparr>, \<lparr>buffer = [9]\<rparr>) =
    Inr ([Count (- EINVAL), Count 0],
      (\<lparr>write_backlog = [], cur_pos = 0, direct = True\<rparr>, \<lparr>buffer = [9]\<rparr>))"
  by (rule buffered_write_error_lost) (simp_all add: fits_def)

end
