(* ===== verification/Fd_Table.thy ===== *)
theory Fd_Table
  imports Prelude "HOL-Library.Finite_Map"
begin

text \<open>
  The table of simulated file descriptors, \<^verbatim>\<open>file_descriptor_table\<close> of
  src/sim/file_descriptor.hpp and .cpp. The \<^verbatim>\<open>unordered_map\<close> from descriptors to shared
  pointers is a finite map into an option, \<^const>\<open>None\<close> being a null pointer; the vector of
  released descriptors is a list whose last element is the back. The objects are a type
  parameter. Each operation runs under the table's mutex, so it is one step.
\<close>

record 'o fd_table =
  table :: "(u32, 'o option) fmap"
  unused :: "u32 list"

definition fd_table_init :: "'o fd_table" where
  "fd_table_init = \<lparr>table = fmempty, unused = []\<rparr>"

definition simulated :: u32 where
  "simulated = 0x40000000"

definition capacity :: nat where
  "capacity = 2 ^ 30 - 1"

definition is_simulated :: "u32 \<Rightarrow> bool" where
  "is_simulated fd \<longleftrightarrow> fd AND simulated \<noteq> 0"

text \<open>\<^verbatim>\<open>table_[fd]\<close> inserts a null pointer when the key is absent.\<close>

definition fd_get :: "u32 \<Rightarrow> 'o fd_table \<Rightarrow> 'o option \<times> 'o fd_table" where
  "fd_get fd t =
     (case fmlookup (table t) fd of
        Some slot \<Rightarrow> (slot, t)
      | None \<Rightarrow> (None, t\<lparr>table := fmupd fd None (table t)\<rparr>))"

definition fd_close :: "bool \<Rightarrow> u32 \<Rightarrow> 'o fd_table \<Rightarrow> trap + int \<times> 'o fd_table" where
  "fd_close ndebug fd t =
     (case fmlookup (table t) fd of
        None \<Rightarrow> Inr (- EBADFD, t)
      | Some None \<Rightarrow> Inr (- EBADFD, t)
      | Some (Some _) \<Rightarrow>
          if \<not> asserts ndebug (is_simulated fd) then Inl Assert_failed
          else if \<not> asserts ndebug (0 \<le> sint fd) then Inl Assert_failed
          else Inr (0, t\<lparr>table := fmdrop fd (table t), unused := unused t @ [fd]\<rparr>))"

text \<open>The number of entries, null ones included.\<close>

definition table_size :: "'o fd_table \<Rightarrow> nat" where
  "table_size t = fcard (fmdom (table t))"

text \<open>The choice of the descriptor in \<^verbatim>\<open>insert\<close>: a released one, else the table's size.\<close>

definition fd_alloc :: "bool \<Rightarrow> 'o fd_table \<Rightarrow> trap + (u32 \<times> 'o fd_table) option" where
  "fd_alloc ndebug t =
     (if unused t \<noteq> [] then
        Inr (Some (last (unused t), t\<lparr>unused := butlast (unused t)\<rparr>))
      else if capacity \<le> table_size t then Inr None
      else let fd = of_nat (table_size t)
           in if \<not> asserts ndebug (\<not> is_simulated fd) then Inl Assert_failed
              else Inr (Some (fd OR simulated, t)))"

definition fd_insert :: "bool \<Rightarrow> 'o \<Rightarrow> 'o fd_table \<Rightarrow> trap + u32 \<times> 'o fd_table" where
  "fd_insert ndebug fildes t =
     (case fd_alloc ndebug t of
        Inl e \<Rightarrow> Inl e
      | Inr None \<Rightarrow> Inr (- 1, t)
      | Inr (Some (fd, t')) \<Rightarrow>
          if \<not> asserts ndebug (0 \<le> sint fd) then Inl Assert_failed
          else if \<not> asserts ndebug (is_simulated fd) then Inl Assert_failed
          else
            (let slot = fmlookup (table t') fd
             in if \<not> asserts ndebug (slot = None \<or> slot = Some None) then Inl Assert_failed
                else Inr (fd, t'\<lparr>table := fmupd fd (Some fildes) (table t')\<rparr>)))"

lemmas fd_defs = fd_get_def fd_close_def fd_alloc_def fd_insert_def fd_table_init_def

text \<open>For the evaluation of closed histories by the simplifier.\<close>

lemmas fd_eval = fd_defs table_size_def capacity_def is_simulated_def simulated_def
  fcard_fempty fcard_finsert_if Let_def

section \<open>Descriptors as numbers\<close>

definition fd_of :: "nat \<Rightarrow> u32" where
  "fd_of i = of_nat i OR simulated"

lemma bit_simulated: "bit simulated k \<longleftrightarrow> k = 30"
proof -
  have eq: "simulated = 2 ^ 30" by (simp add: simulated_def)
  show ?thesis unfolding eq by (simp only: bit_exp_iff possible_bit_word) auto
qed

lemma is_simulated_bit: "is_simulated fd \<longleftrightarrow> bit fd 30"
proof
  assume "bit fd 30"
  then have "bit (fd AND simulated) 30" by (simp add: bit_simps bit_simulated)
  then show "is_simulated fd" unfolding is_simulated_def by auto
next
  assume "is_simulated fd"
  then obtain k where "bit (fd AND simulated) k"
    unfolding is_simulated_def using bit_word_eqI [of "fd AND simulated" 0] by auto
  then show "bit fd 30" by (auto simp: bit_simps bit_simulated)
qed

lemma bit_small: "i < 2 ^ 30 \<Longrightarrow> bit (i :: nat) k \<Longrightarrow> k < 30"
proof (rule ccontr)
  assume i: "i < 2 ^ 30" and b: "bit i k" and "\<not> k < 30"
  then have "i < 2 ^ k" by (meson less_le_trans not_less one_le_numeral power_increasing)
  with b show False by (simp add: bit_nat_def)
qed

lemma fd_of_plus: "i < 2 ^ 30 \<Longrightarrow> fd_of i = of_nat i + simulated"
  unfolding fd_of_def
  by (rule disjunctive_add_eq_or [symmetric], rule bit_word_eqI)
    (use bit_small [of i 30] in \<open>auto simp: bit_simps bit_simulated\<close>)

lemma is_simulated_fd_of [simp]: "is_simulated (fd_of i)"
  by (simp add: is_simulated_bit fd_of_def bit_simps bit_simulated)

lemma not_simulated_small: "i < 2 ^ 30 \<Longrightarrow> \<not> is_simulated (of_nat i)"
  using bit_small [of i 30] by (auto simp: is_simulated_bit bit_simps)


lemma unat_fd_of: "i < 2 ^ 30 \<Longrightarrow> unat (fd_of i) = i + 2 ^ 30"
  by (simp add: fd_of_plus unat_word_ariths simulated_def unat_of_nat take_bit_nat_eq_self)

lemma fd_of_inj: "i < 2 ^ 30 \<Longrightarrow> j < 2 ^ 30 \<Longrightarrow> fd_of i = fd_of j \<longleftrightarrow> i = j"
  by (metis add_right_cancel unat_fd_of)

lemma sint_fd_of: "i < 2 ^ 30 \<Longrightarrow> sint (fd_of i) = int i + 2 ^ 30"
proof -
  assume i: "i < 2 ^ 30"
  then have u: "uint (fd_of i) = int i + 2 ^ 30"
    using arg_cong [OF unat_fd_of [OF i], of int] by simp
  show ?thesis
    unfolding sint_uint u by (rule signed_take_bit_int_eq_self) (use i in simp_all)
qed

section \<open>The table invariant\<close>

text \<open>
  The live map is what the table promises its client: which descriptor refers to which
  object. A descriptor has been issued when it is in the table or among the released ones.
\<close>

definition live :: "'o fd_table \<Rightarrow> u32 \<Rightarrow> 'o option" where
  "live t fd = (case fmlookup (table t) fd of Some slot \<Rightarrow> slot | None \<Rightarrow> None)"

definition issued :: "'o fd_table \<Rightarrow> u32 \<Rightarrow> bool" where
  "issued t fd \<longleftrightarrow> fd |\<in>| fmdom (table t) \<or> fd \<in> set (unused t)"

text \<open>
  The invariant: the issued descriptors are the first \<open>n\<close> simulated ones, released
  descriptors are distinct and not live, and every other issued descriptor is live.
\<close>

definition fd_inv :: "nat \<Rightarrow> 'o fd_table \<Rightarrow> bool" where
  "fd_inv n t \<longleftrightarrow>
     n \<le> capacity \<and> distinct (unused t) \<and>
     (\<forall>fd. issued t fd \<longleftrightarrow> fd \<in> fd_of ` {..<n}) \<and>
     (\<forall>fd \<in> set (unused t). live t fd = None) \<and>
     (\<forall>fd. issued t fd \<longrightarrow> fd \<notin> set (unused t) \<longrightarrow> live t fd \<noteq> None)"

definition fd_ok :: "'o fd_table \<Rightarrow> bool" where
  "fd_ok t \<longleftrightarrow> (\<exists>n. fd_inv n t)"

lemma fd_ok_init: "fd_ok fd_table_init"
  unfolding fd_ok_def
  by (rule exI [of _ 0]) (simp add: fd_inv_def fd_table_init_def issued_def live_def)

lemma live_issued: "live t fd \<noteq> None \<Longrightarrow> issued t fd"
  by (auto simp: live_def issued_def split: option.splits intro: fmdomI)

lemma fst_fd_get [simp]: "fst (fd_get fd t) = live t fd"
  by (simp add: fd_get_def live_def split: option.splits)

lemma live_fd_get [simp]: "live (snd (fd_get fd t)) = live t"
  by (auto simp: fd_get_def live_def fun_eq_iff split: option.splits)

lemma unused_fd_get [simp]: "unused (snd (fd_get fd t)) = unused t"
  by (simp add: fd_get_def split: option.splits)

lemma issued_fd_get [simp]: "issued (snd (fd_get fd t)) k \<longleftrightarrow> k = fd \<or> issued t k"
  by (auto simp: fd_get_def issued_def fmdomI split: option.splits)

lemma fd_get_inv: "fd_inv n t \<Longrightarrow> issued t fd \<Longrightarrow> fd_inv n (snd (fd_get fd t))"
  by (auto simp: fd_inv_def)

lemma fd_inv_simulated: "fd_inv n t \<Longrightarrow> issued t fd \<Longrightarrow> is_simulated fd \<and> 0 \<le> sint fd"
  by (auto simp: fd_inv_def capacity_def sint_fd_of)

section \<open>Insertion and closing keep the invariant\<close>

lemma fd_inv_released:
  assumes "fd_inv n t" and "unused t \<noteq> []"
  shows "fd_alloc ndebug t = Inr (Some (last (unused t), t\<lparr>unused := butlast (unused t)\<rparr>))"
    and "issued t (last (unused t))" and "live t (last (unused t)) = None"
  using assms by (auto simp: fd_alloc_def issued_def fd_inv_def)

lemma fd_inv_size:
  assumes "fd_inv n t" and "unused t = []"
  shows "table_size t = n"
proof -
  have "fset (fmdom (table t)) = fd_of ` {..<n}"
    using assms by (auto simp: fd_inv_def issued_def)
  moreover have "inj_on fd_of {..<n}"
    using assms by (auto intro!: inj_onI simp: fd_of_inj fd_inv_def capacity_def)
  ultimately show ?thesis
    by (simp add: table_size_def fcard.rep_eq card_image)
qed

lemma fd_insert_reuse:
  fixes t :: "'o fd_table" and f :: 'o
  assumes inv: "fd_inv n t" and "unused t \<noteq> []"
  defines "fd \<equiv> last (unused t)"
  defines "t' \<equiv> t\<lparr>table := fmupd fd (Some f) (table t), unused := butlast (unused t)\<rparr>"
  shows "fd_insert ndebug f t = Inr (fd, t')" and "fd_inv n t'"
    and "live t' = (live t)(fd \<mapsto> f)" and "live t fd = None"
proof -
  note rel = fd_inv_released [OF inv \<open>unused t \<noteq> []\<close>, folded fd_def]
  have snoc: "unused t = butlast (unused t) @ [fd]"
    using \<open>unused t \<noteq> []\<close> by (simp add: fd_def)
  have fd: "is_simulated fd" "0 \<le> sint fd"
    using fd_inv_simulated [OF inv rel(2)] by simp_all
  from rel(3) have slot: "fmlookup (table t) fd = None \<or> fmlookup (table t) fd = Some None"
    by (auto simp: live_def split: option.splits)
  show "fd_insert ndebug f t = Inr (fd, t')"
    using fd slot by (simp add: fd_insert_def rel(1) t'_def Let_def)
  show live': "live t' = (live t)(fd \<mapsto> f)"
    by (auto simp: t'_def live_def fun_eq_iff)
  show "live t fd = None" by (rule rel(3))
  have dist: "distinct (butlast (unused t))" "fd \<notin> set (butlast (unused t))"
    using inv snoc unfolding fd_inv_def by (metis distinct_append not_distinct_conv_prefix
        distinct_butlast, metis distinct_append disjoint_iff list.set_intros(1))
  have set: "set (unused t) = insert fd (set (butlast (unused t)))"
    by (subst snoc) simp
  have iss: "issued t' k \<longleftrightarrow> issued t k" for k
    by (auto simp: issued_def t'_def set)
  show "fd_inv n t'"
    unfolding fd_inv_def iss live'
    using inv dist by (auto simp: fd_inv_def t'_def set)
qed

lemma fd_insert_fresh:
  assumes inv: "fd_inv n t" and "unused t = []"
  shows "n < capacity \<Longrightarrow> fd_insert ndebug f t =
           Inr (fd_of n, t\<lparr>table := fmupd (fd_of n) (Some f) (table t)\<rparr>)"
    and "n < capacity \<Longrightarrow> fd_inv (Suc n) (t\<lparr>table := fmupd (fd_of n) (Some f) (table t)\<rparr>)"
    and "n < capacity \<Longrightarrow> \<not> issued t (fd_of n)"
    and "n = capacity \<Longrightarrow> fd_insert ndebug f t = Inr (- 1, t)"
proof -
  note size = fd_inv_size [OF inv \<open>unused t = []\<close>]
  show full: "fd_insert ndebug f t = Inr (- 1, t)" if "n = capacity"
    using that size \<open>unused t = []\<close> by (simp add: fd_insert_def fd_alloc_def)
  assume n: "n < capacity"
  then have small: "n < 2 ^ 30" by (simp add: capacity_def)
  show fresh: "\<not> issued t (fd_of n)"
    using inv n by (auto simp: fd_inv_def capacity_def fd_of_inj)
  then have none: "fmlookup (table t) (fd_of n) = None"
    by (auto simp: issued_def dest: fmdom_notD)
  have alloc: "fd_alloc ndebug t = Inr (Some (fd_of n, t))"
    using n size not_simulated_small [OF small] \<open>unused t = []\<close>
    by (simp add: fd_alloc_def fd_of_def)
  show "fd_insert ndebug f t = Inr (fd_of n, t\<lparr>table := fmupd (fd_of n) (Some f) (table t)\<rparr>)"
    by (simp add: fd_insert_def alloc sint_fd_of [OF small] none)
  show "fd_inv (Suc n) (t\<lparr>table := fmupd (fd_of n) (Some f) (table t)\<rparr>)"
    using inv n \<open>unused t = []\<close> by (auto simp: fd_inv_def issued_def live_def lessThan_Suc)
qed

lemma fd_close_live:
  assumes inv: "fd_inv n t" and "live t fd = Some f"
  defines "t' \<equiv> t\<lparr>table := fmdrop fd (table t), unused := unused t @ [fd]\<rparr>"
  shows "fd_close ndebug fd t = Inr (0, t')" and "fd_inv n t'"
    and "live t' = (live t)(fd := None)"
proof -
  have iss: "issued t fd" using assms(2) by (simp add: live_issued)
  have notin: "fd \<notin> set (unused t)" using inv assms(2) by (auto simp: fd_inv_def)
  have slot: "fmlookup (table t) fd = Some (Some f)"
    using assms(2) by (simp add: live_def split: option.splits)
  show "fd_close ndebug fd t = Inr (0, t')"
    using fd_inv_simulated [OF inv iss] by (simp add: fd_close_def slot t'_def)
  show live': "live t' = (live t)(fd := None)"
    by (auto simp: t'_def live_def fun_eq_iff)
  have iss': "issued t' k \<longleftrightarrow> issued t k" for k
    using iss by (auto simp: issued_def t'_def)
  show "fd_inv n t'"
    unfolding fd_inv_def iss' live'
    using inv notin by (auto simp: fd_inv_def t'_def)
qed

lemma fd_close_not_live: "live t fd = None \<Longrightarrow> fd_close ndebug fd t = Inr (- EBADFD, t)"
  by (simp add: fd_close_def live_def split: option.splits)

section \<open>The contract of a descriptor table\<close>

text \<open>
  What the system calls rely on: a lookup returns the live object and keeps the live map; an
  insertion that succeeds binds a descriptor that was not live; closing unbinds exactly one.
\<close>

locale descriptor_table =
  fixes ok :: "'t \<Rightarrow> bool"
    and bound :: "'t \<Rightarrow> u32 \<Rightarrow> 'o option"
    and known :: "'t \<Rightarrow> u32 \<Rightarrow> bool"
    and get :: "u32 \<Rightarrow> 't \<Rightarrow> 'o option \<times> 't"
    and add :: "'o \<Rightarrow> 't \<Rightarrow> trap + u32 \<times> 't"
    and close :: "u32 \<Rightarrow> 't \<Rightarrow> trap + int \<times> 't"
  assumes get_bound: "fst (get fd t) = bound t fd"
    and bound_get: "bound (snd (get fd t)) = bound t"
    and ok_get: "ok t \<Longrightarrow> known t fd \<Longrightarrow> ok (snd (get fd t))"
    and add_ok: "ok t \<Longrightarrow> \<exists>fd t'. add f t = Inr (fd, t') \<and> ok t' \<and>
        (if sint fd < 0 then t' = t
         else is_simulated fd \<and> bound t fd = None \<and> bound t' = (bound t)(fd \<mapsto> f))"
    and close_ok: "ok t \<Longrightarrow> \<exists>t'. ok t' \<and> bound t' = (bound t)(fd := None) \<and>
        close fd t = Inr (if bound t fd = None then - EBADFD else 0, t')"
begin

lemma get_after_add:
  assumes "ok t" and "add f t = Inr (fd, t')" and "0 \<le> sint fd"
  shows "fst (get fd t') = Some f \<and> (\<forall>k. k \<noteq> fd \<longrightarrow> fst (get k t') = fst (get k t))"
  using add_ok [OF assms(1), of f] assms(2,3) by (auto simp: get_bound split: if_splits)

lemma get_after_close:
  assumes "ok t" and "close fd t = Inr (r, t')"
  shows "fst (get fd t') = None \<and> (\<forall>k. k \<noteq> fd \<longrightarrow> fst (get k t') = fst (get k t)) \<and>
    (r = 0 \<longleftrightarrow> fst (get fd t) \<noteq> None)"
  using close_ok [OF assms(1), of fd] assms(2) by (auto simp: get_bound)

lemma add_does_not_alias:
  assumes "ok t" and "add f t = Inr (fd, t')" and "0 \<le> sint fd" and "bound t k = Some g"
  shows "k \<noteq> fd \<and> bound t' k = Some g"
  using add_ok [OF assms(1), of f] assms(2-4) by (auto split: if_splits)

end

lemma fd_insert_ok:
  assumes "fd_ok t"
  shows "\<exists>fd t'. fd_insert ndebug f t = Inr (fd, t') \<and> fd_ok t' \<and>
     (if sint fd < 0 then t' = t
      else is_simulated fd \<and> live t fd = None \<and> live t' = (live t)(fd \<mapsto> f))"
proof -
  from assms obtain n where n: "fd_inv n t" by (auto simp: fd_ok_def)
  show ?thesis
  proof (cases "unused t = []")
    case False
    note reuse = fd_insert_reuse [OF n False]
    have "is_simulated (last (unused t)) \<and> 0 \<le> sint (last (unused t))"
      using fd_inv_released(2) [OF n False] by (rule fd_inv_simulated [OF n])
    with reuse show ?thesis unfolding fd_ok_def by force
  next
    case True
    have "n \<le> capacity" using n by (simp add: fd_inv_def)
    then consider "n = capacity" | "n < capacity" by linarith
    then show ?thesis
    proof cases
      case 1
      with fd_insert_fresh(4) [OF n True] assms show ?thesis by force
    next
      case 2
      let ?t = "t\<lparr>table := fmupd (fd_of n) (Some f) (table t)\<rparr>"
      have "live ?t = (live t)(fd_of n \<mapsto> f)" by (auto simp: live_def fun_eq_iff)
      moreover have "live t (fd_of n) = None"
        using fd_insert_fresh(3) [OF n True 2] live_issued by blast
      moreover have "\<not> sint (fd_of n) < 0"
        using 2 by (simp add: sint_fd_of capacity_def)
      ultimately show ?thesis
        using fd_insert_fresh(1,2) [OF n True 2, where f = f] unfolding fd_ok_def by fastforce
    qed
  qed
qed

interpretation fdt: descriptor_table fd_ok live issued fd_get "fd_insert ndebug" "fd_close ndebug"
  for ndebug
proof (unfold_locales, goal_cases)
  case (3 t fd)
  then show ?case unfolding fd_ok_def by (blast intro: fd_get_inv)
next
  case (4 t f)
  then show ?case by (rule fd_insert_ok)
next
  case (5 t fd)
  show ?case
  proof (cases "live t fd")
    case None
    then have "(live t)(fd := None) = live t" by auto
    with None 5 show ?thesis by (auto simp: fd_close_not_live)
  next
    case (Some f)
    from 5 obtain n where "fd_inv n t" by (auto simp: fd_ok_def)
    from fd_close_live [OF this Some] Some show ?thesis
      unfolding fd_ok_def by auto
  qed
qed simp_all

section \<open>Histories\<close>

text \<open>
  A history of table operations, as the system calls of one replica issue them. Each step
  gives the client-visible result.
\<close>

datatype 'o fd_event = Get u32 | Close u32 | Insert 'o

datatype 'o fd_res = Got "'o option" | Closed int | Inserted u32

fun fd_op :: "bool \<Rightarrow> 'o fd_event \<Rightarrow> 'o fd_table \<Rightarrow> trap + 'o fd_res \<times> 'o fd_table" where
  "fd_op ndebug (Get fd) t = (let (r, t') = fd_get fd t in Inr (Got r, t'))"
| "fd_op ndebug (Close fd) t =
     (case fd_close ndebug fd t of Inl e \<Rightarrow> Inl e | Inr (r, t') \<Rightarrow> Inr (Closed r, t'))"
| "fd_op ndebug (Insert f) t =
     (case fd_insert ndebug f t of Inl e \<Rightarrow> Inl e | Inr (r, t') \<Rightarrow> Inr (Inserted r, t'))"

text \<open>The abstract table: a partial map, with the freshness of insertion as a relation.\<close>

inductive fd_spec :: "(u32 \<rightharpoonup> 'o) \<Rightarrow> 'o fd_event \<Rightarrow> 'o fd_res \<Rightarrow> (u32 \<rightharpoonup> 'o) \<Rightarrow> bool" where
  spec_get: "fd_spec m (Get fd) (Got (m fd)) m"
| spec_close: "m fd = Some f \<Longrightarrow> fd_spec m (Close fd) (Closed 0) (m(fd := None))"
| spec_close_bad: "m fd = None \<Longrightarrow> fd_spec m (Close fd) (Closed (- EBADFD)) m"
| spec_insert: "m fd = None \<Longrightarrow> is_simulated fd \<Longrightarrow> 0 \<le> sint fd \<Longrightarrow>
    fd_spec m (Insert f) (Inserted fd) (m(fd \<mapsto> f))"
| spec_full: "sint fd < 0 \<Longrightarrow> fd_spec m (Insert f) (Inserted fd) m"

fun known_fd :: "'o fd_table \<Rightarrow> 'o fd_event \<Rightarrow> bool" where
  "known_fd t (Get fd) = issued t fd"
| "known_fd t _ = True"

lemma fd_op_refines:
  assumes "fd_ok t" and "known_fd t a"
  shows "\<exists>r t'. fd_op ndebug a t = Inr (r, t') \<and> fd_ok t' \<and> fd_spec (live t) a r (live t')"
proof (cases a)
  case (Get fd)
  obtain r t' where g: "fd_get fd t = (r, t')" by fastforce
  have "r = live t fd" "live t' = live t"
    using g fst_fd_get [of fd t] live_fd_get [of fd t] by simp_all
  moreover have "fd_ok t'"
    using fdt.ok_get [OF assms(1), of fd] assms(2) Get g by simp
  ultimately show ?thesis using g Get by (simp add: spec_get)
next
  case (Close fd)
  from fdt.close_ok [OF assms(1), of fd] obtain t' where t': "fd_ok t'"
    "live t' = (live t)(fd := None)"
    "fd_close ndebug fd t = Inr (if live t fd = None then - EBADFD else 0, t')" by blast
  show ?thesis
  proof (cases "live t fd")
    case None
    then have "(live t)(fd := None) = live t" by auto
    with t' None Close spec_close_bad [of "live t" fd] show ?thesis by simp
  next
    case (Some f)
    with t' Close spec_close [of "live t" fd f] show ?thesis by simp
  qed
next
  case (Insert f)
  from fd_insert_ok [OF assms(1)] obtain fd t' where t': "fd_insert ndebug f t = Inr (fd, t')"
    "fd_ok t'" "if sint fd < 0 then t' = t
      else is_simulated fd \<and> live t fd = None \<and> live t' = (live t)(fd \<mapsto> f)" by blast
  then have "fd_spec (live t) a (Inserted fd) (live t')"
    unfolding Insert by (auto split: if_splits intro: fd_spec.intros)
  with t' Insert show ?thesis by auto
qed

fun fd_run :: "bool \<Rightarrow> 'o fd_event list \<Rightarrow> 'o fd_table \<Rightarrow> trap + 'o fd_res list \<times> 'o fd_table" where
  "fd_run ndebug [] t = Inr ([], t)"
| "fd_run ndebug (a # as) t =
     (case fd_op ndebug a t of
        Inl e \<Rightarrow> Inl e
      | Inr (r, t') \<Rightarrow>
          (case fd_run ndebug as t' of
             Inl e \<Rightarrow> Inl e | Inr (rs, t'') \<Rightarrow> Inr (r # rs, t'')))"

text \<open>
  A history is well behaved when every lookup is of a descriptor the table has handed out.
\<close>

fun behaved :: "bool \<Rightarrow> 'o fd_event list \<Rightarrow> 'o fd_table \<Rightarrow> bool" where
  "behaved ndebug [] t = True"
| "behaved ndebug (a # as) t =
     (known_fd t a \<and>
      (case fd_op ndebug a t of Inl e \<Rightarrow> True | Inr (r, t') \<Rightarrow> behaved ndebug as t'))"

fun fd_spec_run :: "(u32 \<rightharpoonup> 'o) \<Rightarrow> 'o fd_event list \<Rightarrow> 'o fd_res list \<Rightarrow> (u32 \<rightharpoonup> 'o) \<Rightarrow> bool" where
  "fd_spec_run m [] rs m' = (rs = [] \<and> m' = m)"
| "fd_spec_run m (a # as) rs m' =
     (\<exists>r rs' m1. rs = r # rs' \<and> fd_spec m a r m1 \<and> fd_spec_run m1 as rs' m')"

lemma fd_run_refines:
  "fd_ok t \<Longrightarrow> behaved ndebug as t \<Longrightarrow>
   \<exists>rs t'. fd_run ndebug as t = Inr (rs, t') \<and> fd_ok t' \<and> fd_spec_run (live t) as rs (live t')"
proof (induction as arbitrary: t)
  case Nil
  then show ?case by simp
next
  case (Cons a as)
  from Cons.prems obtain r t1 where t1: "fd_op ndebug a t = Inr (r, t1)" "fd_ok t1"
    "fd_spec (live t) a r (live t1)"
    using fd_op_refines [of t a ndebug] by auto
  with Cons obtain rs t' where "fd_run ndebug as t1 = Inr (rs, t')" "fd_ok t'"
    "fd_spec_run (live t1) as rs (live t')" by fastforce
  with t1 show ?case by auto
qed

section \<open>Properties\<close>

text \<open>C1: from the empty table, any history of lookups, closes and insertions whose lookups
  are of issued descriptors runs without a failed assertion, in either build, and behaves as
  a partial map in which insertion binds a simulated descriptor that was not bound.\<close>

theorem fd_table_refines_map:
  assumes "behaved ndebug as fd_table_init"
  shows "\<exists>rs t'. fd_run ndebug as fd_table_init = Inr (rs, t') \<and>
           fd_spec_run (\<lambda>_. None) as rs (live t')"
proof -
  have "live (fd_table_init :: 'a fd_table) = (\<lambda>_. None)"
    by (simp add: fun_eq_iff live_def fd_table_init_def)
  with fd_run_refines [OF fd_ok_init assms] show ?thesis by auto
qed

theorem fd_table_refines_map_witness:
  "\<exists>rs t'. fd_run False [Insert ''a'', Close 0x40000000, Get 0x40000000, Insert ''b'']
       fd_table_init = Inr (rs, t') \<and>
     fd_spec_run (\<lambda>_. None) [Insert ''a'', Close 0x40000000, Get 0x40000000, Insert ''b'']
       rs (live t')"
  by (rule fd_table_refines_map)
    (simp add: fd_eval issued_def)

text \<open>an insertion into a table that satisfies the invariant never disturbs an open
  descriptor: it returns a descriptor that referred to nothing, and from then on a lookup of
  it gives the new object while every other lookup is unchanged; it fails, with a negative
  result, only when nothing has been released and the table holds 2^30 - 1 entries.\<close>

theorem fd_insert_keeps_others:
  assumes "fd_ok t" and "fd_insert ndebug f t = Inr (fd, t')"
  shows "if sint fd < 0 then t' = t \<and> unused t = [] \<and> table_size t = capacity
         else live t fd = None \<and>
              fst (fd_get k t') = (if k = fd then Some f else fst (fd_get k t))"
proof -
  from assms(1) obtain n where n: "fd_inv n t" by (auto simp: fd_ok_def)
  have "unused t = [] \<and> table_size t = capacity" if neg: "sint fd < 0"
  proof (rule ccontr)
    assume no: "\<not> ?thesis"
    have "n \<le> capacity" using n by (simp add: fd_inv_def)
    with no consider "unused t \<noteq> []" | "unused t = []" "n < capacity"
      using fd_inv_size [OF n] by fastforce
    then show False
    proof cases
      case 1
      have "0 \<le> sint (last (unused t))"
        using fd_inv_simulated [OF n fd_inv_released(2) [OF n 1]] by simp
      with fd_insert_reuse(1) [OF n 1, of ndebug f] assms(2) neg show False by simp
    next
      case 2
      then have "0 \<le> sint (fd_of n)" by (simp add: sint_fd_of capacity_def)
      with fd_insert_fresh(1) [OF n 2, of ndebug f] assms(2) neg show False by simp
    qed
  qed
  moreover have "fst (fd_get k t') = (if k = fd then Some f else fst (fd_get k t))"
    if "0 \<le> sint fd"
    using fdt.get_after_add [OF assms that] by auto
  ultimately show ?thesis
    using fd_insert_ok [OF assms(1), of ndebug f] assms(2) by (auto simp: not_less split: if_splits)
qed

theorem fd_insert_keeps_others_witness:
  "let t = (fd_table_init :: string fd_table);
       t' = \<lparr>table = fmupd 0x40000000 (Some ''a'') fmempty, unused = []\<rparr>
   in if sint (0x40000000 :: u32) < 0 then t' = t \<and> unused t = [] \<and> table_size t = capacity
      else live t 0x40000000 = None \<and>
           fst (fd_get 7 t') = (if 7 = (0x40000000 :: u32) then Some ''a'' else fst (fd_get 7 t))"
  unfolding Let_def
  by (rule fd_insert_keeps_others [OF fd_ok_init, of False])
    (simp add: fd_eval)

text \<open>a lookup of a simulated descriptor that was never issued breaks the table, because
  it leaves a null entry that counts for its size: after one such lookup on the empty table,
  two insertions are given the same descriptor; the second fails an assertion, or, with
  \<^verbatim>\<open>NDEBUG\<close>, silently replaces the object of the first.\<close>

theorem fd_get_of_unissued_breaks_insert:
  "fd_run False [Get 0x40000001, Insert f, Insert g] fd_table_init = Inl Assert_failed \<and>
   (\<exists>t. fd_run True [Get 0x40000001, Insert f, Insert g] fd_table_init =
      Inr ([Got None, Inserted 0x40000001, Inserted 0x40000001], t) \<and>
      live t = (\<lambda>_. None)(0x40000001 \<mapsto> g))"
  by (simp add: fd_eval live_def fun_eq_iff)

end
