(* ===== verification/Sock_Addr.thy ===== *)
theory Sock_Addr
  imports Prelude "HOL-Library.List_Lexorder"
begin

text \<open>
  Socket addresses, src/net/socket.hpp: the address families, the IPv4 and the Unix address
  with their comparison operators and hashes, and the variant of the two. A path is a
  \<^verbatim>\<open>std::string\<close>, a byte list compared as unsigned bytes. The hashes of the standard library
  are arguments.
\<close>

datatype address_family = Ipv4 | Unix_family

datatype socket_type = Stream | Datagram

record ipv4_addr =
  port :: u16
  octets :: "u8 \<times> u8 \<times> u8 \<times> u8"

datatype unix_addr = Unix_addr (path: bytes)

datatype socket_addr = Inet ipv4_addr | Local unix_addr

text \<open>The value-initialised variant: its first alternative, all zero.\<close>

definition null_addr :: socket_addr where
  "null_addr = Inet \<lparr>port = 0, octets = (0, 0, 0, 0)\<rparr>"

section \<open>IPv4 addresses\<close>

definition octet_list :: "ipv4_addr \<Rightarrow> bytes" where
  "octet_list a = (case octets a of (w, x, y, z) \<Rightarrow> [w, x, y, z])"

text \<open>\<^verbatim>\<open>memcmp\<close>: the sign of the first difference, as unsigned bytes.\<close>

fun memcmp :: "bytes \<Rightarrow> bytes \<Rightarrow> int" where
  "memcmp (x # xs) (y # ys) = (if x < y then - 1 else if y < x then 1 else memcmp xs ys)"
| "memcmp _ _ = 0"

definition ipv4_less :: "ipv4_addr \<Rightarrow> ipv4_addr \<Rightarrow> bool" where
  "ipv4_less lhs rhs =
     (if memcmp (octet_list lhs) (octet_list rhs) < 0 then True else port lhs < port rhs)"

definition ipv4_greater :: "ipv4_addr \<Rightarrow> ipv4_addr \<Rightarrow> bool" where
  "ipv4_greater lhs rhs = ipv4_less rhs lhs"

definition ipv4_less_eq :: "ipv4_addr \<Rightarrow> ipv4_addr \<Rightarrow> bool" where
  "ipv4_less_eq lhs rhs = (\<not> ipv4_less rhs lhs)"

definition ipv4_greater_eq :: "ipv4_addr \<Rightarrow> ipv4_addr \<Rightarrow> bool" where
  "ipv4_greater_eq lhs rhs = (\<not> ipv4_less lhs rhs)"

definition ipv4_eq :: "ipv4_addr \<Rightarrow> ipv4_addr \<Rightarrow> bool" where
  "ipv4_eq lhs rhs = (port lhs = port rhs \<and> memcmp (octet_list lhs) (octet_list rhs) = 0)"

definition hash_ipv4 :: "(u8 \<Rightarrow> u64) \<Rightarrow> (u16 \<Rightarrow> u64) \<Rightarrow> ipv4_addr \<Rightarrow> u64" where
  "hash_ipv4 hash_char hash_u16 addr =
     (case octets addr of (a, b, c, d) \<Rightarrow>
        hash_char a XOR push_bit 1 (hash_char b) XOR push_bit 2 (hash_char c) XOR
        push_bit 3 (hash_char d) XOR push_bit 4 (hash_u16 (port addr)))"

section \<open>Unix addresses\<close>

text \<open>The comparison operators of \<^verbatim>\<open>unix_addr\<close> are those of the path.\<close>

definition unix_less :: "unix_addr \<Rightarrow> unix_addr \<Rightarrow> bool" where
  "unix_less lhs rhs = (path lhs < path rhs)"

definition unix_greater :: "unix_addr \<Rightarrow> unix_addr \<Rightarrow> bool" where
  "unix_greater lhs rhs = unix_less rhs lhs"

definition unix_less_eq :: "unix_addr \<Rightarrow> unix_addr \<Rightarrow> bool" where
  "unix_less_eq lhs rhs = (\<not> unix_less rhs lhs)"

definition unix_greater_eq :: "unix_addr \<Rightarrow> unix_addr \<Rightarrow> bool" where
  "unix_greater_eq lhs rhs = (\<not> unix_less lhs rhs)"

text \<open>They make the addresses a linear order.\<close>

instantiation unix_addr :: linorder
begin

definition less_unix_addr :: "unix_addr \<Rightarrow> unix_addr \<Rightarrow> bool" where
  "less_unix_addr = unix_less"

definition less_eq_unix_addr :: "unix_addr \<Rightarrow> unix_addr \<Rightarrow> bool" where
  "less_eq_unix_addr = unix_less_eq"

instance
  by standard (auto simp: less_unix_addr_def less_eq_unix_addr_def unix_less_def unix_less_eq_def not_less
      unix_addr.expand)

end

definition unix_eq :: "unix_addr \<Rightarrow> unix_addr \<Rightarrow> bool" where
  "unix_eq lhs rhs = (path lhs = path rhs)"

definition hash_unix :: "(bytes \<Rightarrow> u64) \<Rightarrow> unix_addr \<Rightarrow> u64" where
  "hash_unix hash_string addr = hash_string (path addr)"

section \<open>Equality and hashing agree\<close>

lemma memcmp_eq_0: "length xs = length ys \<Longrightarrow> memcmp xs ys = 0 \<longleftrightarrow> xs = ys"
  by (induction xs ys rule: memcmp.induct) auto

lemma memcmp_swap: "memcmp ys xs = - memcmp xs ys"
  by (induction xs ys rule: memcmp.induct) auto

lemma length_octet_list [simp]: "length (octet_list a) = 4"
  by (simp add: octet_list_def split: prod.splits)

lemma octet_list_inject: "octet_list a = octet_list b \<longleftrightarrow> octets a = octets b"
  by (auto simp: octet_list_def split: prod.splits)

lemma ipv4_eq_iff: "ipv4_eq a b \<longleftrightarrow> a = b"
  by (cases a; cases b) (auto simp: ipv4_eq_def memcmp_eq_0 octet_list_inject)

section \<open>Properties\<close>

text \<open>the equality operators of both address types are equality of addresses, so equal
  addresses have equal hashes, whatever hash functions the standard library supplies.\<close>

theorem address_equality_and_hash:
  "(ipv4_eq a b \<longleftrightarrow> a = b) \<and> (unix_eq u v \<longleftrightarrow> u = v) \<and>
   {(a, b). ipv4_eq a b} \<subseteq> {(a, b). hash_ipv4 hc hs a = hash_ipv4 hc hs b} \<and>
   {(u, v). unix_eq u v} \<subseteq> {(u, v). hash_unix ht u = hash_unix ht v}"
  by (auto simp: ipv4_eq_iff unix_eq_def hash_unix_def unix_addr.expand)

text \<open>the order on IPv4 addresses is not asymmetric, hence no order at all: of two
  addresses both are less than the other exactly when one has the smaller octets and the
  other the smaller port. (The order on Unix addresses is total, instance of \<^verbatim>\<open>linorder\<close>.)\<close>

theorem ipv4_less_not_asymmetric:
  "(ipv4_less a b \<and> ipv4_less b a \<longleftrightarrow>
      (memcmp (octet_list a) (octet_list b) < 0 \<and> port b < port a) \<or>
      (memcmp (octet_list b) (octet_list a) < 0 \<and> port a < port b)) \<and>
   (\<exists>x y. ipv4_less x y \<and> ipv4_less y x)"
proof
  show "\<exists>x y. ipv4_less x y \<and> ipv4_less y x"
    by (rule exI [of _ "\<lparr>port = 2, octets = (1, 0, 0, 0)\<rparr>"],
        rule exI [of _ "\<lparr>port = 1, octets = (2, 0, 0, 0)\<rparr>"])
      (simp add: ipv4_less_def octet_list_def)
qed (auto simp: ipv4_less_def memcmp_swap [of "octet_list b" "octet_list a"])

end
