(* ===== verification/Network.thy ===== *)
theory Network
  imports Sock_Addr "HOL-Library.Finite_Map"
begin

text \<open>
  The name service of the simulated network, \<^verbatim>\<open>network\<close> of src/net/network.hpp and .cpp: a map
  from addresses to weak pointers. The objects are a type parameter; a weak pointer is an
  option (\<^const>\<open>None\<close> is the empty one), and whether the object still exists when it is locked
  is decided by the owner of the objects, so \<open>alive\<close> is an argument. Each operation holds the
  network's mutex, so it is one step.
\<close>

record 'o network =
  addr_map :: "(socket_addr, 'o option) fmap"

definition network_init :: "'o network" where
  "network_init = \<lparr>addr_map = fmempty\<rparr>"

definition lock :: "('o \<Rightarrow> bool) \<Rightarrow> 'o option \<Rightarrow> 'o option" where
  "lock alive w = (case w of Some x \<Rightarrow> (if alive x then Some x else None) | None \<Rightarrow> None)"

text \<open>\<^verbatim>\<open>map_[addr]\<close>: the slot, and the map in which it exists.\<close>

definition slot_ref :: "socket_addr \<Rightarrow> 'o network \<Rightarrow> 'o option \<times> 'o network" where
  "slot_ref addr net =
     (case fmlookup (addr_map net) addr of
        Some w \<Rightarrow> (w, net)
      | None \<Rightarrow> (None, net\<lparr>addr_map := fmupd addr None (addr_map net)\<rparr>))"

text \<open>The error code is 0 when there is no error.\<close>

definition net_bind ::
  "('o \<Rightarrow> bool) \<Rightarrow> socket_addr \<Rightarrow> 'o \<Rightarrow> 'o network \<Rightarrow> int \<times> 'o network" where
  "net_bind alive addr sock net =
     (let (slot, net1) = slot_ref addr net
      in if lock alive slot \<noteq> None then (EADDRNOTAVAIL, net1)
         else (0, net1\<lparr>addr_map := fmupd addr (Some sock) (addr_map net1)\<rparr>))"

definition net_clear ::
  "('o \<Rightarrow> bool) \<Rightarrow> socket_addr \<Rightarrow> 'o \<Rightarrow> 'o network \<Rightarrow> 'o network" where
  "net_clear alive addr s net =
     (case fmlookup (addr_map net) addr of
        None \<Rightarrow> net
      | Some w \<Rightarrow>
          (case lock alive w of
             Some p \<Rightarrow> if p \<noteq> s then net else net\<lparr>addr_map := fmdrop addr (addr_map net)\<rparr>
           | None \<Rightarrow> net\<lparr>addr_map := fmdrop addr (addr_map net)\<rparr>))"

definition net_get ::
  "('o \<Rightarrow> bool) \<Rightarrow> socket_addr \<Rightarrow> 'o network \<Rightarrow> 'o option \<times> 'o network" where
  "net_get alive addr net =
     (let (slot, net1) = slot_ref addr net in (lock alive slot, net1))"

lemmas net_defs = net_bind_def net_clear_def net_get_def slot_ref_def

section \<open>The bindings a client sees\<close>

definition binding :: "('o \<Rightarrow> bool) \<Rightarrow> 'o network \<Rightarrow> socket_addr \<Rightarrow> 'o option" where
  "binding alive net addr =
     (case fmlookup (addr_map net) addr of Some w \<Rightarrow> lock alive w | None \<Rightarrow> None)"

lemma lock_simps [simp]:
  "lock alive None = None" "lock alive (Some x) = (if alive x then Some x else None)"
  by (simp_all add: lock_def)

lemma lock_Some_iff: "lock alive w = Some x \<longleftrightarrow> w = Some x \<and> alive x"
  by (cases w) auto

lemma binding_init [simp]: "binding alive network_init = (\<lambda>_. None)"
  by (simp add: binding_def network_init_def fun_eq_iff)

lemma binding_alive: "binding alive net addr = Some x \<Longrightarrow> alive x"
  by (auto simp: binding_def lock_Some_iff split: option.splits)

lemma binding_of_slot:
  "lock alive (fst (slot_ref addr net)) = binding alive net addr"
  "binding alive (snd (slot_ref addr net)) = binding alive net"
  by (auto simp: slot_ref_def binding_def fun_eq_iff split: option.splits)

text \<open>
  When objects cease to exist, exactly the bindings to them vanish.
\<close>

lemma binding_restrict:
  "binding (\<lambda>x. alive x \<and> Q x) net addr =
     (case binding alive net addr of Some x \<Rightarrow> if Q x then Some x else None | None \<Rightarrow> None)"
proof (cases "fmlookup (addr_map net) addr")
  case (Some w)
  then show ?thesis by (cases w) (auto simp: binding_def)
qed (simp add: binding_def)

section \<open>The contract of a name service\<close>

locale name_service =
  fixes lookup :: "('o \<Rightarrow> bool) \<Rightarrow> 's \<Rightarrow> 'a \<Rightarrow> 'o option"
    and bind :: "('o \<Rightarrow> bool) \<Rightarrow> 'a \<Rightarrow> 'o \<Rightarrow> 's \<Rightarrow> int \<times> 's"
    and clear :: "('o \<Rightarrow> bool) \<Rightarrow> 'a \<Rightarrow> 'o \<Rightarrow> 's \<Rightarrow> 's"
    and get :: "('o \<Rightarrow> bool) \<Rightarrow> 'a \<Rightarrow> 's \<Rightarrow> 'o option \<times> 's"
  assumes lookup_alive: "lookup alive s a = Some x \<Longrightarrow> alive x"
    and lookup_restrict: "lookup (\<lambda>x. alive x \<and> Q x) s a =
      (case lookup alive s a of Some x \<Rightarrow> if Q x then Some x else None | None \<Rightarrow> None)"
    and get_lookup: "get alive a s = (lookup alive s a, snd (get alive a s))"
    and lookup_get: "lookup alive (snd (get alive a s)) = lookup alive s"
    and bind_taken: "lookup alive s a \<noteq> None \<Longrightarrow>
      fst (bind alive a x s) = EADDRNOTAVAIL \<and> lookup alive (snd (bind alive a x s)) = lookup alive s"
    and bind_free: "lookup alive s a = None \<Longrightarrow> alive x \<Longrightarrow>
      fst (bind alive a x s) = 0 \<and> lookup alive (snd (bind alive a x s)) = (lookup alive s)(a \<mapsto> x)"
    and lookup_clear: "lookup alive (clear alive a x s) =
      (if lookup alive s a = Some x then (lookup alive s)(a := None) else lookup alive s)"
begin

lemma bind_succeeds_iff:
  "alive x \<Longrightarrow> fst (bind alive a x s) = 0 \<longleftrightarrow> lookup alive s a = None"
  using bind_taken [of alive s a x] bind_free [of alive s a x] by fastforce

lemma get_after_bind:
  assumes "alive x" and "bind alive a x s = (0, s')"
  shows "fst (get alive a s') = Some x \<and>
    (\<forall>b. b \<noteq> a \<longrightarrow> fst (get alive b s') = fst (get alive b s))"
proof -
  have free: "lookup alive s a = None"
    using assms bind_succeeds_iff [of alive x a s] by simp
  have got: "fst (get alive b s) = lookup alive s b" for b s
    by (metis fst_conv get_lookup)
  from bind_free [OF free assms(1)] assms(2) show ?thesis
    by (simp add: got)
qed

lemma second_bind_fails:
  assumes "alive x" and "bind alive a x s = (0, s')"
  shows "fst (bind alive a y s') = EADDRNOTAVAIL"
proof -
  have "fst (get alive a s') = lookup alive s' a"
    using arg_cong [OF get_lookup [of alive a s'], of fst] by simp
  with get_after_bind [OF assms] have "lookup alive s' a \<noteq> None" by simp
  then show ?thesis using bind_taken by blast
qed

lemma rebind_after_death:
  assumes "lookup alive s a = Some x" and "alive y" and "y \<noteq> x"
  shows "fst (bind (\<lambda>z. alive z \<and> z \<noteq> x) a y s) = 0"
proof -
  have "lookup (\<lambda>z. alive z \<and> z \<noteq> x) s a = None"
    by (simp add: lookup_restrict assms(1))
  then show ?thesis using bind_free [of "\<lambda>z. alive z \<and> z \<noteq> x" s a y] assms(2,3) by simp
qed

end

interpretation net: name_service binding net_bind net_clear net_get
proof (unfold_locales, goal_cases)
  case (1 alive s a x)
  then show ?case by (rule binding_alive)
next
  case (2 alive Q s a)
  show ?case by (rule binding_restrict)
next
  case (3 alive a s)
  show ?case by (simp add: net_get_def case_prod_beta binding_of_slot)
next
  case (4 alive a s)
  show ?case by (simp add: net_get_def case_prod_beta binding_of_slot)
next
  case (5 alive s a x)
  then show ?case by (simp add: net_bind_def case_prod_beta binding_of_slot)
next
  case (6 alive s a x)
  then have "lock alive (fst (slot_ref a s)) = None" by (simp add: binding_of_slot)
  moreover have "binding alive (n\<lparr>addr_map := fmupd a (Some x) (addr_map n)\<rparr>) = (binding alive n)(a \<mapsto> x)"
    for n using 6 by (auto simp: binding_def fun_eq_iff)
  ultimately show ?case by (simp add: net_bind_def case_prod_beta binding_of_slot)
next
  case (7 alive a x s)
  show ?case
    by (auto simp: net_clear_def binding_def fun_eq_iff lock_Some_iff split: option.splits)
qed

section \<open>Properties\<close>

text \<open>\<^verbatim>\<open>bind\<close> succeeds exactly when no existing socket is bound to the address; then the
  address and only that address leads to the new socket, and a second \<^verbatim>\<open>bind\<close> of the address
  fails with EADDRNOTAVAIL as long as the socket exists.\<close>

theorem bind_exclusive:
  assumes "alive x"
  shows "if binding alive n a = None then
      \<exists>n'. net_bind alive a x n = (0, n') \<and> binding alive n' = (binding alive n)(a \<mapsto> x) \<and>
           fst (net_bind alive a y n') = EADDRNOTAVAIL
    else \<exists>n'. net_bind alive a x n = (EADDRNOTAVAIL, n') \<and> binding alive n' = binding alive n"
proof (cases "binding alive n a = None")
  case True
  obtain r n' where n': "net_bind alive a x n = (r, n')" by fastforce
  with net.bind_free [OF True assms] net.second_bind_fails [of alive x a n n' y] True assms
  show ?thesis by auto
next
  case False
  then show ?thesis using net.bind_taken [OF False, of x] by (simp add: prod_eq_iff)
qed

theorem bind_exclusive_witness:
  "if binding (\<lambda>_. True) (network_init :: nat network) null_addr = None then
     \<exists>n'. net_bind (\<lambda>_. True) null_addr 1 (network_init :: nat network) = (0, n') \<and>
          binding (\<lambda>_. True) n' = (binding (\<lambda>_. True) (network_init :: nat network))(null_addr \<mapsto> 1) \<and>
          fst (net_bind (\<lambda>_. True) null_addr 2 n') = EADDRNOTAVAIL
   else \<exists>n'. net_bind (\<lambda>_. True) null_addr 1 (network_init :: nat network) = (EADDRNOTAVAIL, n') \<and>
          binding (\<lambda>_. True) n' = binding (\<lambda>_. True) (network_init :: nat network)"
  by (rule bind_exclusive) simp

text \<open>a binding lives exactly as long as its socket: once the bound socket no longer
  exists, lookups of its addresses find nothing, all other bindings are unchanged, and the
  address can be bound again, although nothing removed the map's entry.\<close>

theorem binding_dies_with_socket:
  assumes "binding alive n a = Some x" and "alive y" and "y \<noteq> x"
  shows "fst (net_get (\<lambda>z. alive z \<and> z \<noteq> x) b n) =
      (if fst (net_get alive b n) = Some x then None else fst (net_get alive b n)) \<and>
    fst (net_get (\<lambda>z. alive z \<and> z \<noteq> x) a n) = None \<and>
    fst (net_bind (\<lambda>z. alive z \<and> z \<noteq> x) a y n) = 0"
proof -
  have get: "fst (net_get P b n) = binding P n b" for P b
    using arg_cong [OF net.get_lookup [of P b n], of fst] by simp
  show ?thesis
    using net.rebind_after_death [OF assms] assms(1)
    by (auto simp: get binding_restrict split: option.splits)
qed

theorem binding_dies_with_socket_witness:
  "let n = \<lparr>addr_map = fmupd null_addr (Some (1 :: nat)) fmempty\<rparr>
   in fst (net_get (\<lambda>z. True \<and> z \<noteq> 1) null_addr n) =
        (if fst (net_get (\<lambda>_. True) null_addr n) = Some 1 then None
         else fst (net_get (\<lambda>_. True) null_addr n)) \<and>
      fst (net_get (\<lambda>z. True \<and> z \<noteq> 1) null_addr n) = None \<and>
      fst (net_bind (\<lambda>z. True \<and> z \<noteq> 1) null_addr 2 n) = 0"
  unfolding Let_def
  by (rule binding_dies_with_socket
      [of "\<lambda>_. True" "\<lparr>addr_map = fmupd null_addr (Some 1) fmempty\<rparr>" null_addr "1 :: nat" 2])
    (simp_all add: binding_def)

end
