(* ===== verification/Rng.thy ===== *)
theory Rng
  imports Prelude
begin

text \<open>
  The generators of \<^verbatim>\<open>src/random\<close>: \<^verbatim>\<open>split_mix\<close> (splitmix.hpp), \<^verbatim>\<open>xoshiro256_star_star\<close>
  (xoshiro.hpp) and the sampling functions of rng.hpp. A generator is a state and a function
  \<open>next\<close> that returns a 64-bit word and the next state; the locale \<open>word_source\<close> is the
  interface the sampling functions rely on, with the bound on the words as its law. Doubles in
  [0, 1] are exact rationals: the only operation the code applies to them before a conversion
  is a multiplication by a power of two, which is exact.
\<close>

section \<open>splitmix.hpp\<close>

record split_mix =
  sm_seed :: u64
  sm_gamma :: u64

definition default_gamma :: u64 where
  "default_gamma = 0x9e3779b97f4a7c15"

definition split_mix_init :: "u64 \<Rightarrow> split_mix" where
  "split_mix_init seed = \<lparr>sm_seed = seed, sm_gamma = default_gamma\<rparr>"

text \<open>\<^verbatim>\<open>mix32\<close> and \<^verbatim>\<open>mix64\<close> are both declared to return \<^verbatim>\<open>uint32_t\<close>.\<close>

definition xorshift_mul :: "nat \<Rightarrow> u64 \<Rightarrow> u64 \<Rightarrow> u64" where
  "xorshift_mul k m z = (z XOR drop_bit k z) * m"

definition mix64variant13 :: "u64 \<Rightarrow> u64" where
  "mix64variant13 z0 =
     (let z1 = xorshift_mul 30 0xbf58476d1ce4e5b9 z0;
          z2 = xorshift_mul 27 0x94d049bb133111eb z1
      in z2 XOR drop_bit 31 z2)"

definition mix32 :: "u64 \<Rightarrow> u32" where
  "mix32 z0 =
     (let z1 = xorshift_mul 30 0xbf58476d1ce4e5b9 z0;
          z2 = xorshift_mul 27 0x94d049bb133111eb z1
      in ucast (z2 XOR drop_bit 31 z2))"

definition mix64 :: "u64 \<Rightarrow> u32" where
  "mix64 z0 =
     (let z1 = xorshift_mul 33 0xff51afd7ed558ccd z0;
          z2 = xorshift_mul 33 0xc4ceb9fe1a85ec53 z1
      in ucast (z2 XOR drop_bit 33 z2))"

definition popcountll :: "u64 \<Rightarrow> nat" where
  "popcountll z = length (filter (bit z) [0..<64])"

definition mix_gamma :: "u64 \<Rightarrow> u64" where
  "mix_gamma z0 =
     (let z = mix64variant13 z0 OR 1;
          n = popcountll (z XOR drop_bit 1 z)
      in if 24 \<le> n then z XOR 0xaaaaaaaaaaaaaaaa else z)"

definition next_seed :: "split_mix \<Rightarrow> u64 \<times> split_mix" where
  "next_seed s = (let z = sm_seed s + sm_gamma s in (z, s\<lparr>sm_seed := z\<rparr>))"

definition sm_next :: "split_mix \<Rightarrow> u64 \<times> split_mix" where
  "sm_next s = (let (z, s') = next_seed s in (ucast (mix64 z), s'))"

section \<open>xoshiro.hpp\<close>

record xoshiro =
  st0 :: u64
  st1 :: u64
  st2 :: u64
  st3 :: u64

definition xo_zero :: xoshiro where
  "xo_zero = \<lparr>st0 = 0, st1 = 0, st2 = 0, st3 = 0\<rparr>"

definition xo_step :: "xoshiro \<Rightarrow> xoshiro" where
  "xo_step s =
     (let t = push_bit 17 (st1 s);
          s2 = st2 s XOR st0 s;
          s3 = st3 s XOR st1 s;
          s1 = st1 s XOR s2;
          s0 = st0 s XOR s3
      in \<lparr>st0 = s0, st1 = s1, st2 = s2 XOR t, st3 = word_rotl 45 s3\<rparr>)"

definition xo_next :: "xoshiro \<Rightarrow> u64 \<times> xoshiro" where
  "xo_next s = (word_rotl 7 (st1 s * 5) * 9, xo_step s)"

definition set_seed :: "u64 \<Rightarrow> u64 \<Rightarrow> u64 \<Rightarrow> u64 \<Rightarrow> xoshiro \<Rightarrow> xoshiro" where
  "set_seed a b c d s = s\<lparr>st0 := a, st1 := b, st2 := c, st3 := d\<rparr>"

definition seed_from :: "('r \<Rightarrow> u64 \<times> 'r) \<Rightarrow> 'r \<Rightarrow> xoshiro \<times> 'r" where
  "seed_from nxt r =
     (let (a, r1) = nxt r; (b, r2) = nxt r1; (c, r3) = nxt r2; (d, r4) = nxt r3
      in (\<lparr>st0 = a, st1 = b, st2 = c, st3 = d\<rparr>, r4))"

text \<open>The constructor from a 32-byte seed: \<^verbatim>\<open>memcpy\<close> into the state array.\<close>

definition xo_of_bytes :: "bytes \<Rightarrow> xoshiro" where
  "xo_of_bytes seed =
     \<lparr>st0 = le_word (take 8 seed), st1 = le_word (take 8 (drop 8 seed)),
      st2 = le_word (take 8 (drop 16 seed)), st3 = le_word (take 8 (drop 24 seed))\<rparr>"

text \<open>
  \<^verbatim>\<open>fill_bytes\<close> is the same loop in both generators: whole blocks, then one more block of which
  the remaining bytes are copied, drawn even when no byte remains.
\<close>

fun fill_bytes :: "('r \<Rightarrow> u64 \<times> 'r) \<Rightarrow> nat \<Rightarrow> 'r \<Rightarrow> bytes \<times> 'r" where
  "fill_bytes nxt n r =
     (let (block, r') = nxt r
      in if 8 \<le> n
         then let (rest, r'') = fill_bytes nxt (n - 8) r' in (le_bytes block @ rest, r'')
         else (take n (le_bytes block), r'))"

declare fill_bytes.simps [simp del]

definition sm_fill_bytes :: "nat \<Rightarrow> split_mix \<Rightarrow> bytes \<times> split_mix" where
  "sm_fill_bytes = fill_bytes sm_next"

definition xo_fill_bytes :: "nat \<Rightarrow> xoshiro \<Rightarrow> bytes \<times> xoshiro" where
  "xo_fill_bytes = fill_bytes xo_next"

section \<open>rng.hpp\<close>

text \<open>\<^verbatim>\<open>sample_uniform<uint64_t>\<close>: the modulus is undefined for an empty range.\<close>

definition sample_u64 :: "('r \<Rightarrow> u64 \<times> 'r) \<Rightarrow> u64 \<Rightarrow> u64 \<Rightarrow> 'r \<Rightarrow> trap + u64 \<times> 'r" where
  "sample_u64 nxt lo hi r =
     (let width = hi - lo; (v, r') = nxt r
      in if width = 0 then Inl Div_by_zero else Inr (lo + v mod width, r'))"

text \<open>
  \<^verbatim>\<open>sample_uniform<long>\<close> converts its bounds to \<^verbatim>\<open>uint64_t\<close>, samples, and converts back;
  \<^verbatim>\<open>gen_range\<close> on durations unwraps the counts and does the same.
\<close>

definition sample_long :: "('r \<Rightarrow> u64 \<times> 'r) \<Rightarrow> int \<Rightarrow> int \<Rightarrow> 'r \<Rightarrow> trap + int \<times> 'r" where
  "sample_long nxt lo hi r =
     (case sample_u64 nxt (of_i64 lo) (of_i64 hi) r of
        Inl t \<Rightarrow> Inl t
      | Inr (v, r') \<Rightarrow> Inr (to_i64 v, r'))"

definition gen_range :: "('r \<Rightarrow> u64 \<times> 'r) \<Rightarrow> int \<Rightarrow> int \<Rightarrow> 'r \<Rightarrow> trap + int \<times> 'r" where
  "gen_range nxt lo hi r = sample_long nxt lo hi r"

text \<open>\<^verbatim>\<open>static_cast<uint64_t>\<close> of a double truncates, and is undefined out of range.\<close>

definition double_to_u64 :: "rat \<Rightarrow> u64 option" where
  "double_to_u64 x =
     (let i = (if 0 \<le> x then \<lfloor>x\<rfloor> else \<lceil>x\<rceil>)
      in if 0 \<le> i \<and> i < 2 ^ 64 then Some (word_of_int i) else None)"

definition gen_bool :: "bool \<Rightarrow> ('r \<Rightarrow> u64 \<times> 'r) \<Rightarrow> rat \<Rightarrow> 'r \<Rightarrow> trap + bool \<times> 'r" where
  "gen_bool ndebug nxt p r =
     (if \<not> asserts ndebug (0 \<le> p \<and> p \<le> 1) then Inl Assert_failed
      else case double_to_u64 (p * 2 ^ 64) of
             None \<Rightarrow> Inl Bad_conversion
           | Some threshold \<Rightarrow>
               (let (v, r') = nxt r
                in Inr (if threshold = - 1 then True else v < threshold, r')))"

section \<open>The interface of a word source\<close>

text \<open>
  What the sampling functions and the seeding code use of a generator: \<open>nxt\<close> yields words
  below \<open>bound\<close>.
\<close>

locale word_source =
  fixes nxt :: "'r \<Rightarrow> u64 \<times> 'r" and bound :: nat
  assumes nxt_bound: "unat (fst (nxt r)) < bound"
begin

lemma seed_from_bound:
  "seed_from nxt r = (s, r') \<Longrightarrow>
   unat (st0 s) < bound \<and> unat (st1 s) < bound \<and> unat (st2 s) < bound \<and> unat (st3 s) < bound"
  using nxt_bound by (auto simp: seed_from_def split: prod.splits) (metis fst_conv)+

lemma sample_u64_lt:
  assumes "lo < hi" and "sample_u64 nxt lo hi r = Inr (v, r')"
  shows "unat lo \<le> unat v \<and> unat v < unat hi \<and> unat v < unat lo + bound"
proof -
  have width: "unat (hi - lo) = unat hi - unat lo" "unat (hi - lo) > 0"
    using assms(1) by (simp_all add: unat_sub word_less_nat_alt order.strict_implies_order)
  define x where "x = fst (nxt r)"
  have v: "v = lo + x mod (hi - lo)"
    using assms by (auto simp: sample_u64_def x_def Let_def split: prod.splits if_splits)
  have m: "unat (x mod (hi - lo)) = unat x mod (unat hi - unat lo)"
    by (simp add: unat_mod width)
  have lt: "unat x mod (unat hi - unat lo) < unat hi - unat lo"
    using width by simp
  then have "unat lo + unat (x mod (hi - lo)) < 2 ^ 64"
    using unat_u64_less [of hi] by (simp add: m)
  then have "unat v = unat lo + unat x mod (unat hi - unat lo)"
    by (simp add: v unat_plus_no_wrap m)
  moreover have "unat x mod (unat hi - unat lo) < bound"
    using nxt_bound [of r] le_less_trans [OF mod_less_eq_dividend] unfolding x_def by blast
  ultimately show ?thesis using lt by linarith
qed

end

lemma xo_next_bound: "unat (fst (xo_next s)) < 2 ^ 64"
  by (rule unat_u64_less)

lemma sm_next_bound: "unat (fst (sm_next s)) < 2 ^ 32"
proof -
  have "unat (ucast (w :: u32) :: u64) < 2 ^ 32" for w
    using unat_u32_less [of w] by (simp add: unat_ucast_u32_u64)
  then show ?thesis by (simp add: sm_next_def split: prod.splits)
qed

interpretation xo: word_source xo_next "2 ^ 64"
  by unfold_locales (rule xo_next_bound)

interpretation sm: word_source sm_next "2 ^ 32"
  by unfold_locales (rule sm_next_bound)

section \<open>The xoshiro step is a bijection\<close>

definition xo_unstep :: "xoshiro \<Rightarrow> xoshiro" where
  "xo_unstep s =
     (let s3 = word_rotr 45 (st3 s);
          a = st0 s XOR s3;
          y = st1 s XOR st2 s;
          b = y XOR push_bit 17 y XOR push_bit 34 y XOR push_bit 51 y
      in \<lparr>st0 = a, st1 = b, st2 = st1 s XOR b XOR a, st3 = s3 XOR b\<rparr>)"

lemma xor_cancel_left [simp]: "(x :: 'a::len word) XOR (x XOR y) = y"
  by (simp add: xor.assoc [symmetric])

lemma xorshift17_left:
  fixes x :: u64
  defines "y \<equiv> x XOR push_bit 17 x"
  shows "y XOR push_bit 17 y XOR push_bit 34 y XOR push_bit 51 y = x"
proof -
  have "push_bit 68 x = 0" by (rule bit_word_eqI) (simp add: bit_simps)
  then show ?thesis by (simp add: y_def push_bit_xor xor.assoc)
qed

lemma xorshift17_right:
  fixes y :: u64
  defines "x \<equiv> y XOR push_bit 17 y XOR push_bit 34 y XOR push_bit 51 y"
  shows "x XOR push_bit 17 x = y"
proof -
  have "push_bit 68 y = 0" by (rule bit_word_eqI) (simp add: bit_simps)
  then show ?thesis by (simp add: x_def push_bit_xor xor.assoc xor.left_commute)
qed

lemma xo_unstep_step [simp]: "xo_unstep (xo_step s) = s"
proof (cases s)
  case (fields a b c d)
  have y: "(b XOR (c XOR a)) XOR ((c XOR a) XOR push_bit 17 b) = b XOR push_bit 17 b"
    by (simp add: xor.assoc xor.commute xor.left_commute)
  show ?thesis
    by (simp add: fields xo_step_def xo_unstep_def Let_def y xorshift17_left
        xor.assoc xor.commute xor.left_commute)
qed

lemma xo_step_unstep [simp]: "xo_step (xo_unstep s) = s"
proof (cases s)
  case (fields a b c d)
  define y where "y = b XOR c"
  define B where "B = y XOR push_bit 17 y XOR push_bit 34 y XOR push_bit 51 y"
  define r where "r = word_rotr 45 d"
  have u: "xo_unstep s = \<lparr>st0 = a XOR r, st1 = B, st2 = b XOR B XOR (a XOR r), st3 = r XOR B\<rparr>"
    by (simp add: fields xo_unstep_def Let_def B_def y_def r_def)
  have "B XOR push_bit 17 B = y"
    unfolding B_def by (rule xorshift17_right)
  have rot: "word_rotl 45 r = d" by (simp add: r_def)
  have c: "(b XOR B) XOR push_bit 17 B = c"
    by (simp add: xor.assoc \<open>B XOR push_bit 17 B = y\<close>) (simp add: y_def)
  have s2: "(b XOR B XOR (a XOR r)) XOR (a XOR r) = b XOR B" by (simp add: xor.assoc)
  have s3: "(r XOR B) XOR B = r" by (simp add: xor.assoc)
  have s1: "B XOR (b XOR B) = b" by (simp add: xor.commute xor.left_commute)
  have s0: "(a XOR r) XOR r = a" by (simp add: xor.assoc)
  show ?thesis
    unfolding u xo_step_def Let_def xoshiro.select_convs s2 s3 s1 s0 c rot
    by (simp add: fields)
qed

lemma bij_xo_step: "bij xo_step"
  by (rule o_bij [of xo_unstep]) (simp_all add: fun_eq_iff)

lemma xo_step_zero: "xo_step xo_zero = xo_zero"
  by (simp add: xo_step_def xo_zero_def Let_def)

lemma xo_step_eq_zero [simp]: "xo_step s = xo_zero \<longleftrightarrow> s = xo_zero"
  by (metis xo_step_zero xo_unstep_step)

lemma xo_steps_eq_zero: "(xo_step ^^ n) s = xo_zero \<longleftrightarrow> s = xo_zero"
  by (induction n) simp_all

section \<open>Sampling\<close>

definition advance :: "('r \<Rightarrow> u64 \<times> 'r) \<Rightarrow> 'r \<Rightarrow> 'r" where
  "advance nxt r = snd (nxt r)"

definition draw :: "('r \<Rightarrow> u64 \<times> 'r) \<Rightarrow> nat \<Rightarrow> 'r \<Rightarrow> u64" where
  "draw nxt k r = fst (nxt ((advance nxt ^^ k) r))"

lemma draw_0: "draw nxt 0 r = fst (nxt r)"
  by (simp add: draw_def)

lemma draw_advance: "draw nxt k (advance nxt r) = draw nxt (Suc k) r"
  by (simp only: draw_def funpow_Suc_right comp_apply)

lemma of_i64_diff: "of_i64 hi - of_i64 lo = of_i64 (hi - lo)"
  by (simp add: of_i64_def)

lemma gen_range_eq:
  assumes "- (2 ^ 63) \<le> lo" and "lo < hi" and "hi < 2 ^ 63"
  shows "gen_range nxt lo hi r =
           Inr (lo + uint (draw nxt 0 r) mod (hi - lo), advance nxt r)"
proof -
  define x where "x = draw nxt 0 r"
  have width: "uint (of_i64 (hi - lo)) = hi - lo"
    unfolding of_i64_def by (subst uint_word_of_int) (use assms in simp)
  have nz: "of_i64 (hi - lo) \<noteq> 0"
    using assms(2) width by auto
  have m: "uint (x mod of_i64 (hi - lo)) = uint x mod (hi - lo)"
    by (simp add: uint_mod width)
  have "of_i64 lo + x mod of_i64 (hi - lo) = of_i64 (lo + uint x mod (hi - lo))"
    unfolding of_i64_def by (simp add: m [symmetric, unfolded of_i64_def])
  moreover have "to_i64 (of_i64 (lo + uint x mod (hi - lo))) = lo + uint x mod (hi - lo)"
  proof (rule to_i64_of_i64)
    have "0 \<le> uint x mod (hi - lo)" "uint x mod (hi - lo) < hi - lo"
      using assms(2) by simp_all
    then show "- (2 ^ 63) \<le> lo + uint x mod (hi - lo)" "lo + uint x mod (hi - lo) < 2 ^ 63"
      using assms by linarith+
  qed
  ultimately show ?thesis
    using nz by (simp add: gen_range_def sample_long_def sample_u64_def of_i64_diff x_def
        draw_0 advance_def Let_def case_prod_beta)
qed

lemma gen_range_empty: "gen_range nxt lo lo r = Inl Div_by_zero"
  by (simp add: gen_range_def sample_long_def sample_u64_def Let_def split: prod.splits)

lemma fill_bytes_block:
  "8 \<le> n \<Longrightarrow> fill_bytes nxt n r =
     (le_bytes (draw nxt 0 r) @ fst (fill_bytes nxt (n - 8) (advance nxt r)),
      snd (fill_bytes nxt (n - 8) (advance nxt r)))"
  by (subst fill_bytes.simps) (simp add: draw_0 advance_def case_prod_beta)

lemma fill_bytes_tail:
  "n < 8 \<Longrightarrow> fill_bytes nxt n r = (take n (le_bytes (draw nxt 0 r)), advance nxt r)"
  by (subst fill_bytes.simps) (simp add: draw_0 advance_def case_prod_beta)

lemma fill_bytes_induct [case_names block tail]:
  fixes n :: nat
  assumes "\<And>n r. 8 \<le> n \<Longrightarrow> P (n - 8) (advance nxt r) \<Longrightarrow> P n r"
    and "\<And>n r. n < 8 \<Longrightarrow> P n r"
  shows "P n r"
proof (induction n arbitrary: r rule: less_induct)
  case (less n)
  show ?case
  proof (cases "8 \<le> n")
    case True
    then have "P (n - 8) (advance nxt r)" by (intro less) simp
    with True show ?thesis by (rule assms(1))
  next
    case False
    then have "n < 8" by simp
    then show ?thesis by (rule assms(2))
  qed
qed

lemma fill_bytes_advance: "snd (fill_bytes nxt n r) = (advance nxt ^^ (n div 8 + 1)) r"
proof (induction n r rule: fill_bytes_induct [where nxt = nxt])
  case (block n r)
  then have "n div 8 = Suc ((n - 8) div 8)" by (simp add: le_div_geq)
  with block show ?case
    by (simp add: fill_bytes_block funpow_swap1)
qed (simp add: fill_bytes_tail)

lemma length_fill_bytes: "length (fst (fill_bytes nxt n r)) = n"
  by (induction n r rule: fill_bytes_induct [where nxt = nxt])
    (simp_all add: fill_bytes_block fill_bytes_tail)

lemma nth_fill_bytes:
  "i < n \<Longrightarrow> fst (fill_bytes nxt n r) ! i = le_bytes (draw nxt (i div 8) r) ! (i mod 8)"
proof (induction n r arbitrary: i rule: fill_bytes_induct [where nxt = nxt])
  case (block n r)
  show ?case
  proof (cases "i < 8")
    case True
    then show ?thesis using block(1) by (simp add: fill_bytes_block nth_append)
  next
    case False
    moreover have "i div 8 = Suc ((i - 8) div 8)" "i mod 8 = (i - 8) mod 8"
      using False by (simp_all add: le_div_geq le_mod_geq)
    ultimately show ?thesis
      using block by (simp add: fill_bytes_block nth_append draw_advance)
  qed
qed (simp add: fill_bytes_tail)

section \<open>Booleans with a given probability\<close>

text \<open>The largest double below 1 is 1 - 2^-53.\<close>

definition accepts :: "rat \<Rightarrow> u64 \<Rightarrow> bool" where
  "accepts p v \<longleftrightarrow> of_nat (unat v) + 1 \<le> p * 2 ^ 64"

lemma accepts_floor: "accepts p v \<longleftrightarrow> int (unat v) < \<lfloor>p * 2 ^ 64\<rfloor>"
proof -
  have "accepts p v \<longleftrightarrow> of_int (int (unat v) + 1) \<le> p * 2 ^ 64"
    by (simp add: accepts_def)
  also have "\<dots> \<longleftrightarrow> int (unat v) + 1 \<le> \<lfloor>p * 2 ^ 64\<rfloor>"
    by (simp only: le_floor_iff)
  finally show ?thesis by linarith
qed

lemma card_words_below: "n \<le> 2 ^ 64 \<Longrightarrow> card {v :: u64. unat v < n} = n"
proof -
  assume n: "n \<le> 2 ^ 64"
  have "{v :: u64. unat v < n} = of_nat ` {..<n}"
  proof (intro equalityI subsetI)
    fix v :: u64 assume "v \<in> {v. unat v < n}"
    then have "v = of_nat (unat v)" "unat v \<in> {..<n}" by simp_all
    then show "v \<in> of_nat ` {..<n}" by blast
  next
    fix v :: u64 assume "v \<in> of_nat ` {..<n}"
    then show "v \<in> {v. unat v < n}"
      using n by (auto simp: unat_of_nat take_bit_nat_eq_self)
  qed
  moreover have "inj_on (of_nat :: nat \<Rightarrow> u64) {..<n}"
  proof (rule inj_on_inverseI)
    fix a assume "a \<in> {..<n}"
    with n show "unat (of_nat a :: u64) = a" by (simp add: unat_of_nat take_bit_nat_eq_self)
  qed
  ultimately show ?thesis by (simp add: card_image)
qed

lemma gen_bool_eq:
  assumes "0 \<le> p" and "p \<le> 1 - 1 / 2 ^ 53"
  shows "gen_bool ndebug nxt p r = Inr (accepts p (draw nxt 0 r), advance nxt r)"
proof -
  define k where "k = \<lfloor>p * 2 ^ 64\<rfloor>"
  have "p * 2 ^ 64 \<le> (1 - 1 / 2 ^ 53) * 2 ^ 64"
    using assms(2) by (rule mult_right_mono) simp
  then have le: "p * 2 ^ 64 \<le> 2 ^ 64 - 2 ^ 11" by simp
  have k: "0 \<le> k" "k < 2 ^ 64 - 1"
    using le assms(1) unfolding k_def by (simp, simp add: floor_less_iff)
  have u: "uint (word_of_int k :: u64) = k"
    by (subst uint_word_of_int) (use k in simp)
  have "word_of_int k \<noteq> (- 1 :: u64)"
  proof
    assume "word_of_int k = (- 1 :: u64)"
    with u have "uint (- 1 :: u64) = k" by simp
    with k show False by (simp add: unsigned_minus_1_eq_mask mask_eq_exp_minus_1)
  qed
  moreover have "v < word_of_int k \<longleftrightarrow> accepts p v" for v
    by (simp only: accepts_floor k_def [symmetric] word_less_def u) simp
  moreover have "asserts ndebug (0 \<le> p \<and> p \<le> 1)"
    using assms by (auto simp: asserts_def intro: order_trans)
  moreover have "double_to_u64 (p * 2 ^ 64) = Some (word_of_int k)"
  proof -
    have pos: "0 \<le> p * 2 ^ 64" using assms(1) by simp
    have "double_to_u64 (p * 2 ^ 64) =
        (if 0 \<le> k \<and> k < 2 ^ 64 then Some (word_of_int k) else None)"
      by (simp only: double_to_u64_def Let_def pos if_True k_def [symmetric])
    with k show ?thesis by simp
  qed
  ultimately show ?thesis
    by (simp add: gen_bool_def draw_0 advance_def case_prod_beta Let_def)
qed

lemma gen_bool_one: "gen_bool ndebug nxt 1 r = Inl Bad_conversion"
  by (simp add: gen_bool_def double_to_u64_def)

section \<open>Properties\<close>

text \<open>The state transition of xoshiro256** is a bijection, and the generator reaches the
  all-zero state, in which it would return zeros for ever, from no other state.\<close>

theorem xo_never_stuck:
  "bij (advance xo_next) \<and> ((advance xo_next ^^ n) s = xo_zero \<longleftrightarrow> s = xo_zero)"
proof -
  have "advance xo_next = xo_step" by (simp add: fun_eq_iff advance_def xo_next_def)
  then show ?thesis by (simp add: bij_xo_step xo_steps_eq_zero)
qed

text \<open>\<^verbatim>\<open>split_mix::next\<close> returns a word below 2^32, because \<^verbatim>\<open>mix64\<close> is declared to
  return \<^verbatim>\<open>uint32_t\<close>; every state word that \<^verbatim>\<open>xoshiro256_star_star::seed_from\<close> takes from a
  \<^verbatim>\<open>split_mix\<close> therefore has a zero upper half, and so has the simulator's generator.\<close>

theorem seed_from_split_mix_upper_half:
  "unat (fst (sm_next sm)) < 2 ^ 32 \<and>
   (let s = fst (seed_from sm_next sm)
    in unat (st0 s) < 2 ^ 32 \<and> unat (st1 s) < 2 ^ 32 \<and>
       unat (st2 s) < 2 ^ 32 \<and> unat (st3 s) < 2 ^ 32)"
  using sm_next_bound [of sm] sm.seed_from_bound [OF prod.collapse [symmetric], of sm]
  by (simp add: Let_def)

text \<open>\<^verbatim>\<open>gen_range\<close> on signed 64-bit counts returns a value of the half-open range, for every
  non-empty range, negative bounds included, from exactly one draw; on an empty range it
  divides by zero.\<close>

theorem gen_range_in_range:
  assumes "- (2 ^ 63) \<le> lo" and "lo < hi" and "hi < 2 ^ 63"
  shows "\<exists>v. gen_range nxt lo hi r = Inr (v, advance nxt r) \<and> lo \<le> v \<and> v < hi \<and>
           gen_range nxt lo lo r = Inl Div_by_zero"
proof -
  have "0 \<le> uint (draw nxt 0 r) mod (hi - lo)" "uint (draw nxt 0 r) mod (hi - lo) < hi - lo"
    using assms(2) by simp_all
  then have "lo \<le> lo + uint (draw nxt 0 r) mod (hi - lo)"
    "lo + uint (draw nxt 0 r) mod (hi - lo) < hi" by linarith+
  then show ?thesis by (simp add: gen_range_eq [OF assms] gen_range_empty)
qed

theorem gen_range_in_range_witness:
  "\<exists>v. gen_range xo_next (- 5) 7 xo_zero = Inr (v, advance xo_next xo_zero) \<and>
     - 5 \<le> v \<and> v < 7 \<and> gen_range xo_next (- 5) (- 5) xo_zero = Inl Div_by_zero"
  by (rule gen_range_in_range) simp_all

text \<open>for every probability a double can hold below 1, \<^verbatim>\<open>gen_bool\<close> is true for exactly
  floor(p * 2^64) of the 2^64 words it may draw; for p = 1 the conversion of 2^64 to
  \<^verbatim>\<open>uint64_t\<close> is undefined, so the comparison with the maximum, written for that case, is
  never reached.\<close>

theorem gen_bool_probability:
  assumes "0 \<le> p" and "p \<le> 1 - 1 / 2 ^ 53"
  shows "gen_bool ndebug nxt p r = Inr (accepts p (draw nxt 0 r), advance nxt r) \<and>
     int (card {v. accepts p v}) = \<lfloor>p * 2 ^ 64\<rfloor> \<and>
     gen_bool ndebug nxt 1 r = Inl Bad_conversion"
proof -
  have "p * 2 ^ 64 \<le> (1 - 1 / 2 ^ 53) * 2 ^ 64"
    using assms(2) by (rule mult_right_mono) simp
  also have "\<dots> \<le> of_int (2 ^ 64)" by simp
  finally have "\<lfloor>p * 2 ^ 64\<rfloor> \<le> \<lfloor>of_int (2 ^ 64) :: rat\<rfloor>" by (rule floor_mono)
  then have le: "nat \<lfloor>p * 2 ^ 64\<rfloor> \<le> 2 ^ 64" by (simp only: floor_of_int nat_le_iff of_nat_power of_nat_numeral)
  have "{v. accepts p v} = {v. unat v < nat \<lfloor>p * 2 ^ 64\<rfloor>}"
    by (simp only: accepts_floor zless_nat_eq_int_zless)
  then have "card {v. accepts p v} = nat \<lfloor>p * 2 ^ 64\<rfloor>"
    using card_words_below [OF le] by simp
  then show ?thesis
    using assms by (simp add: gen_bool_eq gen_bool_one)
qed

theorem gen_bool_probability_witness:
  "gen_bool True xo_next (1 / 4) xo_zero =
     Inr (accepts (1 / 4) (draw xo_next 0 xo_zero), advance xo_next xo_zero) \<and>
   int (card {v. accepts (1 / 4) v}) = \<lfloor>1 / 4 * 2 ^ 64 :: rat\<rfloor> \<and>
   gen_bool True xo_next 1 xo_zero = Inl Bad_conversion"
  by (rule gen_bool_probability) simp_all

text \<open>\<^verbatim>\<open>fill_bytes\<close> of either generator writes exactly the bytes asked for, byte i being
  byte i mod 8 of draw i div 8 in little-endian order, and advances the generator by
  n div 8 + 1 draws: also when no byte is left for the last one.\<close>

theorem fill_bytes_spec:
  "length (fst (xo_fill_bytes n s)) = n \<and>
   fst (xo_fill_bytes n s) = map (\<lambda>i. le_bytes (draw xo_next (i div 8) s) ! (i mod 8)) [0..<n] \<and>
   snd (xo_fill_bytes n s) = (advance xo_next ^^ (n div 8 + 1)) s \<and>
   fst (sm_fill_bytes n t) = map (\<lambda>i. le_bytes (draw sm_next (i div 8) t) ! (i mod 8)) [0..<n] \<and>
   snd (sm_fill_bytes n t) = (advance sm_next ^^ (n div 8 + 1)) t"
  by (auto simp: xo_fill_bytes_def sm_fill_bytes_def length_fill_bytes fill_bytes_advance
      nth_fill_bytes intro!: nth_equalityI)

end
