(* ===== verification/Fault.thy ===== *)
theory Fault
  imports Rng
begin

text \<open>
  The fault options of a simulated link, \<^verbatim>\<open>net_fault_options\<close> of src/net/fault.hpp. Latencies
  are nanosecond counts of a signed 64-bit representation. \<^verbatim>\<open>std::bernoulli_distribution\<close>
  leaves its algorithm to the implementation, so \<open>should_drop\<close> takes it as an argument; the
  locale \<open>bernoulli\<close> states what the standard promises at the two degenerate probabilities,
  and the comparison of one draw with the probability is an instance.
\<close>

record net_fault_options =
  min_latency :: int
  max_latency :: int
  p_drop :: rat
  p_replay :: rat

definition default_faults :: net_fault_options where
  "default_faults = \<lparr>min_latency = 0, max_latency = 0, p_drop = 0, p_replay = 0\<rparr>"

definition add_ns :: "int \<Rightarrow> int \<Rightarrow> trap + int" where
  "add_ns a b = (if - (2 ^ 63) \<le> a + b \<and> a + b < 2 ^ 63 then Inr (a + b) else Inl Overflow)"

definition latency ::
  "('r \<Rightarrow> u64 \<times> 'r) \<Rightarrow> net_fault_options \<Rightarrow> 'r \<Rightarrow> trap + int \<times> 'r" where
  "latency nxt opts r =
     (case add_ns (max_latency opts) 1 of
        Inl t \<Rightarrow> Inl t
      | Inr hi \<Rightarrow> gen_range nxt (min_latency opts) hi r)"

definition should_drop ::
  "(rat \<Rightarrow> 'r \<Rightarrow> bool \<times> 'r) \<Rightarrow> net_fault_options \<Rightarrow> 'r \<Rightarrow> bool \<times> 'r" where
  "should_drop bern opts r = bern (p_drop opts) r"

text \<open>
  \<^verbatim>\<open>replay_count\<close> counts how often \<^verbatim>\<open>gen_bool\<close> is true in a row; nothing in the code bounds
  the loop, so it is a partial function, \<^const>\<open>None\<close> meaning that it does not return.
\<close>

partial_function (option) replay_loop ::
  "bool \<Rightarrow> ('r \<Rightarrow> u64 \<times> 'r) \<Rightarrow> rat \<Rightarrow> nat \<Rightarrow> 'r \<Rightarrow> (trap + nat \<times> 'r) option" where
  "replay_loop ndebug nxt p n r =
     (case gen_bool ndebug nxt p r of
        Inl t \<Rightarrow> Some (Inl t)
      | Inr (b, r') \<Rightarrow>
          if \<not> b then Some (Inr (n, r')) else replay_loop ndebug nxt p (Suc n) r')"

definition replay_count ::
  "bool \<Rightarrow> ('r \<Rightarrow> u64 \<times> 'r) \<Rightarrow> net_fault_options \<Rightarrow> 'r \<Rightarrow> (trap + nat \<times> 'r) option" where
  "replay_count ndebug nxt opts r = replay_loop ndebug nxt (p_replay opts) 0 r"

section \<open>The Bernoulli distribution of the standard library\<close>

locale bernoulli =
  fixes bern :: "rat \<Rightarrow> 'r \<Rightarrow> bool \<times> 'r"
  assumes bern_0: "\<not> fst (bern 0 r)"
    and bern_1: "fst (bern 1 r)"
begin

lemma never_drops: "p_drop opts = 0 \<Longrightarrow> \<not> fst (should_drop bern opts r)"
  by (simp add: should_drop_def bern_0)

lemma always_drops: "p_drop opts = 1 \<Longrightarrow> fst (should_drop bern opts r)"
  by (simp add: should_drop_def bern_1)

end

definition canonical_bernoulli :: "('r \<Rightarrow> u64 \<times> 'r) \<Rightarrow> rat \<Rightarrow> 'r \<Rightarrow> bool \<times> 'r" where
  "canonical_bernoulli nxt p r =
     (let (v, r') = nxt r in (of_nat (unat v) < p * 2 ^ 64, r'))"

lemma of_nat_unat_less: "(of_nat (unat (v :: u64)) :: rat) < 2 ^ 64"
proof -
  have "(of_nat (unat v) :: rat) < of_nat (2 ^ 64)"
    by (simp only: of_nat_less_iff unat_u64_less)
  then show ?thesis by simp
qed

lemma of_nat_unat_not_neg: "\<not> (of_nat (unat (v :: u64)) :: rat) < 0"
  by (simp only: not_less of_nat_0_le_iff)

interpretation xo_bern: bernoulli "canonical_bernoulli xo_next"
  by unfold_locales
    (simp_all only: canonical_bernoulli_def case_prod_beta Let_def fst_conv mult_zero_left
      mult_1_left of_nat_unat_less of_nat_unat_not_neg not_False_eq_True)

section \<open>Latencies\<close>

lemma latency_eq:
  assumes "- (2 ^ 63) \<le> min_latency opts" and "min_latency opts \<le> max_latency opts"
    and "max_latency opts < 2 ^ 63 - 1"
  shows "latency nxt opts r =
    Inr (min_latency opts +
         uint (draw nxt 0 r) mod (max_latency opts + 1 - min_latency opts), advance nxt r)"
proof -
  have "add_ns (max_latency opts) 1 = Inr (max_latency opts + 1)"
    using assms by (simp add: add_ns_def)
  moreover have "gen_range nxt (min_latency opts) (max_latency opts + 1) r =
    Inr (min_latency opts +
         uint (draw nxt 0 r) mod (max_latency opts + 1 - min_latency opts), advance nxt r)"
    using assms by (intro gen_range_eq) simp_all
  ultimately show ?thesis by (simp add: latency_def)
qed

lemma latency_between:
  assumes "- (2 ^ 63) \<le> min_latency opts" and "min_latency opts \<le> max_latency opts"
    and "max_latency opts < 2 ^ 63 - 1" and "latency nxt opts r = Inr (l, r')"
  shows "min_latency opts \<le> l \<and> l \<le> max_latency opts \<and> r' = advance nxt r"
proof -
  let ?w = "max_latency opts + 1 - min_latency opts"
  have w: "0 < ?w" using assms(2) by simp
  have "0 \<le> uint (draw nxt 0 r) mod ?w" "uint (draw nxt 0 r) mod ?w < ?w"
    using w by (auto intro: pos_mod_sign pos_mod_bound)
  moreover have "l = min_latency opts + uint (draw nxt 0 r) mod ?w" "r' = advance nxt r"
    using latency_eq [OF assms(1-3), of nxt r] assms(4) by auto
  ultimately show ?thesis by linarith
qed

lemma latency_zero:
  "min_latency opts = 0 \<Longrightarrow> max_latency opts = 0 \<Longrightarrow> latency nxt opts r = Inr (0, advance nxt r)"
  by (subst latency_eq) simp_all

section \<open>Replays\<close>

lemma replay_loop_step:
  assumes "0 \<le> p" and "p \<le> 1 - 1 / 2 ^ 53"
  shows "replay_loop ndebug nxt p n r =
    (if accepts p (draw nxt 0 r) then replay_loop ndebug nxt p (Suc n) (advance nxt r)
     else Some (Inr (n, advance nxt r)))"
  by (subst replay_loop.simps) (simp add: gen_bool_eq [OF assms])

lemma replay_loop_run:
  assumes "0 \<le> p" and "p \<le> 1 - 1 / 2 ^ 53"
    and "\<And>j. j < k \<Longrightarrow> accepts p (draw nxt j r)" and "\<not> accepts p (draw nxt k r)"
  shows "replay_loop ndebug nxt p n r = Some (Inr (n + k, (advance nxt ^^ Suc k) r))"
  using assms(3,4)
proof (induction k arbitrary: n r)
  case 0
  then show ?case by (simp add: replay_loop_step [OF assms(1,2)])
next
  case (Suc k)
  have "accepts p (draw nxt 0 r)" by (rule Suc.prems(1)) simp
  moreover have "replay_loop ndebug nxt p (Suc n) (advance nxt r) =
      Some (Inr (Suc n + k, (advance nxt ^^ Suc k) (advance nxt r)))"
    by (rule Suc.IH) (use Suc.prems in \<open>auto simp: draw_advance\<close>)
  ultimately show ?case
    by (simp add: replay_loop_step [OF assms(1,2), of ndebug nxt n r] funpow_swap1)
qed

lemma replay_loop_diverges:
  assumes "0 \<le> p" and "p \<le> 1 - 1 / 2 ^ 53" and "\<And>j. accepts p (draw nxt j r)"
  shows "replay_loop ndebug nxt p n r = None"
proof (rule ccontr)
  assume "\<not> ?thesis"
  then obtain y where ret: "replay_loop ndebug nxt p n r = Some y" by auto
  have "0 \<le> p \<longrightarrow> p \<le> 1 - 1 / 2 ^ 53 \<longrightarrow> (\<exists>j. \<not> accepts p (draw nxt j r))"
  proof (rule replay_loop.raw_induct
      [where P = "\<lambda>ndebug nxt p n r y. 0 \<le> p \<longrightarrow> p \<le> 1 - 1 / 2 ^ 53 \<longrightarrow>
         (\<exists>j. \<not> accepts p (draw nxt j r))", OF _ ret], intro impI)
    fix f ndebug and nxt :: "'a \<Rightarrow> u64 \<times> 'a" and p n r y
    assume IH: "\<And>ndebug nxt p n r y. f ndebug nxt p n r = Some y \<Longrightarrow>
        0 \<le> p \<longrightarrow> p \<le> 1 - 1 / 2 ^ 53 \<longrightarrow> (\<exists>j. \<not> accepts p (draw nxt j r))"
      and eq: "(case gen_bool ndebug nxt p r of Inl t \<Rightarrow> Some (Inl t)
         | Inr (b, r') \<Rightarrow> if \<not> b then Some (Inr (n, r')) else f ndebug nxt p (Suc n) r') = Some y"
      and p: "0 \<le> p" "p \<le> 1 - 1 / 2 ^ 53"
    show "\<exists>j. \<not> accepts p (draw nxt j r)"
    proof (cases "accepts p (draw nxt 0 r)")
      case True
      with eq have "f ndebug nxt p (Suc n) (advance nxt r) = Some y"
        by (simp add: gen_bool_eq [OF p])
      from IH [OF this] p show ?thesis by (auto simp: draw_advance)
    qed blast
  qed
  with assms show False by blast
qed

lemma replay_count_None_iff:
  assumes "0 \<le> p_replay opts" and "p_replay opts \<le> 1 - 1 / 2 ^ 53"
  shows "replay_count ndebug nxt opts r = None \<longleftrightarrow> (\<forall>j. accepts (p_replay opts) (draw nxt j r))"
proof
  assume None: "replay_count ndebug nxt opts r = None"
  show "\<forall>j. accepts (p_replay opts) (draw nxt j r)"
  proof (rule ccontr)
    assume "\<not> ?thesis"
    then obtain k where k: "\<not> accepts (p_replay opts) (draw nxt k r)"
      "\<And>j. j < k \<Longrightarrow> accepts (p_replay opts) (draw nxt j r)"
      using exists_least_iff [of "\<lambda>k. \<not> accepts (p_replay opts) (draw nxt k r)"] by auto
    have "replay_count ndebug nxt opts r = Some (Inr (0 + k, (advance nxt ^^ Suc k) r))"
      unfolding replay_count_def by (rule replay_loop_run [OF assms]) (use k in auto)
    with None show False by simp
  qed
next
  assume "\<forall>j. accepts (p_replay opts) (draw nxt j r)"
  then show "replay_count ndebug nxt opts r = None"
    unfolding replay_count_def by (intro replay_loop_diverges [OF assms]) simp
qed

text \<open>If it returns, it returns a count.\<close>

lemma replay_count_returns:
  assumes "0 \<le> p_replay opts" and "p_replay opts \<le> 1 - 1 / 2 ^ 53"
    and "replay_count ndebug nxt opts r = Some res"
  shows "\<exists>n r'. res = Inr (n, r')"
proof -
  obtain k where "\<not> accepts (p_replay opts) (draw nxt k r)"
    "\<And>j. j < k \<Longrightarrow> accepts (p_replay opts) (draw nxt j r)"
    using replay_count_None_iff [OF assms(1,2), of ndebug nxt r] assms(3)
      exists_least_iff [of "\<lambda>k. \<not> accepts (p_replay opts) (draw nxt k r)"] by auto
  from replay_loop_run [OF assms(1,2) this(2,1), where ndebug = ndebug and n = 0] assms(3)
  show ?thesis by (auto simp: replay_count_def)
qed

lemma accepts_0 [simp]: "\<not> accepts 0 v"
proof -
  have "(0 :: rat) < of_nat (Suc (unat v))" by (simp only: of_nat_0_less_iff)
  then show ?thesis by (simp add: accepts_def not_le add.commute)
qed

lemma replay_count_no_replays:
  "p_replay opts = 0 \<Longrightarrow> replay_count ndebug nxt opts r = Some (Inr (0, advance nxt r))"
  by (simp add: replay_count_def replay_loop_step)

lemma draw_xo_zero: "draw xo_next j xo_zero = 0"
proof -
  have "advance xo_next xo_zero = xo_zero"
    by (simp add: advance_def xo_next_def xo_step_zero)
  then have "(advance xo_next ^^ j) xo_zero = xo_zero" by (induction j) simp_all
  then show ?thesis by (simp add: draw_def xo_next_def xo_zero_def)
qed

section \<open>Properties\<close>

text \<open>with a valid latency range every drawn latency lies between the configured minimum
  and maximum, both included, and costs one draw; with \<open>min_latency = max_latency + 1\<close>, for
  instance a configured minimum and the default maximum of zero, the draw divides by zero.\<close>

theorem latency_in_configured_range:
  assumes "0 \<le> min_latency opts" and "min_latency opts \<le> max_latency opts"
    and "max_latency opts < 2 ^ 63 - 1"
  shows "\<exists>l. latency nxt opts r = Inr (l, advance nxt r) \<and>
           min_latency opts \<le> l \<and> l \<le> max_latency opts \<and>
           latency nxt (opts\<lparr>min_latency := max_latency opts + 1\<rparr>) r = Inl Div_by_zero"
proof -
  have lo: "- (2 ^ 63) \<le> min_latency opts" using assms(1) by simp
  have "add_ns (max_latency opts) 1 = Inr (max_latency opts + 1)"
    using assms by (simp add: add_ns_def)
  then have "latency nxt (opts\<lparr>min_latency := max_latency opts + 1\<rparr>) r = Inl Div_by_zero"
    by (simp add: latency_def gen_range_empty)
  then show ?thesis
    using latency_eq [OF lo assms(2,3), of nxt r]
      latency_between [OF lo assms(2,3), of nxt r] by auto
qed

theorem latency_in_configured_range_witness:
  "\<exists>l. latency xo_next (default_faults\<lparr>max_latency := 1000\<rparr>) xo_zero =
         Inr (l, advance xo_next xo_zero) \<and>
       min_latency (default_faults\<lparr>max_latency := 1000\<rparr>) \<le> l \<and>
       l \<le> max_latency (default_faults\<lparr>max_latency := 1000\<rparr>) \<and>
       latency xo_next (default_faults\<lparr>max_latency := 1000\<rparr>
         \<lparr>min_latency := max_latency (default_faults\<lparr>max_latency := 1000\<rparr>) + 1\<rparr>) xo_zero =
         Inl Div_by_zero"
  by (rule latency_in_configured_range) (simp_all add: default_faults_def)

text \<open>C36: \<^verbatim>\<open>replay_count\<close> returns n exactly when the first n draws accept the replay probability
  and draw n does not, having consumed n + 1 draws; it fails to return exactly when every draw
  accepts, which happens for the all-zero generator state and any probability of at least
  2^-64; with probability 0 it always returns 0.\<close>

theorem replay_count_spec:
  assumes "0 \<le> p_replay opts" and "p_replay opts \<le> 1 - 1 / 2 ^ 53"
  shows "(replay_count ndebug nxt opts r = Some (Inr (n, r')) \<longleftrightarrow>
            r' = (advance nxt ^^ Suc n) r \<and> \<not> accepts (p_replay opts) (draw nxt n r) \<and>
            (\<forall>j < n. accepts (p_replay opts) (draw nxt j r))) \<and>
         (replay_count ndebug nxt opts r = None \<longleftrightarrow>
            (\<forall>j. accepts (p_replay opts) (draw nxt j r))) \<and>
         (1 / 2 ^ 64 \<le> p_replay opts \<longrightarrow> replay_count ndebug xo_next opts xo_zero = None) \<and>
         (p_replay opts = 0 \<longrightarrow> replay_count ndebug nxt opts r = Some (Inr (0, advance nxt r)))"
  (is "?count \<and> ?never \<and> ?stuck \<and> ?zero")
proof (intro conjI)
  have run: "replay_count ndebug nxt opts r = Some (Inr (k, (advance nxt ^^ Suc k) r))"
    if "\<not> accepts (p_replay opts) (draw nxt k r)"
      "\<And>j. j < k \<Longrightarrow> accepts (p_replay opts) (draw nxt j r)" for k
    using replay_loop_run [OF assms that(2,1), where ndebug = ndebug and n = 0] by (simp add: replay_count_def)
  show ?count
  proof
    assume ret: "replay_count ndebug nxt opts r = Some (Inr (n, r'))"
    then obtain k where k: "\<not> accepts (p_replay opts) (draw nxt k r)"
      "\<And>j. j < k \<Longrightarrow> accepts (p_replay opts) (draw nxt j r)"
      using replay_count_None_iff [OF assms, of ndebug nxt r]
        exists_least_iff [of "\<lambda>k. \<not> accepts (p_replay opts) (draw nxt k r)"] by auto
    from run [OF this] ret k
    show "r' = (advance nxt ^^ Suc n) r \<and> \<not> accepts (p_replay opts) (draw nxt n r) \<and>
        (\<forall>j < n. accepts (p_replay opts) (draw nxt j r))" by simp
  qed (use run [of n] in auto)
  show ?never by (rule replay_count_None_iff [OF assms])
  show ?stuck
    by (simp add: replay_count_None_iff [OF assms] draw_xo_zero accepts_def divide_le_eq)
  show ?zero by (simp add: replay_count_no_replays)
qed

theorem replay_count_spec_witness:
  "replay_count True xo_next (default_faults\<lparr>p_replay := 1 / 2\<rparr>) xo_zero = None"
  using replay_count_spec [of "default_faults\<lparr>p_replay := 1 / 2\<rparr>" True xo_next]
  by (simp add: default_faults_def)

end
