(* ===== verification/Pqueue.thy ===== *)
theory Pqueue
  imports Prelude "HOL-Library.Multiset"
begin

text \<open>
  \<^verbatim>\<open>std::priority_queue\<close> over a \<^verbatim>\<open>std::vector\<close>, which the packet queue of
  src/net/datagram_socket.hpp is, with the binary heap of libstdc++: \<open>push\<close> moves a hole from
  the end of the vector to the root, \<open>pop\<close> moves a hole from the root to a leaf and the last
  element from there towards the root. \<open>key\<close> is the time a packet arrives; the comparison of
  the code is flipped, so the element with the least key is the greatest. The locale
  \<open>arrival_queue\<close> is the contract the packet queue needs.
\<close>

definition parent :: "nat \<Rightarrow> nat" where
  "parent i = (i - 1) div 2"

text \<open>\<^verbatim>\<open>__push_heap\<close>: the hole \<open>h\<close> moves up while the parent is greater than \<open>v\<close>.\<close>

function sift_up :: "('a \<Rightarrow> int) \<Rightarrow> 'a list \<Rightarrow> nat \<Rightarrow> 'a \<Rightarrow> 'a list" where
  "sift_up key xs h v =
     (if 0 < h \<and> key v < key (xs ! parent h)
      then sift_up key (xs[h := xs ! parent h]) (parent h) v
      else xs[h := v])"
  by pat_completeness auto
termination
  by (relation "measure (\<lambda>(key, xs, h, v). h)") (auto simp: parent_def)

text \<open>\<^verbatim>\<open>__adjust_heap\<close>: the hole moves down to a leaf, the smaller child moving up.\<close>

function sift_down :: "('a \<Rightarrow> int) \<Rightarrow> 'a list \<Rightarrow> nat \<Rightarrow> 'a list \<times> nat" where
  "sift_down key xs h =
     (if h < (length xs - 1) div 2 then
        (let r = 2 * (h + 1);
             c = (if key (xs ! r) > key (xs ! (r - 1)) then r - 1 else r)
         in sift_down key (xs[h := xs ! c]) c)
      else if even (length xs) \<and> h = (length xs - 2) div 2 then
        (let l = 2 * (h + 1) - 1 in (xs[h := xs ! l], l))
      else (xs, h))"
  by pat_completeness auto
termination
  by (relation "measure (\<lambda>(key, xs, h). length xs - h)") (auto simp: Let_def)

declare sift_up.simps [simp del] sift_down.simps [simp del]

definition pq_push :: "('a \<Rightarrow> int) \<Rightarrow> 'a \<Rightarrow> 'a list \<Rightarrow> 'a list" where
  "pq_push key x q = sift_up key (q @ [x]) (length q) x"

definition pq_top :: "'a list \<Rightarrow> 'a" where
  "pq_top q = hd q"

definition pq_pop :: "('a \<Rightarrow> int) \<Rightarrow> 'a list \<Rightarrow> 'a list" where
  "pq_pop key q =
     (if 1 < length q
      then (let (xs, h) = sift_down key (butlast q) 0 in sift_up key xs h (last q))
      else butlast q)"

section \<open>The heap order\<close>

definition heap :: "('a \<Rightarrow> int) \<Rightarrow> 'a list \<Rightarrow> bool" where
  "heap key xs \<longleftrightarrow> (\<forall>i. 0 < i \<and> i < length xs \<longrightarrow> key (xs ! parent i) \<le> key (xs ! i))"

text \<open>The heap order outside a hole, the children of the hole being ordered below its parent.\<close>

definition hole_heap :: "('a \<Rightarrow> int) \<Rightarrow> nat \<Rightarrow> 'a list \<Rightarrow> bool" where
  "hole_heap key h xs \<longleftrightarrow>
     (\<forall>i. 0 < i \<and> i < length xs \<and> i \<noteq> h \<longrightarrow>
        (if parent i = h then h = 0 \<or> key (xs ! parent h) \<le> key (xs ! i)
         else key (xs ! parent i) \<le> key (xs ! i)))"

definition above :: "('a \<Rightarrow> int) \<Rightarrow> 'a \<Rightarrow> nat \<Rightarrow> 'a list \<Rightarrow> bool" where
  "above key v h xs \<longleftrightarrow>
     (\<forall>i. 0 < i \<and> i < length xs \<and> parent i = h \<longrightarrow> key v \<le> key (xs ! i))"

lemma parent_less [simp]: "0 < i \<Longrightarrow> parent i < i"
  by (auto simp: parent_def)

lemma parent_le [simp]: "parent i \<le> i"
  by (auto simp: parent_def)

lemma heapD: "heap key xs \<Longrightarrow> 0 < i \<Longrightarrow> i < length xs \<Longrightarrow> key (xs ! parent i) \<le> key (xs ! i)"
  by (simp add: heap_def)

lemma heap_root:
  assumes "heap key xs" and "i < length xs"
  shows "key (xs ! 0) \<le> key (xs ! i)"
  using assms(2)
proof (induction i rule: less_induct)
  case (less i)
  show ?case
  proof (cases "i = 0")
    case False
    then have "key (xs ! 0) \<le> key (xs ! parent i)" using less by simp
    then show ?thesis using heapD [OF assms(1), of i] False less.prems by simp
  qed simp
qed

lemma sift_up_step:
  assumes "h < length xs" and "0 < h" and "key v < key (xs ! parent h)"
    and "hole_heap key h xs" and "above key v h xs"
  shows "hole_heap key (parent h) (xs[h := xs ! parent h])"
    and "above key v (parent h) (xs[h := xs ! parent h])"
proof -
  let ?ys = "xs[h := xs ! parent h]"
  have p: "parent h < h" using assms(2) by simp
  have nth: "?ys ! i = (if i = h then xs ! parent h else xs ! i)" for i
    using assms(1) by (simp add: nth_list_update)
  have other: "key (xs ! parent h) \<le> key (xs ! i)"
    if "0 < i" "i < length xs" "i \<noteq> h" "parent i = parent h \<or> parent i = h" for i
    using assms(4) that p assms(2) unfolding hole_heap_def by (metis less_irrefl)
  show "above key v (parent h) ?ys"
    unfolding above_def using other assms(3) by (auto simp: nth intro: order_trans [OF less_imp_le])
  have "key (xs ! parent i) \<le> key (xs ! i)"
    if "0 < i" "i < length xs" "i \<noteq> h" "parent i \<noteq> h" for i
    using assms(4) that unfolding hole_heap_def by metis
  then have edge: "key (xs ! parent i) \<le> key (xs ! i)"
    if "0 < i" "i < length xs" "i \<noteq> h" "parent i \<noteq> h" for i
    using that by blast
  have up: "key (xs ! parent (parent h)) \<le> key (xs ! parent h)" if "parent h \<noteq> 0"
    using edge [of "parent h"] that p assms(1) parent_le [of "parent h"] by simp
  show "hole_heap key (parent h) ?ys"
    unfolding hole_heap_def
  proof (intro allI impI)
    fix i assume i: "0 < i \<and> i < length ?ys \<and> i \<noteq> parent h"
    have pp: "parent (parent h) \<noteq> h" using p parent_le [of "parent h"] by linarith
    show "if parent i = parent h then parent h = 0 \<or> key (?ys ! parent (parent h)) \<le> key (?ys ! i)
      else key (?ys ! parent i) \<le> key (?ys ! i)"
    proof (cases "i = h")
      case True
      then show ?thesis using up pp by (auto simp: nth)
    next
      case False
      show ?thesis
      proof (cases "parent i = parent h")
        case True
        then show ?thesis using other [of i] up pp i False by (fastforce simp: nth)
      next
        case np: False
        then show ?thesis using other [of i] edge [of i] i False by (auto simp: nth)
      qed
    qed
  qed
qed

lemma length_sift_up [simp]: "length (sift_up key xs h v) = length xs"
proof (induction key xs h v rule: sift_up.induct)
  case (1 key xs h v)
  then show ?case by (subst sift_up.simps) simp
qed

lemma heap_sift_up:
  assumes "h < length xs" and "hole_heap key h xs" and "above key v h xs"
  shows "heap key (sift_up key xs h v)"
  using assms
proof (induction key xs h v rule: sift_up.induct)
  case (1 key xs h v)
  show ?case
  proof (cases "0 < h \<and> key v < key (xs ! parent h)")
    case True
    then have "heap key (sift_up key (xs[h := xs ! parent h]) (parent h) v)"
      using "1.prems" sift_up_step [of h xs key v]
      by (intro "1.IH") (auto intro: le_less_trans [OF parent_le])
    then show ?thesis using True by (subst sift_up.simps) simp
  next
    case False
    have "key (xs[h := v] ! parent i) \<le> key (xs[h := v] ! i)" if i: "0 < i" "i < length xs" for i
    proof (cases "i = h \<or> parent i = h")
      case True
      then show ?thesis
        using i False "1.prems"(1,3) parent_less [of i]
        by (auto simp: above_def nth_list_update)
    next
      case ne: False
      then show ?thesis
        using i "1.prems"(2) by (auto simp: hole_heap_def nth_list_update)
    qed
    then have "heap key (xs[h := v])" by (simp add: heap_def)
    then show ?thesis by (simp only: sift_up.simps [of key xs h v] False if_False)
  qed
qed

text \<open>A move of the hole permutes what the vector holds once the hole is filled.\<close>

lemma mset_move_hole:
  assumes "h < length xs" and "c < length xs" and "c \<noteq> h"
  shows "mset (xs[h := xs ! c, c := v]) = mset (xs[h := v])"
proof -
  have "xs[h := xs ! c, c := v] = (xs[h := v])[h := xs[h := v] ! c, c := xs[h := v] ! h]"
    using assms by (simp add: nth_list_update)
  also have "mset \<dots> = mset (xs[h := v])"
    using assms by (intro mset_swap) simp_all
  finally show ?thesis .
qed

lemma mset_sift_up:
  assumes "h < length xs"
  shows "mset (sift_up key xs h v) = mset (xs[h := v])"
  using assms
proof (induction key xs h v rule: sift_up.induct)
  case (1 key xs h v)
  show ?case
  proof (cases "0 < h \<and> key v < key (xs ! parent h)")
    case True
    then have p: "parent h < h" by simp
    have "mset (sift_up key xs h v) = mset (sift_up key (xs[h := xs ! parent h]) (parent h) v)"
      using True by (subst sift_up.simps) simp
    also have "\<dots> = mset (xs[h := xs ! parent h, parent h := v])"
      using "1.IH" [OF True] p "1.prems" by simp
    also have "\<dots> = mset (xs[h := v])"
      using p "1.prems" by (intro mset_move_hole) simp_all
    finally show ?thesis .
  next
    case False
    then show ?thesis by (simp only: sift_up.simps [of key xs h v] False if_False)
  qed
qed

section \<open>Moving the hole down\<close>

lemma child_cases:
  assumes "0 < i" and "parent i = h"
  shows "i = 2 * (h + 1) \<or> i = 2 * (h + 1) - 1"
  using assms by (auto simp: parent_def)

lemma parent_child [simp]: "parent (2 * (h + 1)) = h" "parent (2 * (h + 1) - 1) = h"
  by (simp_all add: parent_def)

lemma hole_heap_down:
  assumes "h < length xs" and "hole_heap key h xs" and "c < length xs" and "0 < c" and "parent c = h"
    and "\<And>i. 0 < i \<Longrightarrow> i < length xs \<Longrightarrow> parent i = h \<Longrightarrow> key (xs ! c) \<le> key (xs ! i)"
  shows "hole_heap key c (xs[h := xs ! c])"
  unfolding hole_heap_def
proof (intro allI impI)
  fix i assume i: "0 < i \<and> i < length (xs[h := xs ! c]) \<and> i \<noteq> c"
  have c: "h < c" using parent_less [OF assms(4)] assms(5) by simp
  have nth: "xs[h := xs ! c] ! j = (if j = h then xs ! c else xs ! j)" for j
    using assms(1) by (simp add: nth_list_update)
  have edge: "key (xs ! parent j) \<le> key (xs ! j)"
    if "0 < j" "j < length xs" "j \<noteq> h" "parent j \<noteq> h" for j
    using assms(2) that unfolding hole_heap_def by metis
  have skip: "key (xs ! parent h) \<le> key (xs ! c)" if "h \<noteq> 0"
    using assms(2-5) c that unfolding hole_heap_def by (metis less_irrefl)
  have pi: "parent i < i" using i by simp
  show "if parent i = c then c = 0 \<or> key (xs[h := xs ! c] ! parent c) \<le> key (xs[h := xs ! c] ! i)
    else key (xs[h := xs ! c] ! parent i) \<le> key (xs[h := xs ! c] ! i)"
  proof (cases "parent i = c")
    case True
    then have "key (xs ! c) \<le> key (xs ! i)" using edge [of i] i c pi by auto
    then show ?thesis using True assms(5) c pi by (auto simp: nth)
  next
    case False
    then show ?thesis
      using edge [of i] assms(6) [of i] skip i c pi by (auto simp: nth)
  qed
qed

definition leaf :: "nat \<Rightarrow> 'a list \<Rightarrow> bool" where
  "leaf h xs \<longleftrightarrow> length xs \<le> 2 * h + 1"

lemma above_leaf: "leaf h xs \<Longrightarrow> above key v h xs"
  unfolding above_def leaf_def by (auto dest: child_cases)

lemma sift_down_spec:
  assumes "h < length xs" and "hole_heap key h xs" and "sift_down key xs h = (ys, k)"
  shows "length ys = length xs \<and> k < length ys \<and> leaf k ys \<and> hole_heap key k ys \<and>
    mset (ys[k := v]) = mset (xs[h := v])"
  using assms
proof (induction key xs h rule: sift_down.induct)
  case (1 key xs h)
  consider (two) "h < (length xs - 1) div 2"
    | (one) "\<not> h < (length xs - 1) div 2" "even (length xs)" "h = (length xs - 2) div 2"
    | (none) "\<not> h < (length xs - 1) div 2" "\<not> (even (length xs) \<and> h = (length xs - 2) div 2)"
    by blast
  then show ?case
  proof cases
    case two
    let ?r = "2 * (h + 1)"
    let ?c = "if key (xs ! ?r) > key (xs ! (?r - 1)) then ?r - 1 else ?r"
    have c: "?c < length xs" "0 < ?c" "?c \<noteq> h" "parent ?c = h"
      using two by (auto simp: parent_def)
    have "hole_heap key ?c (xs[h := xs ! ?c])"
      using "1.prems"(1,2) c by (intro hole_heap_down) (auto dest!: child_cases)
    moreover have "sift_down key (xs[h := xs ! ?c]) ?c = (ys, k)"
      using "1.prems"(3) by (simp only: sift_down.simps [of key xs h] two if_True Let_def)
    ultimately have "length ys = length xs \<and> k < length ys \<and> leaf k ys \<and> hole_heap key k ys \<and>
        mset (ys[k := v]) = mset (xs[h := xs ! ?c, ?c := v])"
      using "1.IH" [OF two refl refl] c by simp
    moreover have "mset (xs[h := xs ! ?c, ?c := v]) = mset (xs[h := v])"
      using "1.prems"(1) c by (intro mset_move_hole)
    ultimately show ?thesis by simp
  next
    case one
    let ?l = "2 * (h + 1) - 1"
    obtain b where b: "length xs = 2 * b" using one(2) by (rule evenE)
    have "h = b - 1" "0 < b" using one(3) "1.prems"(1) b by simp_all
    then have l: "?l < length xs" "0 < ?l" "?l \<noteq> h" "length xs = 2 * (h + 1)"
      using b by simp_all
    have res: "ys = xs[h := xs ! ?l]" "k = ?l"
      using "1.prems"(3) one by (subst (asm) sift_down.simps, simp add: Let_def)+
    have "hole_heap key ?l (xs[h := xs ! ?l])"
      using "1.prems"(1,2) l by (intro hole_heap_down) (auto dest!: child_cases simp: parent_def)
    moreover have "mset (xs[h := xs ! ?l, ?l := v]) = mset (xs[h := v])"
      using "1.prems"(1) l by (intro mset_move_hole)
    ultimately show ?thesis using res l by (auto simp: leaf_def)
  next
    case none
    then have "ys = xs" "k = h"
      using "1.prems"(3) by (simp_all only: sift_down.simps [of key xs h] if_False prod.inject)
    moreover have "leaf h xs"
      using none "1.prems"(1) unfolding leaf_def by presburger
    ultimately show ?thesis using "1.prems" by simp
  qed
qed

section \<open>Push and pop\<close>

lemma heap_Nil [simp]: "heap key []"
  by (simp add: heap_def)

lemma heap_butlast: "heap key xs \<Longrightarrow> heap key (butlast xs)"
  unfolding heap_def
proof (intro allI impI)
  fix i
  assume h: "\<forall>i. 0 < i \<and> i < length xs \<longrightarrow> key (xs ! parent i) \<le> key (xs ! i)"
    and "0 < i \<and> i < length (butlast xs)"
  then have i: "0 < i" "i < length (butlast xs)" "i < length xs" by auto
  have "parent i < length (butlast xs)" using le_less_trans [OF parent_le i(2)] .
  then show "key (butlast xs ! parent i) \<le> key (butlast xs ! i)"
    using h i by (simp only: nth_butlast)
qed

lemma hole_heap_of_heap:
  assumes "heap key xs"
  shows "hole_heap key 0 xs" "hole_heap key (length xs) (xs @ [x])"
  using assms by (auto simp: hole_heap_def heap_def nth_append parent_def)

lemma heap_push: "heap key q \<Longrightarrow> heap key (pq_push key x q)"
  unfolding pq_push_def
  by (rule heap_sift_up) (auto simp: hole_heap_of_heap leaf_def intro: above_leaf)

lemma mset_push: "mset (pq_push key x q) = add_mset x (mset q)"
  by (simp add: pq_push_def mset_sift_up)

lemma pop_cases:
  assumes "1 < length q" and "sift_down key (butlast q) 0 = (ys, k)" and "heap key q"
  shows "pq_pop key q = sift_up key ys k (last q)"
    and "k < length ys" "leaf k ys" "hole_heap key k ys"
    and "mset (ys[k := last q]) = mset ((butlast q)[0 := last q])"
proof -
  have "0 < length (butlast q)" using assms(1) by simp
  note spec = sift_down_spec [OF this hole_heap_of_heap(1) [OF heap_butlast [OF assms(3)]] assms(2)]
  show "k < length ys" "leaf k ys" "hole_heap key k ys"
    and "mset (ys[k := last q]) = mset ((butlast q)[0 := last q])"
    using spec [of "last q"] by blast+
  show "pq_pop key q = sift_up key ys k (last q)"
    using assms(1,2) by (simp add: pq_pop_def)
qed

lemma heap_pop: "heap key q \<Longrightarrow> heap key (pq_pop key q)"
proof (cases "1 < length q")
  case True
  assume h: "heap key q"
  obtain ys k where eq: "sift_down key (butlast q) 0 = (ys, k)" by fastforce
  note p = pop_cases [OF True eq h]
  show ?thesis unfolding p(1) by (rule heap_sift_up) (use p above_leaf in auto)
qed (simp add: pq_pop_def heap_butlast)

lemma mset_pop:
  assumes "heap key q" and "q \<noteq> []"
  shows "mset q = add_mset (pq_top q) (mset (pq_pop key q))"
proof (cases "1 < length q")
  case True
  obtain ys k where eq: "sift_down key (butlast q) 0 = (ys, k)" by fastforce
  note p = pop_cases [OF True eq assms(1)]
  obtain a zs where q: "q = a # zs" "zs \<noteq> []" using True by (cases q) auto
  have "mset (pq_pop key q) = mset ((butlast q)[0 := last q])"
    unfolding p(1) mset_sift_up [OF p(2)] p(5) ..
  also have "\<dots> = add_mset (last zs) (mset (butlast zs))" using q by simp
  also have "\<dots> = mset (butlast zs @ [last zs])" by simp
  also have "\<dots> = mset zs" unfolding append_butlast_last_id [OF q(2)] ..
  finally show ?thesis using q by (simp add: pq_top_def)
next
  case False
  then show ?thesis using assms(2) by (cases q) (auto simp: pq_pop_def pq_top_def)
qed

section \<open>The contract of an arrival queue\<close>

locale arrival_queue =
  fixes key :: "'a \<Rightarrow> int" and ok :: "'q \<Rightarrow> bool" and elems :: "'q \<Rightarrow> 'a multiset"
    and push :: "'a \<Rightarrow> 'q \<Rightarrow> 'q" and top :: "'q \<Rightarrow> 'a" and pop :: "'q \<Rightarrow> 'q"
  assumes push_ok: "ok q \<Longrightarrow> ok (push x q)"
    and push_elems: "elems (push x q) = add_mset x (elems q)"
    and pop_ok: "ok q \<Longrightarrow> ok (pop q)"
    and pop_elems: "ok q \<Longrightarrow> elems q \<noteq> {#} \<Longrightarrow> elems q = add_mset (top q) (elems (pop q))"
    and top_least: "ok q \<Longrightarrow> x \<in># elems q \<Longrightarrow> key (top q) \<le> key x"
begin

lemma top_in: "ok q \<Longrightarrow> elems q \<noteq> {#} \<Longrightarrow> top q \<in># elems q"
  using pop_elems [of q] by (metis union_single_eq_member)

lemma pushes:
  assumes "ok q"
  shows "ok (fold push xs q) \<and> elems (fold push xs q) = elems q + mset xs"
  using assms by (induction xs arbitrary: q) (simp_all add: push_ok push_elems)

text \<open>Elements leave in the order of their keys.\<close>

lemma pop_ordered:
  assumes "ok q" and "elems q \<noteq> {#}" and "elems (pop q) \<noteq> {#}"
  shows "key (top q) \<le> key (top (pop q))"
proof -
  have "top (pop q) \<in># elems q"
    using top_in [OF pop_ok [OF assms(1)] assms(3)] pop_elems [OF assms(1,2)] by simp
  then show ?thesis by (rule top_least [OF assms(1)])
qed

end

interpretation pq: arrival_queue key "heap key" mset "pq_push key" pq_top "pq_pop key"
proof (unfold_locales, goal_cases)
  case (5 q x)
  then obtain i where "i < length q" "x = q ! i" by (auto simp: in_set_conv_nth)
  moreover then have "pq_top q = q ! 0" by (cases q) (auto simp: pq_top_def)
  ultimately show ?case using heap_root [OF 5(1)] by simp
qed (auto intro: heap_push mset_push heap_pop mset_pop)

end
