(* ===== verification/Datagram.thy ===== *)
theory Datagram
  imports Fault Sock_Addr Pqueue
begin

text \<open>
  The lossy one-way packet queue of a datagram socket, \<^verbatim>\<open>datagram_pipe\<close> of
  src/net/datagram_socket.hpp and .cpp. A time is a count of nanoseconds of the steady clock;
  the time at which an operation reads the clock is its argument. Each operation works under
  the mutex of the pipe, so it is one step; a receiver that has to wait for a packet or for the
  arrival of the first one is \<^const>\<open>Blocked\<close>.

  The assertion on the packet size in \<^verbatim>\<open>send\<close> names a constant that no file declares, so the
  file compiles only where \<^verbatim>\<open>assert\<close> expands to nothing; the model is of that build.
\<close>

record packet =
  arrival :: int
  payload :: bytes
  consumed :: u64
  sender :: socket_addr

record datagram_pipe =
  packets :: "packet list"
  faults :: net_fault_options
  pipe_rng :: xoshiro

definition packet_less :: "packet \<Rightarrow> packet \<Rightarrow> bool" where
  "packet_less lhs rhs \<longleftrightarrow> arrival lhs > arrival rhs"

definition remaining :: "packet \<Rightarrow> bytes" where
  "remaining p = drop (unat (consumed p)) (payload p)"

definition pipe_init :: "net_fault_options \<Rightarrow> datagram_pipe" where
  "pipe_init opts = \<lparr>packets = [], faults = opts, pipe_rng = xo_zero\<rparr>"

definition pipe_seed :: "('r \<Rightarrow> u64 \<times> 'r) \<Rightarrow> 'r \<Rightarrow> datagram_pipe \<Rightarrow> datagram_pipe \<times> 'r" where
  "pipe_seed nxt r pipe =
     (let (s, r') = seed_from nxt r in (pipe\<lparr>pipe_rng := s\<rparr>, r'))"

text \<open>The loop that draws the replays: each arrives after twice a latency of its own.\<close>

definition mul_ns :: "int \<Rightarrow> int \<Rightarrow> trap + int" where
  "mul_ns a b = (if - (2 ^ 63) \<le> a * b \<and> a * b < 2 ^ 63 then Inr (a * b) else Inl Overflow)"

fun draw_replays ::
  "nat \<Rightarrow> int \<Rightarrow> net_fault_options \<Rightarrow> packet \<Rightarrow> xoshiro \<Rightarrow> trap + packet list \<times> xoshiro" where
  "draw_replays 0 now opts p r = Inr ([], r)"
| "draw_replays (Suc n) now opts p r =
     (case latency xo_next opts r of
        Inl t \<Rightarrow> Inl t
      | Inr (l, r1) \<Rightarrow>
         (case mul_ns l 2 of
            Inl t \<Rightarrow> Inl t
          | Inr l2 \<Rightarrow>
             (case add_ns now l2 of
                Inl t \<Rightarrow> Inl t
              | Inr a \<Rightarrow>
                 (case draw_replays n now opts p r1 of
                    Inl t \<Rightarrow> Inl t
                  | Inr (ps, r2) \<Rightarrow> Inr (p\<lparr>arrival := a\<rparr> # ps, r2)))))"

definition push_all :: "packet list \<Rightarrow> packet list \<Rightarrow> packet list" where
  "push_all ps q = fold (pq_push arrival) ps q"

text \<open>\<^const>\<open>None\<close>: the replay loop does not return. The \<^verbatim>\<open>assert\<close>s are off.\<close>

definition pipe_send ::
  "(rat \<Rightarrow> xoshiro \<Rightarrow> bool \<times> xoshiro) \<Rightarrow> int \<Rightarrow> bytes \<Rightarrow> socket_addr \<Rightarrow> datagram_pipe \<Rightarrow>
   (trap + datagram_pipe) option" where
  "pipe_send bern now data from_addr pipe =
     (let opts = faults pipe; (drop_it, r1) = should_drop bern opts (pipe_rng pipe)
      in if drop_it then Some (Inr (pipe\<lparr>pipe_rng := r1\<rparr>))
         else
          (case latency xo_next opts r1 of
             Inl t \<Rightarrow> Some (Inl t)
           | Inr (l, r2) \<Rightarrow>
              (case add_ns now l of
                 Inl t \<Rightarrow> Some (Inl t)
               | Inr a \<Rightarrow>
                  (let p = \<lparr>arrival = a, payload = data, consumed = 0, sender = from_addr\<rparr>
                   in case replay_count True xo_next opts r2 of
                        None \<Rightarrow> None
                      | Some (Inl t) \<Rightarrow> Some (Inl t)
                      | Some (Inr (n, r3)) \<Rightarrow>
                         (case draw_replays n now opts p r3 of
                            Inl t \<Rightarrow> Some (Inl t)
                          | Inr (replays, r4) \<Rightarrow>
                             Some (Inr (pipe\<lparr>packets := push_all (p # replays) (packets pipe),
                                             pipe_rng := r4\<rparr>)))))))"

definition pipe_recv ::
  "int \<Rightarrow> datagram_pipe \<Rightarrow> (bytes \<times> socket_addr, datagram_pipe) outcome" where
  "pipe_recv now pipe =
     (if packets pipe = [] then Blocked
      else let p = pq_top (packets pipe)
           in if arrival p > now then Blocked
              else Done (payload p, sender p) (pipe\<lparr>packets := pq_pop arrival (packets pipe)\<rparr>))"

section \<open>Valid options\<close>

text \<open>Latencies between 0 and 2^61 ns, about 73 years, and probabilities below 1; a clock below
  2^62 ns, about 146 years since the system started.\<close>

definition valid_faults :: "net_fault_options \<Rightarrow> bool" where
  "valid_faults opts \<longleftrightarrow> 0 \<le> min_latency opts \<and> min_latency opts \<le> max_latency opts \<and>
     max_latency opts < 2 ^ 61 \<and> 0 \<le> p_replay opts \<and> p_replay opts \<le> 1 - 1 / 2 ^ 53"

definition valid_time :: "int \<Rightarrow> bool" where
  "valid_time t \<longleftrightarrow> 0 \<le> t \<and> t < 2 ^ 62"

definition pipe_ok :: "datagram_pipe \<Rightarrow> bool" where
  "pipe_ok pipe \<longleftrightarrow> heap arrival (packets pipe) \<and> valid_faults (faults pipe)"

text \<open>The copies of a packet that a transmission at \<open>now\<close> may leave in the queue.\<close>

definition original :: "int \<Rightarrow> net_fault_options \<Rightarrow> bytes \<Rightarrow> socket_addr \<Rightarrow> packet \<Rightarrow> bool" where
  "original now opts data addr p \<longleftrightarrow> payload p = data \<and> sender p = addr \<and> consumed p = 0 \<and>
     now + min_latency opts \<le> arrival p \<and> arrival p \<le> now + max_latency opts"

definition replayed :: "int \<Rightarrow> net_fault_options \<Rightarrow> bytes \<Rightarrow> socket_addr \<Rightarrow> packet \<Rightarrow> bool" where
  "replayed now opts data addr p \<longleftrightarrow> payload p = data \<and> sender p = addr \<and> consumed p = 0 \<and>
     now + 2 * min_latency opts \<le> arrival p \<and> arrival p \<le> now + 2 * max_latency opts"

lemma latency_valid:
  assumes "valid_faults opts"
  shows "\<exists>l. latency xo_next opts r = Inr (l, advance xo_next r) \<and>
    min_latency opts \<le> l \<and> l \<le> max_latency opts \<and> 0 \<le> l \<and> l < 2 ^ 61"
proof -
  have b: "- (2 ^ 63) \<le> min_latency opts" "min_latency opts \<le> max_latency opts"
    "max_latency opts < 2 ^ 63 - 1" "0 \<le> min_latency opts" "max_latency opts < 2 ^ 61"
    using assms by (auto simp: valid_faults_def)
  obtain l where l: "latency xo_next opts r = Inr (l, advance xo_next r)"
    using latency_eq [OF b(1-3), of xo_next r] by simp
  with latency_between [OF b(1-3) l] b(4,5) show ?thesis by auto
qed

lemma draw_replays_valid:
  assumes "valid_faults opts" and "valid_time now" and "consumed p = 0"
  shows "\<exists>ps r'. draw_replays n now opts p r = Inr (ps, r') \<and> length ps = n \<and>
    (\<forall>q \<in> set ps. replayed now opts (payload p) (sender p) q)"
proof (induction n arbitrary: r)
  case (Suc n)
  obtain l where l: "latency xo_next opts r = Inr (l, advance xo_next r)"
    "min_latency opts \<le> l" "l \<le> max_latency opts" "0 \<le> l" "l < 2 ^ 61"
    using latency_valid [OF assms(1)] by blast
  obtain ps r' where ps: "draw_replays n now opts p (advance xo_next r) = Inr (ps, r')"
    "length ps = n" "\<forall>q \<in> set ps. replayed now opts (payload p) (sender p) q"
    using Suc.IH by blast
  have "mul_ns l 2 = Inr (l * 2)" "add_ns now (l * 2) = Inr (now + l * 2)"
    using l assms(2) by (auto simp: mul_ns_def add_ns_def valid_time_def)
  then have eq: "draw_replays (Suc n) now opts p r = Inr (p\<lparr>arrival := now + l * 2\<rparr> # ps, r')"
    by (simp add: l(1) ps(1))
  have "replayed now opts (payload p) (sender p) (p\<lparr>arrival := now + l * 2\<rparr>)"
    using l(2,3) assms(3) by (simp add: replayed_def)
  with ps(2,3) eq show ?case by (intro exI) auto
qed simp

text \<open>What a transmission does: it loses the packet, or queues it and its replays.\<close>

lemma pipe_send_cases:
  assumes "pipe_ok pipe" and "valid_time now" and "pipe_send bern now data addr pipe = Some res"
  obtains (dropped) r where "res = Inr (pipe\<lparr>pipe_rng := r\<rparr>)"
      and "fst (bern (p_drop (faults pipe)) (pipe_rng pipe))"
  | (queued) p ps r where
      "res = Inr (pipe\<lparr>packets := push_all (p # ps) (packets pipe), pipe_rng := r\<rparr>)"
      and "\<not> fst (bern (p_drop (faults pipe)) (pipe_rng pipe))"
      and "original now (faults pipe) data addr p"
      and "list_all (replayed now (faults pipe) data addr) ps"
      and "p_replay (faults pipe) = 0 \<Longrightarrow> ps = []"
proof (cases "bern (p_drop (faults pipe)) (pipe_rng pipe)")
  case (Pair d r1)
  have v: "valid_faults (faults pipe)" using assms(1) by (simp add: pipe_ok_def)
  show ?thesis
  proof (cases d)
    case True
    then show ?thesis using assms(3) Pair
      by (intro dropped) (auto simp: pipe_send_def should_drop_def)
  next
    case False
    obtain l where l: "latency xo_next (faults pipe) r1 = Inr (l, advance xo_next r1)"
      "min_latency (faults pipe) \<le> l" "l \<le> max_latency (faults pipe)" "0 \<le> l" "l < 2 ^ 61"
      using latency_valid [OF v] by blast
    have a: "add_ns now l = Inr (now + l)"
      using l assms(2) by (auto simp: add_ns_def valid_time_def)
    let ?p = "\<lparr>arrival = now + l, payload = data, consumed = 0, sender = addr\<rparr>"
    let ?c = "replay_count True xo_next (faults pipe) (advance xo_next r1)"
    have send: "pipe_send bern now data addr pipe =
      (case ?c of None \<Rightarrow> None | Some (Inl t) \<Rightarrow> Some (Inl t)
       | Some (Inr (n, r3)) \<Rightarrow>
          (case draw_replays n now (faults pipe) ?p r3 of Inl t \<Rightarrow> Some (Inl t)
           | Inr (replays, r4) \<Rightarrow> Some (Inr (pipe\<lparr>packets := push_all (?p # replays) (packets pipe),
                                             pipe_rng := r4\<rparr>))))"
      using Pair False l(1) a by (simp add: pipe_send_def should_drop_def Let_def)
    obtain n r3 where c: "?c = Some (Inr (n, r3))"
      using assms(3) send replay_count_returns [of "faults pipe" True xo_next "advance xo_next r1"] v
      by (auto simp: valid_faults_def split: option.splits)
    obtain ps r4 where ps: "draw_replays n now (faults pipe) ?p r3 = Inr (ps, r4)"
      "length ps = n" "\<forall>q \<in> set ps. replayed now (faults pipe) data addr q"
      using draw_replays_valid [OF v assms(2), of ?p n r3] by auto
    show ?thesis
    proof (rule queued)
      show "res = Inr (pipe\<lparr>packets := push_all (?p # ps) (packets pipe), pipe_rng := r4\<rparr>)"
        using assms(3) send c ps(1) by simp
      show "original now (faults pipe) data addr ?p"
        using l by (simp add: original_def)
      show "list_all (replayed now (faults pipe) data addr) ps"
        using ps(3) by (simp add: list_all_iff)
      show "\<not> fst (bern (p_drop (faults pipe)) (pipe_rng pipe))" using Pair False by simp
      assume "p_replay (faults pipe) = 0"
      then have "n = 0" using c by (simp add: replay_count_no_replays)
      then show "ps = []" using ps(2) by simp
    qed
  qed
qed

lemma pipe_send_returns:
  assumes "pipe_ok pipe" and "valid_time now" and "p_replay (faults pipe) = 0"
  shows "\<exists>res. pipe_send bern now data addr pipe = Some res"
proof -
  have n: "replay_count True xo_next (faults pipe) r = Some (Inr (0, advance xo_next r))" for r
    using assms(3) by (rule replay_count_no_replays)
  show ?thesis
    by (simp add: pipe_send_def case_prod_beta Let_def n split: sum.split)
qed

lemma push_all_queue:
  assumes "heap arrival q"
  shows "heap arrival (push_all ps q) \<and> mset (push_all ps q) = mset q + mset ps"
  using pq.pushes [OF assms] by (simp add: push_all_def)

lemma set_push_all: "heap arrival q \<Longrightarrow> set (push_all ps q) = set q \<union> set ps"
  using push_all_queue [of q ps] by (metis set_mset_mset set_mset_union)

lemma pipe_send_keeps:
  assumes "pipe_ok pipe" and "valid_time now" and "pipe_send bern now data addr pipe = Some res"
  shows "\<exists>pipe'. res = Inr pipe' \<and> pipe_ok pipe' \<and> faults pipe' = faults pipe"
  using assms(1)
  by (cases rule: pipe_send_cases [OF assms]) (auto simp: pipe_ok_def push_all_queue)

text \<open>What a reception does: it takes the earliest packet when it is due, or blocks.\<close>

lemma pipe_recv_Blocked_iff:
  assumes "pipe_ok pipe"
  shows "pipe_recv now pipe = Blocked \<longleftrightarrow> (\<forall>p \<in> set (packets pipe). now < arrival p)"
proof (cases "packets pipe = []")
  case False
  have h: "heap arrival (packets pipe)" using assms by (simp add: pipe_ok_def)
  have "pq_top (packets pipe) \<in> set (packets pipe)"
    using pq.top_in [OF h] False by simp
  moreover have "arrival (pq_top (packets pipe)) \<le> arrival p" if "p \<in> set (packets pipe)" for p
    using pq.top_least [OF h] that by simp
  ultimately show ?thesis
    using False by (auto simp: pipe_recv_def Let_def intro: less_le_trans)
qed (simp add: pipe_recv_def)

lemma pipe_recv_Done:
  assumes "pipe_ok pipe" and "pipe_recv now pipe = Done (data, addr) pipe'"
  obtains p where "mset (packets pipe) = add_mset p (mset (packets pipe'))"
    and "payload p = data" "sender p = addr" "arrival p \<le> now"
    and "\<And>x. x \<in> set (packets pipe) \<Longrightarrow> arrival p \<le> arrival x"
    and "pipe_ok pipe'" "faults pipe' = faults pipe"
proof -
  have h: "heap arrival (packets pipe)" using assms(1) by (simp add: pipe_ok_def)
  have ne: "packets pipe \<noteq> []" using assms(2) by (auto simp: pipe_recv_def)
  then have res: "pipe' = pipe\<lparr>packets := pq_pop arrival (packets pipe)\<rparr>"
    "data = payload (pq_top (packets pipe))" "addr = sender (pq_top (packets pipe))"
    "arrival (pq_top (packets pipe)) \<le> now"
    using assms(2) by (auto simp: pipe_recv_def Let_def split: if_splits)
  show ?thesis
  proof (rule that [of "pq_top (packets pipe)"])
    show "mset (packets pipe) = add_mset (pq_top (packets pipe)) (mset (packets pipe'))"
      using res ne pq.pop_elems [OF h] by simp
    show "arrival (pq_top (packets pipe)) \<le> arrival x" if "x \<in> set (packets pipe)" for x
      using pq.top_least [OF h] that by simp
    show "pipe_ok pipe'" using assms(1) res pq.pop_ok [OF h] by (simp add: pipe_ok_def)
  qed (use res in simp_all)
qed

section \<open>Histories\<close>

datatype pipe_event = Sent int bytes socket_addr | Received int bytes socket_addr

inductive pipe_trace ::
  "(rat \<Rightarrow> xoshiro \<Rightarrow> bool \<times> xoshiro) \<Rightarrow> datagram_pipe \<Rightarrow> pipe_event list \<Rightarrow> datagram_pipe \<Rightarrow> bool"
  for bern pipe where
  start: "pipe_trace bern pipe [] pipe"
| send: "pipe_trace bern pipe es q \<Longrightarrow> valid_time now \<Longrightarrow>
    pipe_send bern now data addr q = Some (Inr q') \<Longrightarrow>
    pipe_trace bern pipe (es @ [Sent now data addr]) q'"
| recv: "pipe_trace bern pipe es q \<Longrightarrow> pipe_recv now q = Done (data, addr) q' \<Longrightarrow>
    pipe_trace bern pipe (es @ [Received now data addr]) q'"

definition sent_msgs :: "pipe_event list \<Rightarrow> (bytes \<times> socket_addr) multiset" where
  "sent_msgs es = mset (concat (map (\<lambda>e. case e of Sent t d a \<Rightarrow> [(d, a)] | _ \<Rightarrow> []) es))"

definition received_msgs :: "pipe_event list \<Rightarrow> (bytes \<times> socket_addr) multiset" where
  "received_msgs es = mset (concat (map (\<lambda>e. case e of Received t d a \<Rightarrow> [(d, a)] | _ \<Rightarrow> []) es))"

definition queued_msgs :: "datagram_pipe \<Rightarrow> (bytes \<times> socket_addr) multiset" where
  "queued_msgs pipe = image_mset (\<lambda>p. (payload p, sender p)) (mset (packets pipe))"

text \<open>Every reception of the history has an earlier transmission of the same bytes and sender,
  by at least the minimal latency.\<close>

definition event_ok :: "int \<Rightarrow> pipe_event list \<Rightarrow> pipe_event \<Rightarrow> bool" where
  "event_ok lo before e =
     (case e of
        Received t d a \<Rightarrow> (\<exists>t0. Sent t0 d a \<in> set before \<and> t0 + lo \<le> t)
      | Sent t d a \<Rightarrow> True)"

definition justified :: "int \<Rightarrow> pipe_event list \<Rightarrow> bool" where
  "justified lo es \<longleftrightarrow> (\<forall>i < length es. event_ok lo (take i es) (es ! i))"

lemma msgs_simps [simp]:
  "sent_msgs [] = {#}" "received_msgs [] = {#}"
  "sent_msgs (es @ [Sent t d a]) = add_mset (d, a) (sent_msgs es)"
  "sent_msgs (es @ [Received t d a]) = sent_msgs es"
  "received_msgs (es @ [Sent t d a]) = received_msgs es"
  "received_msgs (es @ [Received t d a]) = add_mset (d, a) (received_msgs es)"
  by (simp_all add: sent_msgs_def received_msgs_def)

lemma justified_Nil [simp]: "justified lo []"
  by (simp add: justified_def)

lemma justified_snoc [simp]: "justified lo (es @ [e]) \<longleftrightarrow> justified lo es \<and> event_ok lo es e"
  by (auto simp: justified_def nth_append less_Suc_eq)

lemma event_ok_simps [simp]:
  "event_ok lo es (Sent t d a)"
  "event_ok lo es (Received t d a) \<longleftrightarrow> (\<exists>t0. Sent t0 d a \<in> set es \<and> t0 + lo \<le> t)"
  by (simp_all add: event_ok_def)

text \<open>The invariant of a history.\<close>

definition traced :: "net_fault_options \<Rightarrow> pipe_event list \<Rightarrow> datagram_pipe \<Rightarrow> bool" where
  "traced opts es pipe \<longleftrightarrow> pipe_ok pipe \<and> faults pipe = opts \<and> justified (min_latency opts) es \<and>
     (\<forall>p \<in> set (packets pipe).
        \<exists>t0. Sent t0 (payload p) (sender p) \<in> set es \<and> t0 + min_latency opts \<le> arrival p)"

lemma traced_send:
  assumes "traced opts es q" and "valid_time now"
    and "pipe_send bern now data addr q = Some (Inr q')"
  shows "traced opts (es @ [Sent now data addr]) q'"
proof -
  have q: "pipe_ok q" "faults q = opts" using assms(1) by (auto simp: traced_def)
  have q': "pipe_ok q'" "faults q' = opts"
    using pipe_send_keeps [OF q(1) assms(2,3)] q(2) by auto
  have lo: "0 \<le> min_latency opts" using q by (auto simp: pipe_ok_def valid_faults_def)
  have "\<exists>t0. (Sent t0 (payload p) (sender p) \<in> set es \<or>
      Sent t0 (payload p) (sender p) = Sent now data addr) \<and> t0 + min_latency opts \<le> arrival p"
    if p: "p \<in> set (packets q')" for p
    using q(1) assms(2,3)
  proof (cases rule: pipe_send_cases)
    case (dropped r)
    then show ?thesis using p assms(1) by (auto simp: traced_def)
  next
    case (queued x ps r)
    have "p \<in> set (packets q) \<or> p = x \<or> p \<in> set ps"
      using p queued(1) q(1) by (auto simp: set_push_all pipe_ok_def)
    then consider "p \<in> set (packets q)" | "original now opts data addr p"
      | "replayed now opts data addr p"
      using queued(3,4) q(2) by (auto simp: list_all_iff)
    then show ?thesis
    proof cases
      case 1
      then show ?thesis using assms(1) by (auto simp: traced_def)
    qed (use lo in \<open>auto simp: original_def replayed_def\<close>)
  qed
  then show ?thesis using q' assms(1) by (fastforce simp: traced_def)
qed

lemma traced_recv:
  assumes "traced opts es q" and "pipe_recv now q = Done (data, addr) q'"
  shows "traced opts (es @ [Received now data addr]) q'"
proof -
  have q: "pipe_ok q" "faults q = opts" using assms(1) by (auto simp: traced_def)
  obtain p where p: "mset (packets q) = add_mset p (mset (packets q'))"
    "payload p = data" "sender p = addr" "arrival p \<le> now" "pipe_ok q'" "faults q' = faults q"
    using pipe_recv_Done [OF q(1) assms(2)] by metis
  have sub: "set (packets q') \<subseteq> set (packets q)" "p \<in> set (packets q)"
    using arg_cong [OF p(1), of set_mset] by auto
  obtain t0 where "Sent t0 data addr \<in> set es" "t0 + min_latency opts \<le> arrival p"
    using assms(1) sub(2) p(2,3) by (auto simp: traced_def)
  then have "\<exists>t0. Sent t0 data addr \<in> set es \<and> t0 + min_latency opts \<le> now"
    using p(4) by (intro exI [of _ t0]) simp
  then show ?thesis
    using assms(1) p(5,6) q(2) sub(1) by (auto simp: traced_def)
qed

lemma trace_traced:
  assumes "pipe_trace bern pipe es q" and "traced opts [] pipe"
  shows "traced opts es q"
  using assms by (induction rule: pipe_trace.induct) (auto intro: traced_send traced_recv)

section \<open>Counting packets\<close>

lemma queued_recv:
  assumes "pipe_ok q" and "pipe_recv now q = Done (data, addr) q'"
  shows "queued_msgs q = add_mset (data, addr) (queued_msgs q')"
proof -
  obtain p where "mset (packets q) = add_mset p (mset (packets q'))" "payload p = data" "sender p = addr"
    using pipe_recv_Done [OF assms] by metis
  then show ?thesis by (simp add: queued_msgs_def)
qed

lemma queued_send:
  assumes "pipe_ok q" and "valid_time now" and "pipe_send bern now data addr q = Some (Inr q')"
    and "p_replay (faults q) = 0"
  shows "queued_msgs q' = (if fst (bern (p_drop (faults q)) (pipe_rng q)) then queued_msgs q
    else add_mset (data, addr) (queued_msgs q))"
  using assms(1-3)
proof (cases rule: pipe_send_cases)
  case (dropped r)
  then show ?thesis by (simp add: queued_msgs_def)
next
  case (queued p ps r)
  have "heap arrival (packets q)" using assms(1) by (simp add: pipe_ok_def)
  then show ?thesis
    using queued assms(4) by (simp add: queued_msgs_def push_all_queue original_def)
qed

lemma trace_keeps:
  assumes "pipe_trace bern pipe es q" and "pipe_ok pipe"
  shows "pipe_ok q \<and> faults q = faults pipe"
  using assms
proof (induction rule: pipe_trace.induct)
  case (send es q now data addr q')
  then show ?case using pipe_send_keeps [of q now bern data addr "Inr q'"] by auto
next
  case (recv es q now data addr q')
  then show ?case using pipe_recv_Done [of q now data addr q'] by metis
qed simp

text \<open>Without replays nothing is received twice.\<close>

lemma trace_no_duplicates:
  assumes "pipe_trace bern pipe es q" and "pipe_ok pipe" and "p_replay (faults pipe) = 0"
  shows "received_msgs es + queued_msgs q \<subseteq># sent_msgs es + queued_msgs pipe"
  using assms
proof (induction rule: pipe_trace.induct)
  case (send es q now data addr q')
  have "pipe_ok q" "faults q = faults pipe" using trace_keeps send by blast+
  then have "queued_msgs q' \<subseteq># add_mset (data, addr) (queued_msgs q)"
    using queued_send [of q now bern data addr q'] send by simp
  then have "received_msgs es + queued_msgs q' \<subseteq>#
      add_mset (data, addr) (received_msgs es + queued_msgs q)"
    by (metis subset_mset.add_left_mono union_mset_add_mset_right)
  also have "\<dots> \<subseteq># add_mset (data, addr) (sent_msgs es + queued_msgs pipe)"
    using send by simp
  finally show ?case by simp
next
  case (recv es q now data addr q')
  have "pipe_ok q" using trace_keeps recv by blast
  then show ?case using queued_recv [of q now data addr q'] recv by simp
qed simp

text \<open>Without drops and replays nothing is lost either.\<close>

lemma trace_exact:
  assumes "pipe_trace bern pipe es q" and "pipe_ok pipe" and "p_replay (faults pipe) = 0"
    and "\<And>r. \<not> fst (bern (p_drop (faults pipe)) r)"
  shows "received_msgs es + queued_msgs q = sent_msgs es + queued_msgs pipe"
  using assms
proof (induction rule: pipe_trace.induct)
  case (send es q now data addr q')
  have "pipe_ok q" "faults q = faults pipe" using trace_keeps send by blast+
  then show ?case using queued_send [of q now bern data addr q'] send by simp
next
  case (recv es q now data addr q')
  have "pipe_ok q" using trace_keeps recv by blast
  then show ?case using queued_recv [of q now data addr q'] recv by simp
qed simp

text \<open>With certain loss nothing is queued.\<close>

lemma trace_silent:
  assumes "pipe_trace bern pipe es q" and "pipe_ok pipe" and "packets pipe = []"
    and "\<And>r. fst (bern (p_drop (faults pipe)) r)"
  shows "packets q = [] \<and> received_msgs es = {#}"
  using assms
proof (induction rule: pipe_trace.induct)
  case (send es q now data addr q')
  have ok: "pipe_ok q" "faults q = faults pipe" using trace_keeps send by blast+
  from ok(1) send(2,3) show ?case
    by (cases rule: pipe_send_cases) (use send ok in auto)
next
  case (recv es q now data addr q')
  then show ?case by (simp add: pipe_recv_def)
qed simp

section \<open>Properties\<close>

lemma pipe_ok_init: "valid_faults opts \<Longrightarrow> pipe_ok (pipe_init opts\<lparr>pipe_rng := r\<rparr>)"
  by (simp add: pipe_ok_def pipe_init_def)

lemma pipe_init_simps [simp]:
  "faults (pipe_init opts\<lparr>pipe_rng := r\<rparr>) = opts"
  "packets (pipe_init opts\<lparr>pipe_rng := r\<rparr>) = []"
  "queued_msgs (pipe_init opts\<lparr>pipe_rng := r\<rparr>) = {#}"
  by (simp_all add: pipe_init_def queued_msgs_def)

text \<open>C8: In every history of a pipe, whatever the generator draws, a received datagram was sent
  earlier with the same bytes and sender address, and at least the minimal latency before its
  reception: the pipe invents, corrupts and misattributes nothing, and delivers nothing early.\<close>

theorem received_was_sent:
  assumes "valid_faults opts" and "pipe_trace bern (pipe_init opts\<lparr>pipe_rng := r\<rparr>) es q"
    and "es = before @ Received t data addr # after"
  shows "\<exists>t0. Sent t0 data addr \<in> set before \<and> t0 + min_latency opts \<le> t"
proof -
  have "traced opts [] (pipe_init opts\<lparr>pipe_rng := r\<rparr>)"
    using assms(1) by (simp add: traced_def pipe_ok_init)
  from trace_traced [OF assms(2) this] have "justified (min_latency opts) es"
    by (simp add: traced_def)
  then have "event_ok (min_latency opts) (take (length before) es) (es ! length before)"
    unfolding justified_def assms(3) by (rule allE [of _ "length before"]) simp
  then show ?thesis by (simp add: assms(3))
qed

text \<open>C9: Exactly-once delivery on a fault-free link: when the drop and replay probabilities are 0,
  the datagrams received and the datagrams still queued are together exactly those sent, each
  as often as it was sent; with replays off but drops possible each is received at most as
  often as it was sent; with drop probability 1 nothing is received.\<close>

theorem delivery_counts:
  assumes "valid_faults opts" and "pipe_trace bern (pipe_init opts\<lparr>pipe_rng := r\<rparr>) es q"
    and "\<And>r. \<not> fst (bern 0 r)" and "\<And>r. fst (bern 1 r)"
  shows "(p_replay opts = 0 \<longrightarrow> received_msgs es + queued_msgs q \<subseteq># sent_msgs es) \<and>
    (p_replay opts = 0 \<and> p_drop opts = 0 \<longrightarrow> received_msgs es + queued_msgs q = sent_msgs es) \<and>
    (p_drop opts = 1 \<longrightarrow> received_msgs es = {#})"
  using trace_no_duplicates [OF assms(2) pipe_ok_init [OF assms(1)]]
    trace_exact [OF assms(2) pipe_ok_init [OF assms(1)]]
    trace_silent [OF assms(2) pipe_ok_init [OF assms(1)]] assms(3,4) by auto

text \<open>C14: Reception takes the earliest packet, removes exactly it, and returns its bytes and sender
  unchanged, never before its arrival; it waits exactly while no queued packet is due.\<close>

theorem reception_is_earliest_due:
  assumes "pipe_ok pipe"
  shows "(pipe_recv now pipe = Blocked \<longleftrightarrow> (\<forall>p \<in> set (packets pipe). now < arrival p)) \<and>
    (pipe_recv now pipe = Done (data, addr) pipe' \<longrightarrow>
       (\<exists>p. mset (packets pipe) = add_mset p (mset (packets pipe')) \<and> payload p = data \<and>
            sender p = addr \<and> arrival p \<le> now \<and> (\<forall>x \<in> set (packets pipe). arrival p \<le> arrival x)) \<and>
       pipe_ok pipe') \<and>
    pipe_recv now pipe \<noteq> Trapped tr \<and> pipe_recv now pipe \<noteq> Diverges"
proof (intro conjI impI)
  show "pipe_recv now pipe = Blocked \<longleftrightarrow> (\<forall>p \<in> set (packets pipe). now < arrival p)"
    by (rule pipe_recv_Blocked_iff [OF assms])
  show "\<exists>p. mset (packets pipe) = add_mset p (mset (packets pipe')) \<and> payload p = data \<and>
      sender p = addr \<and> arrival p \<le> now \<and> (\<forall>x \<in> set (packets pipe). arrival p \<le> arrival x)"
    and "pipe_ok pipe'" if "pipe_recv now pipe = Done (data, addr) pipe'"
    using pipe_recv_Done [OF assms that] by metis+
qed (simp_all add: pipe_recv_def Let_def)

text \<open>C13: A datagram that is not dropped can be received at the latest one maximal latency after it
  was sent: sending never traps on valid options, and from then on the receiver does not wait.\<close>

theorem transmission_arrives:
  assumes "pipe_ok pipe" and "valid_time now" and "\<not> fst (bern (p_drop (faults pipe)) (pipe_rng pipe))"
    and "pipe_send bern now data addr pipe = Some res" and "now + max_latency (faults pipe) \<le> t"
  shows "\<exists>pipe'. res = Inr pipe' \<and> (data, addr) \<in># queued_msgs pipe' \<and> pipe_recv t pipe' \<noteq> Blocked"
  using assms(1,2,4)
proof (cases rule: pipe_send_cases)
  case (queued p ps r)
  let ?q = "pipe\<lparr>packets := push_all (p # ps) (packets pipe), pipe_rng := r\<rparr>"
  have in_q: "p \<in> set (packets ?q)" using assms(1) by (simp add: set_push_all pipe_ok_def)
  have "arrival p \<le> t" using queued(3) assms(5) by (simp add: original_def)
  moreover have "pipe_ok ?q" using pipe_send_keeps [OF assms(1,2,4)] queued(1) by auto
  ultimately have "pipe_recv t ?q \<noteq> Blocked"
    using in_q by (fastforce simp: pipe_recv_Blocked_iff)
  moreover have "(data, addr) \<in># queued_msgs ?q"
    using in_q queued(3) by (force simp: queued_msgs_def original_def)
  ultimately show ?thesis using queued(1) by blast
qed (use assms(3) in simp)

section \<open>A transmission on the default link\<close>

lemma no_drop_default: "\<not> fst (canonical_bernoulli xo_next (p_drop default_faults) r)"
  using xo_bern.bern_0 by (simp add: default_faults_def)

lemma valid_default: "valid_faults default_faults"
  by (simp add: valid_faults_def default_faults_def)

lemma send_default:
  assumes "valid_time now" and "faults pipe = default_faults"
  shows "\<exists>r. pipe_send (canonical_bernoulli xo_next) now data addr pipe =
    Some (Inr (pipe\<lparr>packets := pq_push arrival \<lparr>arrival = now, payload = data, consumed = 0,
      sender = addr\<rparr> (packets pipe), pipe_rng := r\<rparr>))"
proof -
  obtain r1 where d: "canonical_bernoulli xo_next (p_drop default_faults) (pipe_rng pipe) = (False, r1)"
    using no_drop_default by (metis (full_types) prod.collapse)
  have l: "latency xo_next default_faults r = Inr (0, advance xo_next r)" for r
    by (rule latency_zero) (simp_all add: default_faults_def)
  have n: "replay_count True xo_next default_faults r = Some (Inr (0, advance xo_next r))" for r
    by (rule replay_count_no_replays) (simp add: default_faults_def)
  have "add_ns now 0 = Inr now" using assms(1) by (simp add: add_ns_def valid_time_def)
  then show ?thesis
    by (intro exI [of _ "advance xo_next (advance xo_next r1)"])
      (simp add: pipe_send_def should_drop_def assms(2) d l n push_all_def)
qed

lemma example_trace:
  "\<exists>q. pipe_trace (canonical_bernoulli xo_next) (pipe_init default_faults\<lparr>pipe_rng := xo_zero\<rparr>)
     [Sent 5 [1] null_addr, Received 7 [1] null_addr] q \<and> queued_msgs q = {#}"
proof -
  let ?i = "pipe_init default_faults\<lparr>pipe_rng := xo_zero\<rparr>"
  obtain r where s: "pipe_send (canonical_bernoulli xo_next) 5 [1] null_addr ?i =
      Some (Inr (?i\<lparr>packets := pq_push arrival \<lparr>arrival = 5, payload = [1], consumed = 0,
        sender = null_addr\<rparr> (packets ?i), pipe_rng := r\<rparr>))"
    using send_default [of 5 ?i] by (auto simp: valid_time_def)
  let ?q = "?i\<lparr>packets := [\<lparr>arrival = 5, payload = [1], consumed = 0, sender = null_addr\<rparr>],
    pipe_rng := r\<rparr>"
  have "pipe_trace (canonical_bernoulli xo_next) ?i ([] @ [Sent 5 [1] null_addr]) ?q"
    using s by (intro pipe_trace.send [OF pipe_trace.start])
      (simp_all add: valid_time_def pq_push_def sift_up.simps)
  moreover have "pipe_recv 7 ?q = Done ([1], null_addr) (?q\<lparr>packets := []\<rparr>)"
    by (simp add: pipe_recv_def pq_top_def pq_pop_def)
  ultimately have "pipe_trace (canonical_bernoulli xo_next) ?i
      (([] @ [Sent 5 [1] null_addr]) @ [Received 7 [1] null_addr]) (?q\<lparr>packets := []\<rparr>)"
    by (rule pipe_trace.recv)
  moreover have "queued_msgs (?q\<lparr>packets := []\<rparr>) = {#}" by (simp add: queued_msgs_def)
  ultimately show ?thesis by auto
qed

theorem received_was_sent_witness:
  "\<exists>t0. Sent t0 [1] null_addr \<in> set [Sent 5 [1] null_addr] \<and> t0 + min_latency default_faults \<le> 7"
proof -
  obtain q where q: "pipe_trace (canonical_bernoulli xo_next)
      (pipe_init default_faults\<lparr>pipe_rng := xo_zero\<rparr>) [Sent 5 [1] null_addr, Received 7 [1] null_addr] q"
    using example_trace by blast
  show ?thesis
    by (rule received_was_sent [OF valid_default q, where after = "[]"]) simp
qed

theorem delivery_counts_witness:
  "\<exists>q. received_msgs [Sent 5 [1] null_addr, Received 7 [1] null_addr] + queued_msgs q =
     sent_msgs [Sent 5 [1] null_addr, Received 7 [1] null_addr]"
proof -
  obtain q where q: "pipe_trace (canonical_bernoulli xo_next)
      (pipe_init default_faults\<lparr>pipe_rng := xo_zero\<rparr>) [Sent 5 [1] null_addr, Received 7 [1] null_addr] q"
    using example_trace by blast
  show ?thesis
    using delivery_counts [OF valid_default q xo_bern.bern_0 xo_bern.bern_1]
    by (auto simp: default_faults_def)
qed

theorem reception_is_earliest_due_witness:
  "pipe_recv 3 (pipe_init default_faults
     \<lparr>packets := [\<lparr>arrival = 5, payload = [1], consumed = 0, sender = null_addr\<rparr>]\<rparr>) = Blocked"
  using reception_is_earliest_due [of "pipe_init default_faults
     \<lparr>packets := [\<lparr>arrival = 5, payload = [1], consumed = 0, sender = null_addr\<rparr>]\<rparr>" 3]
  by (simp add: pipe_ok_def heap_def pipe_init_def valid_default)

theorem transmission_arrives_witness:
  "\<exists>pipe'. ([1], null_addr) \<in># queued_msgs pipe' \<and> pipe_recv 5 pipe' \<noteq> Blocked"
proof -
  let ?i = "pipe_init default_faults\<lparr>pipe_rng := xo_zero\<rparr>"
  have t: "valid_time 5" by (simp add: valid_time_def)
  obtain p where s: "pipe_send (canonical_bernoulli xo_next) 5 [1] null_addr ?i = Some (Inr p)"
    using send_default [OF t, of ?i] by auto
  have m: "max_latency default_faults = 0" by (simp add: default_faults_def)
  show ?thesis
    using transmission_arrives [OF pipe_ok_init [OF valid_default] t _ s, of 5] no_drop_default
    by (auto simp: m)
qed

end
