(* ===== verification/Stream_Sock.thy ===== *)
theory Stream_Sock
  imports Sock_Addr
begin

text \<open>
  The stream socket of src/net/stream_socket.hpp and .cpp. A socket is known to others by an
  identifier; \<^verbatim>\<open>peer_\<close> is a weak pointer, an identifier that may be dead. \<open>send\<close> works on the
  peer that the pointer locks to, under the peer's mutex, and \<open>recv\<close> on the socket's own
  buffer, so each is one step on one socket. The callbacks that move bytes from and to the
  memory of the guest are arguments; a negative result is their error.
\<close>

record stream_socket =
  ss_af :: address_family
  ss_type :: socket_type
  peer :: "nat option"
  buffer :: bytes
  listening :: bool

definition stream_socket_new :: "address_family \<Rightarrow> stream_socket" where
  "stream_socket_new af =
     \<lparr>ss_af = af, ss_type = Stream, peer = None, buffer = [], listening = False\<rparr>"

definition stream_socket_with_peer :: "address_family \<Rightarrow> nat option \<Rightarrow> stream_socket" where
  "stream_socket_with_peer af p = (stream_socket_new af)\<lparr>peer := p\<rparr>"

definition stream_recv ::
  "(bytes \<Rightarrow> 'm \<Rightarrow> int \<times> 'm) \<Rightarrow> nat \<Rightarrow> stream_socket \<Rightarrow> 'm \<Rightarrow> (int, stream_socket \<times> 'm) outcome" where
  "stream_recv write_data n s m =
     (if buffer s = [] then Blocked
      else
       (let k = min n (length (buffer s));
            tmp = take k (buffer s);
            s' = s\<lparr>buffer := drop k (buffer s)\<rparr>;
            (res, m') = write_data tmp m
        in Done (if res < 0 then res else int k) (s', m')))"

text \<open>
  The third argument is what \<^verbatim>\<open>peer_.lock()\<close> gives, \<^const>\<open>None\<close> for the null pointer; the
  result has the peer's new state.
\<close>

definition stream_send ::
  "(nat \<Rightarrow> int \<times> bytes) \<Rightarrow> nat \<Rightarrow> stream_socket option \<Rightarrow> trap + int \<times> stream_socket" where
  "stream_send read_data n locked =
     (case locked of
        None \<Rightarrow> Inl Null_deref
      | Some p \<Rightarrow>
          (let (res, buf) = read_data n
           in if res < 0 then Inr (res, p)
              else Inr (res, p\<lparr>buffer := buffer p @ buf\<rparr>)))"

definition stream_connect ::
  "nat \<Rightarrow> stream_socket \<Rightarrow> stream_socket \<Rightarrow> int \<times> stream_socket" where
  "stream_connect other_id other s =
     (if listening s then (- EOPNOTSUPP, s)
      else if ss_af s \<noteq> ss_af other then (- EAFNOSUPPORT, s)
      else (0, s\<lparr>peer := Some other_id\<rparr>))"

section \<open>Conversations\<close>

text \<open>
  A history of the operations on one receiving socket: data pushed into it by sends of a peer,
  with the result and the bytes of each send's callback, and receptions into a memory that is
  here the list of chunks stored so far.
\<close>

datatype stream_event = Push int bytes | Pull nat

definition store_chunk :: "bytes \<Rightarrow> bytes list \<Rightarrow> int \<times> bytes list" where
  "store_chunk bs m = (0, m @ [bs])"

fun stream_run :: "stream_event list \<Rightarrow> stream_socket \<times> bytes list \<Rightarrow>
    (trap + int list \<times> stream_socket \<times> bytes list) option" where
  "stream_run [] st = Some (Inr ([], st))"
| "stream_run (Push res bs # es) (s, m) =
     (case stream_send (\<lambda>_. (res, bs)) (length bs) (Some s) of
        Inl t \<Rightarrow> Some (Inl t)
      | Inr (r, s') \<Rightarrow>
         (case stream_run es (s', m) of
            Some (Inr (rs, st)) \<Rightarrow> Some (Inr (r # rs, st)) | other \<Rightarrow> other))"
| "stream_run (Pull n # es) (s, m) =
     (case stream_recv store_chunk n s m of
        Done r (s', m') \<Rightarrow>
         (case stream_run es (s', m') of
            Some (Inr (rs, st)) \<Rightarrow> Some (Inr (r # rs, st)) | other \<Rightarrow> other)
      | Blocked \<Rightarrow> None
      | Diverges \<Rightarrow> None
      | Trapped t \<Rightarrow> Some (Inl t))"

definition pushed :: "stream_event list \<Rightarrow> bytes" where
  "pushed es = concat (map (\<lambda>e. case e of Push r bs \<Rightarrow> if r < 0 then [] else bs | Pull _ \<Rightarrow> []) es)"

text \<open>What the receptions report, in order.\<close>

fun pull_sizes :: "stream_event list \<Rightarrow> int list \<Rightarrow> int list" where
  "pull_sizes (Push _ _ # es) (r # rs) = pull_sizes es rs"
| "pull_sizes (Pull _ # es) (r # rs) = r # pull_sizes es rs"
| "pull_sizes _ _ = []"

lemma pushed_simps [simp]:
  "pushed [] = []" "pushed (Pull n # es) = pushed es"
  "pushed (Push r bs # es) = (if r < 0 then [] else bs) @ pushed es"
  by (simp_all add: pushed_def)

lemma stream_run_fifo:
  assumes "stream_run es (s, m) = Some (Inr (rs, s', m'))"
  shows "\<exists>cs. m' = m @ cs \<and> concat cs @ buffer s' = buffer s @ pushed es \<and>
    pull_sizes es rs = map (int \<circ> length) cs \<and> length rs = length es"
  using assms
proof (induction es "(s, m)" arbitrary: s m rs rule: stream_run.induct)
  case 1
  then show ?case by simp
next
  case (2 res bs es s m)
  let ?s = "if res < 0 then s else s\<lparr>buffer := buffer s @ bs\<rparr>"
  have send: "stream_send (\<lambda>_. (res, bs)) (length bs) (Some s) = Inr (res, ?s)"
    by (simp add: stream_send_def)
  obtain rs' where run: "stream_run es (?s, m) = Some (Inr (rs', s', m'))" "rs = res # rs'"
    using "2.prems" unfolding stream_run.simps send by (auto split: option.splits sum.splits)
  have "\<exists>cs. m' = m @ cs \<and> concat cs @ buffer s' = buffer ?s @ pushed es \<and>
    pull_sizes es rs' = map (int \<circ> length) cs \<and> length rs' = length es"
    by (rule "2.hyps" [OF send refl run(1)])
  then show ?case using run(2) by auto
next
  case (3 n es s m)
  let ?k = "min n (length (buffer s))"
  let ?s = "s\<lparr>buffer := drop ?k (buffer s)\<rparr>" and ?c = "take ?k (buffer s)"
  have ne: "buffer s \<noteq> []" using "3.prems" by (auto simp: stream_recv_def)
  then have recv: "stream_recv store_chunk n s m = Done (int ?k) (?s, m @ [?c])"
    by (simp add: stream_recv_def store_chunk_def Let_def)
  obtain rs' where run: "stream_run es (?s, m @ [?c]) = Some (Inr (rs', s', m'))" "rs = int ?k # rs'"
    using "3.prems" unfolding stream_run.simps recv by (auto split: option.splits sum.splits)
  obtain cs where cs: "m' = (m @ [?c]) @ cs" "concat cs @ buffer s' = buffer ?s @ pushed es"
    "pull_sizes es rs' = map (int \<circ> length) cs" "length rs' = length es"
    using "3.hyps" [OF recv refl run(1)] by blast
  have "?c @ drop ?k (buffer s) = buffer s" by (rule append_take_drop_id)
  with cs run(2) show ?case
    by (intro exI [of _ "?c # cs"]) (simp add: min_def)
qed

section \<open>Properties\<close>



text \<open>The result of a stream send is the result of the memory access, which is 0 on success,
  instead of the number of bytes sent; a send on a socket without a live peer, for example one
  that was never connected, dereferences a null pointer; and a reception whose memory access
  fails has already taken the bytes out of the buffer.\<close>

theorem stream_send_recv_defects:
  "stream_send (\<lambda>n. (0, replicate n b)) n (Some p) =
     Inr (0, p\<lparr>buffer := buffer p @ replicate n b\<rparr>) \<and>
   peer (stream_socket_new af) = None \<and> stream_send rd n None = Inl Null_deref \<and>
   stream_recv (\<lambda>bs m. (- EFAULT, m)) 2 (p\<lparr>buffer := [b, c, d]\<rparr>) m =
     Done (- EFAULT) (p\<lparr>buffer := [d]\<rparr>, m)"
  by (simp add: stream_send_def stream_recv_def stream_socket_new_def)

end
