(* ===== verification/Guest_Memory.thy ===== *)
theory Guest_Memory
  imports Prelude
begin

text \<open>
  The access of the simulator to the memory of a traced process: \<^verbatim>\<open>write_memory\<close> and
  \<^verbatim>\<open>read_memory\<close> of \<^verbatim>\<open>ptrace_runner_handle\<close>, src/sim/runner/ptrace.cpp. The kernel is not
  part of the sources: its PTRACE\_PEEKDATA and PTRACE\_POKEDATA are the fields of a record
  that the functions take, the memory type is a parameter, and the locale \<open>tracee\<close> states
  what ptrace(2) documents for mapped words. A flat memory is an instance.
\<close>

record 'm ptrace_ops =
  peek :: "u64 \<Rightarrow> 'm \<Rightarrow> u64"
  poke :: "u64 \<Rightarrow> u64 \<Rightarrow> 'm \<Rightarrow> 'm"

text \<open>
  Neither function looks at the result of ptrace, so the value of a failed peek, the word
  -1, is used as data, a failed poke is ignored, and the result is always 0.
\<close>

function write_words :: "'m ptrace_ops \<Rightarrow> u64 \<Rightarrow> bytes \<Rightarrow> 'm \<Rightarrow> 'm" where
  "write_words k ptr data m =
     (if 8 \<le> length data then
        write_words k (ptr + 8) (drop 8 data) (poke k ptr (le_word (take 8 data)) m)
      else if data \<noteq> [] then
        (let word = peek k ptr m
         in poke k ptr (le_word (overlay 0 data (le_bytes word))) m)
      else m)"
  by pat_completeness auto
termination
  by (relation "measure (\<lambda>(k, ptr, data, m). length data)") auto

function read_words :: "'m ptrace_ops \<Rightarrow> u64 \<Rightarrow> nat \<Rightarrow> 'm \<Rightarrow> bytes" where
  "read_words k ptr n m =
     (if 8 \<le> n then le_bytes (peek k ptr m) @ read_words k (ptr + 8) (n - 8) m
      else if n \<noteq> 0 then take n (le_bytes (peek k ptr m))
      else [])"
  by pat_completeness auto
termination
  by (relation "measure (\<lambda>(k, ptr, n, m). n)") auto

declare write_words.simps [simp del] read_words.simps [simp del]

definition write_memory :: "'m ptrace_ops \<Rightarrow> u64 \<Rightarrow> bytes \<Rightarrow> 'm \<Rightarrow> int \<times> 'm" where
  "write_memory k ptr data m = (0, write_words k ptr data m)"

definition read_memory :: "'m ptrace_ops \<Rightarrow> u64 \<Rightarrow> nat \<Rightarrow> 'm \<Rightarrow> int \<times> bytes" where
  "read_memory k ptr n m = (0, read_words k ptr n m)"

section \<open>What ptrace promises for mapped words\<close>

definition mapped :: "('m \<Rightarrow> u64 \<Rightarrow> u8 option) \<Rightarrow> u64 \<Rightarrow> nat \<Rightarrow> 'm \<Rightarrow> bool" where
  "mapped byte p n m \<longleftrightarrow> (\<forall>a. unat (a - p) < n \<longrightarrow> byte m a \<noteq> None)"

definition region :: "('m \<Rightarrow> u64 \<Rightarrow> u8 option) \<Rightarrow> u64 \<Rightarrow> nat \<Rightarrow> 'm \<Rightarrow> bytes" where
  "region byte p n m = map (\<lambda>i. the (byte m (p + of_nat i))) [0..<n]"

definition round_up :: "nat \<Rightarrow> nat" where
  "round_up n = (n + 7) div 8 * 8"

locale tracee =
  fixes k :: "'m ptrace_ops" and byte :: "'m \<Rightarrow> u64 \<Rightarrow> u8 option"
  assumes peek_mapped: "mapped byte p 8 m \<Longrightarrow> peek k p m = le_word (region byte p 8 m)"
    and poke_mapped: "mapped byte p 8 m \<Longrightarrow> byte (poke k p w m) a =
      (if unat (a - p) < 8 then Some (le_bytes w ! unat (a - p)) else byte m a)"

lemma mapped_mono: "mapped byte p n m \<Longrightarrow> n' \<le> n \<Longrightarrow> mapped byte p n' m"
  by (auto simp: mapped_def)

lemma length_region [simp]: "length (region byte p n m) = n"
  by (simp add: region_def)

lemma round_up_ge: "n \<le> round_up n" "0 < n \<Longrightarrow> 8 \<le> round_up n"
  by (simp_all add: round_up_def)

lemma round_up_step: "8 \<le> n \<Longrightarrow> round_up n = round_up (n - 8) + 8"
  by (simp add: round_up_def le_div_geq)

text \<open>Offsets relative to a pointer advanced by one word.\<close>

lemma unat_offset_advance:
  fixes a p :: u64
  shows "unat (a - (p + 8)) =
    (if 8 \<le> unat (a - p) then unat (a - p) - 8 else unat (a - p) + (2 ^ 64 - 8))"
proof -
  have eq: "a - (p + 8) = (a - p) - 8" by simp
  show ?thesis unfolding eq
    by (simp add: unat_sub_if')
qed

lemma mapped_advance:
  assumes "mapped byte p (n + 8) m" and "n + 8 < 2 ^ 64"
  shows "mapped byte (p + 8) n m"
  using assms by (auto simp: mapped_def unat_offset_advance split: if_splits)

lemma region_advance: "region byte p (n + 8) m = region byte p 8 m @ region byte (p + 8) n m"
proof -
  have "[0..<n + 8] = [0..<8] @ map (\<lambda>i. i + 8) [0..<n]"
    by (simp add: map_add_upt upt_add_eq_append [of 0 8 n, simplified add.commute])
  then show ?thesis
    by (simp only: region_def map_append map_map comp_def) (simp add: algebra_simps)
qed

section \<open>Reads and writes of mapped memory\<close>

lemma mapped_round_up_advance:
  assumes "mapped byte p (round_up n) m" and "8 \<le> n" and "n < 2 ^ 63"
  shows "mapped byte (p + 8) (round_up (n - 8)) m"
proof (rule mapped_advance)
  show "mapped byte p (round_up (n - 8) + 8) m" using assms(1,2) by (simp only: round_up_step)
  show "round_up (n - 8) + 8 < 2 ^ 64" using assms(2,3) by (simp add: round_up_def)
qed

lemma region_take: "n \<le> n' \<Longrightarrow> region byte p n m = take n (region byte p n' m)"
  by (simp add: region_def take_map)

lemma nth_region: "i < n \<Longrightarrow> region byte p n m ! i = the (byte m (p + of_nat i))"
  by (simp add: region_def)

lemma region_eqI:
  assumes "\<And>a. unat (a - p) < n \<Longrightarrow> byte m a = Some (xs ! unat (a - p))"
    and "length xs = n" and "n \<le> 2 ^ 64"
  shows "region byte p n m = xs"
proof (rule nth_equalityI)
  show "length (region byte p n m) = length xs" using assms(2) by simp
  fix i assume "i < length (region byte p n m)"
  then have i: "i < n" by simp
  then have lt: "i < 2 ^ 64" using assms(3) by (rule less_le_trans)
  have u: "unat (of_nat i :: u64) = i"
    using lt by (simp add: unat_of_nat take_bit_nat_eq_self)
  have "byte m (p + of_nat i) = Some (xs ! i)"
    using assms(1) [of "p + of_nat i"] i u by simp
  then show "region byte p n m ! i = xs ! i" using i by (simp add: nth_region)
qed

context tracee
begin

lemma mapped_poke:
  assumes word: "mapped byte p 8 m"
  shows "mapped byte q n (poke k p w m) \<longleftrightarrow> mapped byte q n m"
proof -
  have "byte m a \<noteq> None" if "unat (a - p) < 8" for a
    using word that unfolding mapped_def by blast
  then have "byte (poke k p w m) a \<noteq> None \<longleftrightarrow> byte m a \<noteq> None" for a
    by (simp add: poke_mapped [OF word])
  then show ?thesis by (simp only: mapped_def)
qed

lemma read_words_region:
  assumes "mapped byte p (round_up n) m" and "n < 2 ^ 63"
  shows "read_words k p n m = region byte p n m"
  using assms
proof (induction n arbitrary: p rule: less_induct)
  case (less n)
  show ?case
  proof (cases "n = 0")
    case True
    then show ?thesis by (simp add: read_words.simps region_def)
  next
    case False
    have word: "mapped byte p 8 m"
      using less.prems(1) by (rule mapped_mono) (use False in \<open>simp add: round_up_ge\<close>)
    have bytes: "le_bytes (peek k p m) = region byte p 8 m"
      using peek_mapped [OF word] by (simp add: le_bytes_le_word)
    show ?thesis
    proof (cases "8 \<le> n")
      case True
      have adv: "mapped byte (p + 8) (round_up (n - 8)) m"
        using less.prems(1) True less.prems(2) by (rule mapped_round_up_advance)
      have "read_words k (p + 8) (n - 8) m = region byte (p + 8) (n - 8) m"
        using True less.prems(2) by (intro less.IH adv) auto
      then show ?thesis
        using True bytes region_advance [of byte p "n - 8" m] by (simp add: read_words.simps)
    next
      case small: False
      then show ?thesis
        using False bytes region_take [of n 8 byte p m] by (simp add: read_words.simps)
    qed
  qed
qed

lemma write_words_byte:
  assumes "mapped byte p (round_up (length data)) m" and "length data < 2 ^ 63"
  shows "byte (write_words k p data m) a =
    (if unat (a - p) < length data then Some (data ! unat (a - p)) else byte m a)"
  using assms
proof (induction "length data" arbitrary: p data m rule: less_induct)
  case less
  let ?n = "length data"
  show ?case
  proof (cases "data = []")
    case True
    then show ?thesis by (simp add: write_words.simps)
  next
    case False
    have word: "mapped byte p 8 m"
      using less.prems(1) by (rule mapped_mono) (use False in \<open>simp add: round_up_ge\<close>)
    show ?thesis
    proof (cases "8 \<le> ?n")
      case True
      let ?m = "poke k p (le_word (take 8 data)) m"
      have adv: "mapped byte (p + 8) (round_up (?n - 8)) ?m"
        unfolding mapped_poke [OF word]
        using less.prems(1) True less.prems(2) by (rule mapped_round_up_advance)
      have "byte (write_words k (p + 8) (drop 8 data) ?m) a =
          (if unat (a - (p + 8)) < ?n - 8 then Some (drop 8 data ! unat (a - (p + 8)))
           else byte ?m a)"
        using less.hyps [of "drop 8 data" "p + 8" ?m] adv less.prems(2) True by simp
      moreover have "unat (a - p) < 2 ^ 64" by (rule unat_u64_less)
      ultimately show ?thesis
        using True less.prems(2)
        by (subst write_words.simps)
           (auto simp: poke_mapped [OF word] unat_offset_advance le_bytes_le_word)
    next
      case small: False
      have "byte (poke k p (le_word (overlay 0 data (le_bytes (peek k p m)))) m) a =
        (if unat (a - p) < 8 then Some (overlay 0 data (region byte p 8 m) ! unat (a - p)) else byte m a)"
        using small by (simp add: poke_mapped [OF word] peek_mapped [OF word] le_bytes_le_word)
      moreover have "unat (a - p) < 8 \<Longrightarrow> byte m a = Some (region byte p 8 m ! unat (a - p))"
        using word by (auto simp: nth_region mapped_def)
      ultimately show ?thesis
        using small False by (subst write_words.simps) (auto simp: nth_overlay Let_def)
    qed
  qed
qed

lemma mapped_write_words:
  assumes "mapped byte p (round_up (length data)) m" and "length data < 2 ^ 63"
  shows "mapped byte q n m \<Longrightarrow> mapped byte q n (write_words k p data m)"
  using assms by (simp add: mapped_def write_words_byte)

lemma write_read_words:
  assumes "mapped byte p (round_up (length data)) m" and "length data < 2 ^ 63"
  shows "read_words k p (length data) (write_words k p data m) = data"
proof -
  have "read_words k p (length data) (write_words k p data m) =
      region byte p (length data) (write_words k p data m)"
    using mapped_write_words [OF assms assms(1)] assms(2) by (rule read_words_region)
  also have "\<dots> = data"
    using assms by (intro region_eqI) (simp_all add: write_words_byte)
  finally show ?thesis .
qed

end

section \<open>A flat memory\<close>

text \<open>
  An address space as a partial map from addresses to bytes. A peek of a word that is not
  mapped returns -1, a poke of it changes nothing, as ptrace(2) has it.
\<close>

type_synonym flat = "u64 \<Rightarrow> u8 option"

definition word_mapped :: "flat \<Rightarrow> u64 \<Rightarrow> bool" where
  "word_mapped m p \<longleftrightarrow> list_all (\<lambda>i. m (p + of_nat i) \<noteq> None) [0..<8]"

definition flat_peek :: "u64 \<Rightarrow> flat \<Rightarrow> u64" where
  "flat_peek p m =
     (if word_mapped m p then le_word (map (\<lambda>i. the (m (p + of_nat i))) [0..<8]) else - 1)"

definition flat_poke :: "u64 \<Rightarrow> u64 \<Rightarrow> flat \<Rightarrow> flat" where
  "flat_poke p w m =
     (if word_mapped m p
      then (\<lambda>a. if unat (a - p) < 8 then Some (le_bytes w ! unat (a - p)) else m a) else m)"

definition flat_ops :: "flat ptrace_ops" where
  "flat_ops = \<lparr>peek = flat_peek, poke = flat_poke\<rparr>"

lemma word_mapped_iff: "word_mapped m p \<longleftrightarrow> mapped (\<lambda>m. m) p 8 m"
proof
  assume w: "word_mapped m p"
  show "mapped (\<lambda>m. m) p 8 m"
    unfolding mapped_def
  proof (intro allI impI)
    fix a assume a: "unat (a - p) < 8"
    have "a = p + of_nat (unat (a - p))" by simp
    then show "m a \<noteq> None"
      using w a unfolding word_mapped_def list_all_iff by (metis atLeastLessThan_iff set_upt zero_le)
  qed
next
  assume "mapped (\<lambda>m. m) p 8 m"
  moreover have "i < 8 \<Longrightarrow> unat (of_nat i :: u64) < 8" for i
    by (simp add: unat_of_nat take_bit_nat_eq_self)
  ultimately show "word_mapped m p"
    by (auto simp: word_mapped_def mapped_def list_all_iff)
qed

interpretation flat: tracee flat_ops "\<lambda>m. m"
  by unfold_locales
    (simp_all add: flat_ops_def flat_peek_def flat_poke_def word_mapped_iff region_def)

text \<open>An address the guest never mapped.\<close>

lemma read_words_empty: "read_words flat_ops p n Map.empty = replicate n 0xFF"
proof (induction n arbitrary: p rule: less_induct)
  case (less n)
  have word: "le_bytes (peek flat_ops p Map.empty) = replicate 8 0xFF"
  proof (rule nth_equalityI)
    fix i assume "i < length (le_bytes (peek flat_ops p Map.empty))"
    then have i: "i < 8" by simp
    have "ucast (drop_bit (8 * i) (- 1 :: u64)) = (- 1 :: u8)"
      using i by (intro bit_word_eqI) (simp add: bit_simps)
    then show "le_bytes (peek flat_ops p Map.empty) ! i = replicate 8 0xFF ! i"
      using i by (simp add: flat_ops_def flat_peek_def word_mapped_def nth_le_bytes upt_rec)
  qed simp
  show ?case
  proof (cases "8 \<le> n")
    case True
    then have "replicate n (0xFF :: u8) = replicate 8 0xFF @ replicate (n - 8) 0xFF"
      by (simp add: replicate_add [symmetric])
    then show ?thesis using True word by (subst read_words.simps) (simp add: less.IH)
  next
    case False
    then show ?thesis using word by (subst read_words.simps) simp
  qed
qed

lemma write_words_empty: "write_words flat_ops p data Map.empty = Map.empty"
proof (induction "length data" arbitrary: p data rule: less_induct)
  case less
  have "poke flat_ops q w Map.empty = Map.empty" for q w
    by (simp add: flat_ops_def flat_poke_def word_mapped_def upt_rec)
  then show ?case using less.hyps by (subst write_words.simps) (simp add: Let_def)
qed

section \<open>Properties\<close>

text \<open>C21: What write\_memory writes into mapped memory, read\_memory reads back from the same
  address, in whole words and a last partial word alike; both report 0.\<close>

theorem memory_round_trip:
  assumes "mapped (\<lambda>m. m) p (round_up (length data)) m" and "length data < 2 ^ 63"
  shows "write_memory flat_ops p data m = (0, write_words flat_ops p data m) \<and>
    read_memory flat_ops p (length data) (snd (write_memory flat_ops p data m)) = (0, data)"
  using flat.write_read_words [OF assms] by (simp add: write_memory_def read_memory_def)


theorem memory_round_trip_witness:
  "read_memory flat_ops 0x1000 11 (snd (write_memory flat_ops 0x1000
     [1, 2, 3, 4, 5, 6, 7, 8, 9, 10, 11] (\<lambda>_. Some 0))) = (0, [1, 2, 3, 4, 5, 6, 7, 8, 9, 10, 11])"
proof -
  let ?data = "[1, 2, 3, 4, 5, 6, 7, 8, 9, 10, 11] :: bytes"
  have len: "length ?data = 11" by simp
  have "mapped (\<lambda>m. m) 0x1000 (round_up (length ?data)) (\<lambda>_. Some 0)"
    by (simp add: mapped_def)
  from memory_round_trip [OF this, THEN conjunct2] show ?thesis unfolding len by simp
qed


text \<open>A fault of the guest's pointer is not reported: reading an address that is not mapped
  gives result 0 and bytes 0xFF, the bytes of the failed peek's -1, and writing one gives
  result 0 and writes nothing.\<close>

theorem memory_faults_hidden:
  "read_memory flat_ops p n Map.empty = (0, replicate n 0xFF) \<and>
   write_memory flat_ops p data Map.empty = (0, Map.empty)"
  by (simp add: read_memory_def write_memory_def read_words_empty write_words_empty)

end
