(* ===== verification/Sim_State.thy ===== *)
theory Sim_State
  imports Fd_Table Network Datagram Stream_Sock Guest_Memory
begin

text \<open>
  The state of a running simulation: \<^verbatim>\<open>simulator\<close> and its options (src/sim/simulator.hpp),
  \<^verbatim>\<open>machine\<close> and \<^verbatim>\<open>replica\<close> (src/sim/machine.hpp, replica.hpp, machine.cpp, replica.cpp), and the
  objects that file descriptors refer to. An object is known by a number; the only owners of
  an object are the descriptor tables of the replicas, so it exists while one of them holds
  it. A machine has one current replica, which is why a replica stands for both; it is known
  by its position.
\<close>

record options =
  net_faults :: net_fault_options
  time_scale :: rat
  seed :: u64

definition default_options :: "u64 \<Rightarrow> options" where
  "default_options sd = \<lparr>net_faults = default_faults, time_scale = 1, seed = sd\<rparr>"

text \<open>The constructor of \<^verbatim>\<open>datagram_socket\<close> gives its base class the type \<^verbatim>\<open>stream\<close>.\<close>

record datagram_socket =
  ds_af :: address_family
  ds_type :: socket_type
  inbound :: datagram_pipe

definition datagram_socket_new ::
  "address_family \<Rightarrow> options \<Rightarrow> xoshiro \<Rightarrow> datagram_socket \<times> xoshiro" where
  "datagram_socket_new af opts rng =
     (let (pipe, rng') = pipe_seed xo_next rng (pipe_init (net_faults opts))
      in (\<lparr>ds_af = af, ds_type = Stream, inbound = pipe\<rparr>, rng'))"

datatype object = Stream_obj stream_socket | Dgram_obj datagram_socket | Stdout_obj

record 'm replica =
  fds :: "nat fd_table"
  mem :: 'm
  epoch :: int

text \<open>What the simulator prints for a guest's standard output.\<close>

datatype console_item = Quoted bytes | Raw bytes | Count nat

record 'm sim =
  sim_options :: options
  sim_rng :: xoshiro
  sim_net :: "nat network"
  objects :: "nat \<Rightarrow> object option"
  next_object :: nat
  replicas :: "'m replica list"
  console :: "console_item list"

text \<open>The constructor of \<^verbatim>\<open>simulator\<close>, which seeds its generator from a \<^verbatim>\<open>split_mix\<close>.\<close>

definition sim_init :: "options \<Rightarrow> 'm sim" where
  "sim_init opts =
     \<lparr>sim_options = opts, sim_rng = fst (seed_from sm_next (split_mix_init (seed opts))),
      sim_net = network_init, objects = (\<lambda>_. None), next_object = 0, replicas = [], console = []\<rparr>"

text \<open>\<^verbatim>\<open>machine::start\<close>: the runner gives a process with its memory, the replica a new table.\<close>

definition replica_new :: "'m \<Rightarrow> int \<Rightarrow> 'm replica" where
  "replica_new m now = \<lparr>fds = fd_table_init, mem = m, epoch = now\<rparr>"

definition machine_start :: "'m \<Rightarrow> int \<Rightarrow> 'm sim \<Rightarrow> 'm sim" where
  "machine_start m now s = s\<lparr>replicas := replicas s @ [replica_new m now]\<rparr>"

text \<open>\<^verbatim>\<open>std::make_shared\<close>.\<close>

definition new_object :: "object \<Rightarrow> 'm sim \<Rightarrow> nat \<times> 'm sim" where
  "new_object ob s =
     (next_object s, s\<lparr>objects := (objects s)(next_object s \<mapsto> ob), next_object := next_object s + 1\<rparr>)"

definition holds :: "nat \<Rightarrow> 'm replica \<Rightarrow> bool" where
  "holds x r \<longleftrightarrow> Some x |\<in>| fmran (table (fds r))"

definition alive :: "'m sim \<Rightarrow> nat \<Rightarrow> bool" where
  "alive s x \<longleftrightarrow> list_ex (holds x) (replicas s)"

text \<open>Access to one replica.\<close>

abbreviation rep :: "'m sim \<Rightarrow> nat \<Rightarrow> 'm replica" where
  "rep s i \<equiv> replicas s ! i"

definition set_fds :: "nat \<Rightarrow> nat fd_table \<Rightarrow> 'm sim \<Rightarrow> 'm sim" where
  "set_fds i t s = s\<lparr>replicas := (replicas s)[i := (rep s i)\<lparr>fds := t\<rparr>]\<rparr>"

definition set_mem :: "nat \<Rightarrow> 'm \<Rightarrow> 'm sim \<Rightarrow> 'm sim" where
  "set_mem i m s = s\<lparr>replicas := (replicas s)[i := (rep s i)\<lparr>mem := m\<rparr>]\<rparr>"

definition set_object :: "nat \<Rightarrow> object \<Rightarrow> 'm sim \<Rightarrow> 'm sim" where
  "set_object x ob s = s\<lparr>objects := (objects s)(x \<mapsto> ob)\<rparr>"

text \<open>
  What a system call takes from outside the sources: the kernel's access to the guest's
  memory, the Bernoulli distribution of the standard library, the reading of the clock now and
  when the call was made, which differ for a call that has waited, and the bytes an
  uninitialised variable of \<^verbatim>\<open>parse_addr\<close> happens to hold; and the build.
\<close>

record 'm env =
  kernel :: "'m ptrace_ops"
  bern :: "rat \<Rightarrow> xoshiro \<Rightarrow> bool \<times> xoshiro"
  clock :: int
  called_at :: int
  stack :: "nat \<Rightarrow> u8"
  ndebug :: bool

section \<open>Who is alive\<close>

lemma holds_iff: "holds x r \<longleftrightarrow> (\<exists>fd. live (fds r) fd = Some x)"
  by (auto simp: holds_def live_def fmlookup_ran_iff split: option.splits)

lemma alive_iff: "alive s x \<longleftrightarrow> (\<exists>i fd. i < length (replicas s) \<and> live (fds (rep s i)) fd = Some x)"
  unfolding alive_def list_ex_iff holds_iff by (metis in_set_conv_nth)

lemma set_fds_simps [simp]:
  "replicas (set_fds i t s) = (replicas s)[i := (rep s i)\<lparr>fds := t\<rparr>]"
  "objects (set_fds i t s) = objects s" "sim_net (set_fds i t s) = sim_net s"
  "next_object (set_fds i t s) = next_object s" "sim_options (set_fds i t s) = sim_options s"
  "sim_rng (set_fds i t s) = sim_rng s" "console (set_fds i t s) = console s"
  by (simp_all add: set_fds_def)

lemma set_mem_simps [simp]:
  "replicas (set_mem i m s) = (replicas s)[i := (rep s i)\<lparr>mem := m\<rparr>]"
  "objects (set_mem i m s) = objects s" "sim_net (set_mem i m s) = sim_net s"
  "next_object (set_mem i m s) = next_object s" "sim_options (set_mem i m s) = sim_options s"
  "sim_rng (set_mem i m s) = sim_rng s" "console (set_mem i m s) = console s"
  by (simp_all add: set_mem_def)

lemma set_object_simps [simp]:
  "replicas (set_object x ob s) = replicas s"
  "objects (set_object x ob s) = (objects s)(x \<mapsto> ob)" "sim_net (set_object x ob s) = sim_net s"
  "next_object (set_object x ob s) = next_object s" "sim_options (set_object x ob s) = sim_options s"
  "sim_rng (set_object x ob s) = sim_rng s" "console (set_object x ob s) = console s"
  by (simp_all add: set_object_def)

lemma alive_cong:
  assumes "length (replicas s') = length (replicas s)"
    and "\<And>i. i < length (replicas s) \<Longrightarrow> live (fds (rep s' i)) = live (fds (rep s i))"
  shows "alive s' = alive s"
proof (rule ext)
  fix x
  show "alive s' x = alive s x"
    unfolding alive_iff assms(1) using assms(2) by metis
qed

lemma alive_set_object [simp]: "alive (set_object x ob s) = alive s"
  by (rule alive_cong) simp_all

lemma alive_set_mem [simp]: "alive (set_mem i m s) = alive s"
  by (rule alive_cong) (auto simp: nth_update)

lemma alive_lookup [simp]:
  "i < length (replicas s) \<Longrightarrow> alive (set_fds i (snd (fd_get fd (fds (rep s i)))) s) = alive s"
  by (rule alive_cong) (simp_all add: nth_update)

lemma alive_net [simp]: "alive (s\<lparr>sim_net := n\<rparr>) = alive s"
  by (rule alive_cong) simp_all

end
