(* ===== verification/Parse_Addr.thy ===== *)
theory Parse_Addr
  imports Sim_State
begin

text \<open>
  How a system call moves data between the simulator and the memory of the guest: the
  callbacks handed to the sockets and \<^verbatim>\<open>parse_addr\<close>, which reads a socket address of the guest;
  src/hook/impls.cpp.
\<close>

section \<open>Callbacks\<close>

text \<open>The address a callback holds advances by the result of the access.\<close>

definition store_fragment :: "'m env \<Rightarrow> 'm \<Rightarrow> u64 \<Rightarrow> nat \<Rightarrow> int \<times> bytes \<times> u64" where
  "store_fragment e m addr n =
     (let (res, data) = read_memory (kernel e) addr n m
      in (res, data, if 0 \<le> res then addr + of_i64 res else addr))"

definition load_fragment :: "'m env \<Rightarrow> bytes \<Rightarrow> 'm \<Rightarrow> u64 \<Rightarrow> int \<times> 'm \<times> u64" where
  "load_fragment e data m addr =
     (let (res, m') = write_memory (kernel e) addr data m
      in (res, m', if 0 \<le> res then addr + of_i64 res else addr))"

section \<open>Socket addresses\<close>

text \<open>
  \<^verbatim>\<open>addr_storage\<close> is 128 bytes of uninitialised storage overwritten from its start by what the
  guest passed. The path loop indexes \<^verbatim>\<open>sun_path\<close>, which starts at offset 2, by an index that
  starts at that same offset, so it reads up to two bytes past the address, and past the
  storage when the address fills it: those bytes come from the stack too.
\<close>

definition storage :: "bytes \<Rightarrow> (nat \<Rightarrow> u8) \<Rightarrow> nat \<Rightarrow> u8" where
  "storage dest junk i = (if i < length dest then dest ! i else junk i)"

definition le16 :: "u8 \<Rightarrow> u8 \<Rightarrow> u16" where
  "le16 lo hi = ucast lo OR push_bit 8 (ucast hi)"

function unix_path :: "(nat \<Rightarrow> u8) \<Rightarrow> nat \<Rightarrow> nat \<Rightarrow> bytes \<Rightarrow> int + bytes" where
  "unix_path st n i acc =
     (if i < n then
        (let c = st (2 + i)
         in if c = 0 then Inr acc
            else if i = n - 1 then Inl EINVAL
            else unix_path st n (i + 1) (acc @ [c]))
      else Inr acc)"
  by pat_completeness auto
termination
  by (relation "measure (\<lambda>(st, n, i, acc). n - i)") auto

declare unix_path.simps [simp del]

definition decode_addr :: "(nat \<Rightarrow> u8) \<Rightarrow> nat \<Rightarrow> int + socket_addr" where
  "decode_addr st n =
     (let family = le16 (st 0) (st 1)
      in if family = 2 then
           Inr (Inet \<lparr>port = le16 (st 2) (st 3), octets = (st 4, st 5, st 6, st 7)\<rparr>)
         else if family = 1 then
           (case unix_path st n 2 [] of Inl e \<Rightarrow> Inl e | Inr p \<Rightarrow> Inr (Local (Unix_addr p)))
         else Inl ENOTSUP)"

definition parse_addr :: "'m env \<Rightarrow> 'm \<Rightarrow> u64 \<Rightarrow> u64 \<Rightarrow> int + socket_addr" where
  "parse_addr e m dest_addr dest_len =
     (if 128 < dest_len \<or> dest_len < 2 then Inl EINVAL
      else
       (let (res, dest) = read_memory (kernel e) dest_addr (unat dest_len) m
        in if 0 > res then Inl EFAULT
           else decode_addr (storage dest (stack e)) (unat dest_len)))"

section \<open>What the decoder reads\<close>

lemma unix_path_run:
  assumes "i \<le> j" and "j < n" and "\<And>k. i \<le> k \<Longrightarrow> k < j \<Longrightarrow> st (2 + k) \<noteq> 0" and "st (2 + j) = 0"
  shows "unix_path st n i acc = Inr (acc @ map (\<lambda>k. st (2 + k)) [i..<j])"
  using assms(1,3)
proof (induction "j - i" arbitrary: i acc)
  case 0
  then have "i = j" by simp
  then show ?case using assms(2,4) by (simp add: unix_path.simps)
next
  case (Suc d)
  then have i: "i < j" "st (2 + i) \<noteq> 0" by auto
  have "unix_path st n (i + 1) (acc @ [st (2 + i)]) =
      Inr ((acc @ [st (2 + i)]) @ map (\<lambda>k. st (2 + k)) [i + 1..<j])"
    using Suc.hyps(2) Suc.prems by (intro Suc.hyps(1)) auto
  moreover have "unix_path st n i acc = unix_path st n (i + 1) (acc @ [st (2 + i)])"
    using i assms(2) by (subst unix_path.simps) (auto simp: Let_def)
  ultimately show ?case using i(1) by (simp add: upt_conv_Cons)
qed

lemma unix_path_cong:
  assumes "\<And>k. i \<le> k \<Longrightarrow> st (2 + k) = st' (2 + k)"
  shows "unix_path st n i acc = unix_path st' n i acc"
  using assms
proof (induction "n - i" arbitrary: i acc)
  case 0
  then show ?case by (simp add: unix_path.simps)
next
  case (Suc d)
  have "unix_path st n (i + 1) q = unix_path st' n (i + 1) q" for q
    using Suc.hyps(2) Suc.prems by (intro Suc.hyps(1)) auto
  then show ?case
    using Suc.prems [of i]
    by (simp add: unix_path.simps [of st n i] unix_path.simps [of st' n i] Let_def)
qed

lemma le16_small [simp]: "le16 2 0 = 2" "le16 1 0 = 1"
  by (simp_all add: le16_def)

text \<open>A sockaddr\_in, and a sockaddr\_un with its terminator.\<close>

lemma decode_inet:
  assumes "dest = [2, 0, p0, p1, a, b, c, d] @ rest"
  shows "decode_addr (storage dest junk) n =
    Inr (Inet \<lparr>port = le16 p0 p1, octets = (a, b, c, d)\<rparr>)"
  unfolding assms by (simp add: decode_addr_def storage_def Let_def)

lemma decode_unix:
  assumes "dest = [1, 0] @ cs @ [0] @ rest" and "0 \<notin> set cs" and "2 \<le> length cs"
    and "n = length dest"
  shows "decode_addr (storage dest junk) n = Inr (Local (Unix_addr (drop 2 cs)))"
proof -
  let ?st = "storage dest junk"
  have at: "?st (2 + k) = cs ! k" if "k < length cs" for k
    using that by (simp add: storage_def assms(1) nth_append)
  have "?st (2 + k) \<noteq> 0" if "k < length cs" for k
    unfolding at [OF that] using assms(2) that by (metis nth_mem)
  moreover have "?st (2 + length cs) = 0"
    by (simp add: storage_def assms(1) nth_append)
  ultimately have "unix_path ?st n 2 [] = Inr ([] @ map (\<lambda>k. ?st (2 + k)) [2..<length cs])"
    by (intro unix_path_run) (use assms in auto)
  also have "map (\<lambda>k. ?st (2 + k)) [2..<length cs] = map ((!) cs) [2..<length cs]"
    using at by (intro map_cong) auto
  also have "\<dots> = drop 2 cs"
    by (rule nth_equalityI) simp_all
  finally have path: "unix_path ?st n 2 [] = Inr (drop 2 cs)" by simp
  have "?st 0 = 1" "?st 1 = 0" by (simp_all add: storage_def assms(1))
  then show ?thesis by (simp add: decode_addr_def path Let_def)
qed

text \<open>An address that the guest holds in mapped memory.\<close>

definition guest_bytes :: "flat \<Rightarrow> u64 \<Rightarrow> bytes \<Rightarrow> bool" where
  "guest_bytes m p bs \<longleftrightarrow> mapped (\<lambda>m. m) p (round_up (length bs)) m \<and>
     region (\<lambda>m. m) p (length bs) m = bs"

lemma read_guest_bytes:
  "guest_bytes m p bs \<Longrightarrow> length bs < 2 ^ 63 \<Longrightarrow> read_memory flat_ops p (length bs) m = (0, bs)"
  unfolding guest_bytes_def read_memory_def using flat.read_words_region by force

lemma parse_guest_bytes:
  assumes "kernel e = flat_ops" and "guest_bytes m p dest" and "2 \<le> length dest" and "length dest \<le> 128"
  shows "parse_addr e m p (of_nat (length dest)) = decode_addr (storage dest (stack e)) (length dest)"
proof -
  have len: "unat (of_nat (length dest) :: u64) = length dest"
    using assms(4) by (simp add: unat_of_nat take_bit_nat_eq_self)
  then have "\<not> (128 < (of_nat (length dest) :: u64) \<or> of_nat (length dest) < (2 :: u64))"
    using assms(3,4) by (simp add: word_less_nat_alt)
  then show ?thesis
    using read_guest_bytes [OF assms(2)] assms(1,4) by (simp add: parse_addr_def len)
qed

section \<open>Properties\<close>

text \<open>An IPv4 address of the guest is decoded from its first eight bytes: the octets in order, and
  the port as the little-endian number of bytes that are in network order, so the byte-swapped
  port. Lengths below 2 and above 128 are refused without a memory access.\<close>

theorem parse_ipv4:
  assumes "kernel e = flat_ops" and "guest_bytes m p ([2, 0, p0, p1, a, b, c, d] @ rest)"
    and "length rest \<le> 120"
  shows "parse_addr e m p (of_nat (8 + length rest)) =
      Inr (Inet \<lparr>port = le16 p0 p1, octets = (a, b, c, d)\<rparr>) \<and>
    (128 < len \<or> len < 2 \<longrightarrow> parse_addr e m q len = Inl EINVAL)"
  using parse_guest_bytes [OF assms(1,2)] assms(3) decode_inet [OF refl]
  by (simp add: parse_addr_def)

text \<open>A terminated UNIX path of the guest loses its first two characters, so paths that differ
  only there name the same address.\<close>

theorem parse_unix_loses_prefix:
  assumes "kernel e = flat_ops" and "guest_bytes m p ([1, 0] @ cs @ [0] @ rest)"
    and "0 \<notin> set cs" and "2 \<le> length cs" and "3 + length cs + length rest \<le> 128"
  shows "parse_addr e m p (of_nat (3 + length cs + length rest)) = Inr (Local (Unix_addr (drop 2 cs)))"
  using parse_guest_bytes [OF assms(1,2)] assms(5) decode_unix [OF refl assms(3,4) refl]
  by (simp add: add.assoc)

text \<open>With an address shorter than the family needs, the decoded address consists of what the
  stack holds: a 2-byte IPv4 address takes its port and octets from there.\<close>

theorem parse_short_address_reads_stack:
  "decode_addr (storage [2, 0] junk) 2 =
     Inr (Inet \<lparr>port = le16 (junk 2) (junk 3), octets = (junk 4, junk 5, junk 6, junk 7)\<rparr>)"
  by (simp add: decode_addr_def storage_def Let_def)

section \<open>An address in a concrete memory\<close>

definition memory_with :: "u64 \<Rightarrow> bytes \<Rightarrow> flat" where
  "memory_with p bs = (\<lambda>a. Some (if unat (a - p) < length bs then bs ! unat (a - p) else 0))"

lemma guest_bytes_memory_with: "length bs < 2 ^ 63 \<Longrightarrow> guest_bytes (memory_with p bs) p bs"
  unfolding guest_bytes_def
  by (intro conjI region_eqI) (simp_all add: mapped_def memory_with_def)

definition test_env :: "flat env" where
  "test_env = \<lparr>kernel = flat_ops, bern = canonical_bernoulli xo_next, clock = 0,
     called_at = 0, stack = (\<lambda>_. 0xAA), ndebug = True\<rparr>"

lemma test_env_simps [simp]:
  "kernel test_env = flat_ops" "bern test_env = canonical_bernoulli xo_next" "clock test_env = 0"
  "ndebug test_env"
  by (simp_all add: test_env_def)

theorem parse_ipv4_witness:
  "parse_addr test_env (memory_with 64 [2, 0, 0x1F, 0x90, 127, 0, 0, 1, 0, 0]) 64 10 =
     Inr (Inet \<lparr>port = 0x901F, octets = (127, 0, 0, 1)\<rparr>)"
  using parse_ipv4 [OF test_env_simps(1), of _ 64 "0x1F" "0x90" 127 0 0 1 "[0, 0]",
      OF guest_bytes_memory_with]
  by (simp add: le16_def)

theorem parse_unix_loses_prefix_witness:
  "parse_addr test_env (memory_with 64 [1, 0, 47, 97, 120, 121, 0]) 64 7 =
     Inr (Local (Unix_addr [120, 121]))"
  using parse_unix_loses_prefix [OF test_env_simps(1), of _ 64 "[47, 97, 120, 121]" "[]",
      OF guest_bytes_memory_with]
  by simp

end
