(* ===== verification/Hook_Table.thy ===== *)
theory Hook_Table
  imports Syscall_Names "HOL-Library.List_Lexorder" "HOL-Library.Char_ord"
begin

text \<open>
  The table that maps system call numbers to the functions that simulate them, and the
  statistics kept of its lookups: src/hook/hook.cpp. A hook is the constructor named after
  its function; a null entry is \<^const>\<open>None\<close>. The numbers are those of the x86-64 headers,
  which \<^verbatim>\<open>syscall_name\<close> repeats.
\<close>

datatype hook =
    Sys_write | Sys_read | Sys_close | Sys_socket | Sys_sendto | Sys_recvfrom | Sys_connect
  | Sys_bind | Sys_clock_gettime | Sys_clock_nanosleep | Explicit_passthrough

definition implemented_hooks :: "(nat \<times> hook) list" where
  "implemented_hooks =
     [(1, Sys_write), (0, Sys_read), (3, Sys_close), (41, Sys_socket), (44, Sys_sendto),
      (45, Sys_recvfrom), (42, Sys_connect), (49, Sys_bind), (228, Sys_clock_gettime),
      (230, Sys_clock_nanosleep)]"

text \<open>exit, exit\_group, mmap, mprotect, munmap, rt\_sigaction, set\_tid\_address,
  set\_robust\_list, rt\_sigprocmask, prlimit64, brk, arch\_prctl.\<close>

definition passthroughs :: "nat list" where
  "passthroughs = [60, 231, 9, 10, 11, 13, 218, 273, 14, 302, 12, 158]"

definition hook_map :: "(nat \<times> hook) list" where
  "hook_map = implemented_hooks @ map (\<lambda>n. (n, Explicit_passthrough)) passthroughs"

text \<open>
  \<^verbatim>\<open>std::max(begin, end, cmp)\<close> compares the two iterators, not the elements between them: it
  reads the number of the first pair and, past the end of the vector, a word \<open>garbage\<close> about
  which nothing is known, and returns the greater.
\<close>

definition max_sysno :: "u64 \<Rightarrow> u64" where
  "max_sysno garbage =
     (let front = of_nat (fst (hd hook_map)) in if front < garbage then garbage else front)"

text \<open>The greatest size of a vector of 8-byte pointers.\<close>

definition max_hooks :: nat where
  "max_hooks = (2 ^ 63 - 1) div 8"

fun install :: "(nat \<times> hook) list \<Rightarrow> hook option list \<Rightarrow> hook option list" where
  "install [] tbl = tbl"
| "install ((sys, h) # rest) tbl =
     (let tbl' = (if length tbl \<le> sys then tbl @ replicate (sys + 1 - length tbl) None else tbl)
      in install rest (tbl'[sys := Some h]))"

definition build_hook_table :: "u64 \<Rightarrow> trap + hook option list" where
  "build_hook_table garbage =
     (let n = unat (max_sysno garbage + 1)
      in if max_hooks < n then Inl Length_error
         else Inr (install hook_map (replicate n None)))"

record hook_stats =
  all_names :: "string set"
  passthrough_names :: "string set"
  implemented_names :: "string set"
  unimplemented_names :: "string set"

definition stats_init :: hook_stats where
  "stats_init = \<lparr>all_names = {}, passthrough_names = {}, implemented_names = {},
     unimplemented_names = {}\<rparr>"

text \<open>The number is converted to \<^verbatim>\<open>int\<close> for the name, not for the lookup.\<close>

definition get_hook :: "hook option list \<Rightarrow> u64 \<Rightarrow> hook_stats \<Rightarrow> hook option \<times> hook_stats" where
  "get_hook tbl sys st =
     (let name = syscall_name (sint (ucast sys :: u32));
          st1 = st\<lparr>all_names := insert name (all_names st)\<rparr>;
          h = (if unat sys < length tbl then tbl ! unat sys else None)
      in if h = Some Explicit_passthrough then
           (h, st1\<lparr>passthrough_names := insert name (passthrough_names st1)\<rparr>)
         else if h = None then
           (h, st1\<lparr>unimplemented_names := insert name (unimplemented_names st1)\<rparr>)
         else (h, st1\<lparr>implemented_names := insert name (implemented_names st1)\<rparr>))"

section \<open>Dispatch\<close>

text \<open>What \<^verbatim>\<open>print_stats\<close> prints, line by line; a set of names is in the order of its elements.\<close>

definition print_stats :: "hook_stats \<Rightarrow> string list" where
  "print_stats st =
     ''passthrough:'' # map ((#) (CHR 0x09)) (sorted_list_of_set (passthrough_names st)) @
     ''implemented:'' # map ((#) (CHR 0x09)) (sorted_list_of_set (implemented_names st)) @
     ''unimplemented:'' # map ((#) (CHR 0x09)) (sorted_list_of_set (unimplemented_names st))"

definition lookup :: "hook option list \<Rightarrow> nat \<Rightarrow> hook option" where
  "lookup tbl n = (if n < length tbl then tbl ! n else None)"

lemma lookup_padded: "lookup (tbl @ replicate k None) n = lookup tbl n"
  by (auto simp: lookup_def nth_append)

lemma lookup_update: "i < length tbl \<Longrightarrow> lookup (tbl[i := h]) n = (if n = i then h else lookup tbl n)"
  by (simp add: lookup_def)

lemma lookup_install:
  "lookup (install hs tbl) n =
     (case map_of (rev hs) n of Some h \<Rightarrow> Some h | None \<Rightarrow> lookup tbl n)"
proof (induction hs tbl rule: install.induct)
  case (2 sys h rest tbl)
  let ?t = "if length tbl \<le> sys then tbl @ replicate (sys + 1 - length tbl) None else tbl"
  have "sys < length ?t" by simp
  moreover have "lookup ?t n = lookup tbl n" by (simp add: lookup_padded)
  ultimately have "lookup (?t[sys := Some h]) n = (if n = sys then Some h else lookup tbl n)"
    by (simp add: lookup_update)
  moreover have "install ((sys, h) # rest) tbl = install rest (?t[sys := Some h])"
    by (simp only: install.simps Let_def)
  ultimately show ?case
    using "2.IH" [OF refl] by (simp only:) (simp add: map_add_def split: option.splits)
qed simp

definition hook_for :: "nat \<Rightarrow> hook option" where
  "hook_for n = map_of hook_map n"

lemma hook_map_distinct: "distinct (map fst hook_map)"
  by (simp add: hook_map_def implemented_hooks_def passthroughs_def)

lemma hook_for_rev: "map_of (rev hook_map) n = hook_for n"
proof -
  have d: "distinct (map fst (rev hook_map))" using hook_map_distinct by (simp add: rev_map [symmetric])
  have iff: "map_of (rev hook_map) n = Some h \<longleftrightarrow> hook_for n = Some h" for h
    unfolding hook_for_def map_of_eq_Some_iff [OF d] map_of_eq_Some_iff [OF hook_map_distinct] by simp
  show ?thesis
    by (cases "hook_for n"; cases "map_of (rev hook_map) n") (use iff in auto)
qed

lemma build_hook_table_lookup:
  assumes "build_hook_table garbage = Inr tbl"
  shows "lookup tbl n = hook_for n"
proof -
  have "tbl = install hook_map (replicate (unat (max_sysno garbage + 1)) None)"
    using assms by (auto simp: build_hook_table_def Let_def split: if_splits)
  moreover have "lookup (replicate k None) n = None" for k by (simp add: lookup_def)
  ultimately show ?thesis
    by (simp add: lookup_install hook_for_rev split: option.splits)
qed

lemma fst_get_hook: "fst (get_hook tbl sys st) = lookup tbl (unat sys)"
  by (simp add: get_hook_def lookup_def Let_def)

lemma hook_for_bound: "hook_for n = Some h \<Longrightarrow> n < 436"
  by (auto simp: hook_for_def hook_map_def implemented_hooks_def passthroughs_def split: if_splits)

text \<open>The name under which each hook's number is known.\<close>

definition hook_name :: "hook \<Rightarrow> string" where
  "hook_name h = (case h of
     Sys_write \<Rightarrow> ''write'' | Sys_read \<Rightarrow> ''read'' | Sys_close \<Rightarrow> ''close''
   | Sys_socket \<Rightarrow> ''socket'' | Sys_sendto \<Rightarrow> ''sendto'' | Sys_recvfrom \<Rightarrow> ''recvfrom''
   | Sys_connect \<Rightarrow> ''connect'' | Sys_bind \<Rightarrow> ''bind''
   | Sys_clock_gettime \<Rightarrow> ''clock_gettime'' | Sys_clock_nanosleep \<Rightarrow> ''clock_nanosleep''
   | Explicit_passthrough \<Rightarrow> [])"

section \<open>Statistics\<close>

fun get_hooks :: "hook option list \<Rightarrow> u64 list \<Rightarrow> hook_stats \<Rightarrow> hook_stats" where
  "get_hooks tbl [] st = st"
| "get_hooks tbl (sys # rest) st = get_hooks tbl rest (snd (get_hook tbl sys st))"

definition name_of :: "u64 \<Rightarrow> string" where
  "name_of sys = syscall_name (sint (ucast sys :: u32))"

definition names_with :: "hook option list \<Rightarrow> (hook option \<Rightarrow> bool) \<Rightarrow> u64 list \<Rightarrow> string set" where
  "names_with tbl p syss = name_of ` {sys \<in> set syss. p (lookup tbl (unat sys))}"

lemma get_hooks_stats:
  "get_hooks tbl syss st =
     \<lparr>all_names = all_names st \<union> name_of ` set syss,
      passthrough_names = passthrough_names st \<union> names_with tbl (\<lambda>h. h = Some Explicit_passthrough) syss,
      implemented_names = implemented_names st \<union>
        names_with tbl (\<lambda>h. h \<noteq> None \<and> h \<noteq> Some Explicit_passthrough) syss,
      unimplemented_names = unimplemented_names st \<union> names_with tbl (\<lambda>h. h = None) syss\<rparr>"
proof (induction syss arbitrary: st)
  case Nil
  then show ?case by (simp add: names_with_def)
next
  case (Cons sys syss)
  have cons: "names_with tbl p (sys # syss) =
      (if p (lookup tbl (unat sys)) then {name_of sys} else {}) \<union> names_with tbl p syss" for p
    by (auto simp: names_with_def)
  have step: "snd (get_hook tbl sys st) =
     (let st1 = st\<lparr>all_names := insert (name_of sys) (all_names st)\<rparr>; h = lookup tbl (unat sys)
      in if h = Some Explicit_passthrough
         then st1\<lparr>passthrough_names := insert (name_of sys) (passthrough_names st1)\<rparr>
         else if h = None
         then st1\<lparr>unimplemented_names := insert (name_of sys) (unimplemented_names st1)\<rparr>
         else st1\<lparr>implemented_names := insert (name_of sys) (implemented_names st1)\<rparr>)"
    by (simp add: get_hook_def name_of_def lookup_def Let_def)
  show ?case
    by (simp add: step Cons.IH cons Let_def)
qed

section \<open>Properties\<close>

text \<open>C20: Whatever word the misuse of \<^verbatim>\<open>std::max\<close> reads past the end of the list, a table that is
  built maps exactly the registered numbers, each to its function, and every lookup, of any
  64-bit number, finds that function or none; the registered numbers are those of the system
  calls with the functions' names.\<close>

theorem dispatch_correct:
  assumes "build_hook_table garbage = Inr tbl"
  shows "fst (get_hook tbl sys st) = map_of hook_map (unat sys) \<and>
    map (\<lambda>(n, h). syscall_name (int n)) implemented_hooks =
      map (\<lambda>(n, h). hook_name h) implemented_hooks"
  by (simp add: fst_get_hook build_hook_table_lookup [OF assms] hook_for_def
      implemented_hooks_def hook_name_def hooked_names)

theorem dispatch_correct_witness:
  "\<exists>tbl. fst (get_hook tbl 44 stats_init) = Some Sys_sendto \<and> fst (get_hook tbl 2 stats_init) = None"
proof -
  obtain tbl where b: "build_hook_table 0 = Inr tbl"
    by (simp add: build_hook_table_def max_sysno_def max_hooks_def hook_map_def implemented_hooks_def)
  show ?thesis
    using dispatch_correct [OF b, of 44 stats_init] dispatch_correct [OF b, of 2 stats_init]
    by (intro exI [of _ tbl])
      (simp add: hook_map_def implemented_hooks_def passthroughs_def)
qed

text \<open>Building the table fails exactly when the word read past the end of the list asks for more
  entries than a vector can hold; a word of 2^64 - 1 or at most 1 does not.\<close>

theorem hook_table_built_unless_garbage:
  "build_hook_table garbage = Inl Length_error \<longleftrightarrow>
     garbage \<noteq> - 1 \<and> max_hooks \<le> unat garbage"
proof -
  have front: "of_nat (fst (hd hook_map)) = (1 :: u64)" by (simp add: hook_map_def implemented_hooks_def)
  show ?thesis
  proof (cases "1 < garbage")
    case False
    then have "unat garbage \<le> 1" by (simp add: word_less_nat_alt)
    then show ?thesis
      using False by (simp add: build_hook_table_def max_sysno_def front max_hooks_def Let_def)
  next
    case True
    show ?thesis
    proof (cases "garbage = - 1")
      case True
      then show ?thesis using \<open>1 < garbage\<close>
        by (simp add: build_hook_table_def max_sysno_def front)
    next
      case False
      then have "garbage + 1 \<noteq> 0" by (metis add.commute add_eq_0_iff)
      then have "unat (garbage + 1) = Suc (unat garbage)" by (metis add.commute unatSuc)
      then show ?thesis
        using True False by (auto simp: build_hook_table_def max_sysno_def front Let_def)
    qed
  qed
qed

text \<open>The statistics hold, after any sequence of lookups, exactly the names of the numbers looked
  up, split by what the lookups found.\<close>

theorem hook_stats_partition:
  "let st = get_hooks tbl syss stats_init
   in all_names st = name_of ` set syss \<and>
      all_names st = passthrough_names st \<union> implemented_names st \<union> unimplemented_names st \<and>
      implemented_names st = names_with tbl (\<lambda>h. h \<noteq> None \<and> h \<noteq> Some Explicit_passthrough) syss \<and>
      unimplemented_names st = names_with tbl (\<lambda>h. h = None) syss"
  by (simp add: get_hooks_stats stats_init_def names_with_def Let_def image_Un [symmetric])
    (rule arg_cong [of _ _ "image name_of"], auto)

end
