(* ===== verification/Hooks.thy ===== *)
theory Hooks
  imports Parse_Addr Hook_Table
begin

text \<open>
  The simulated system calls: the functions of src/hook/impls.cpp, the result they hand to the
  tracer (src/hook/hook.hpp), the default operations of a file descriptor
  (src/sim/file_descriptor.hpp), the standard output descriptor
  (src/sim/file_descriptor.cpp) and the operations of the sockets that need the network
  (src/net/datagram_socket.cpp). Each works on one replica and returns a result and the new
  state of the simulation.
\<close>

datatype hook_result = Handled u64 | Passthrough

definition handled :: "int \<Rightarrow> hook_result" where
  "handled v = Handled (of_i64 v)"

definition hook_error :: "int \<Rightarrow> hook_result" where
  "hook_error errnum = Handled (of_i64 (- errnum))"

type_synonym args = "u64 \<times> u64 \<times> u64 \<times> u64 \<times> u64 \<times> u64"

type_synonym 'm hook_fun =
  "'m env \<Rightarrow> nat \<Rightarrow> args \<Rightarrow> 'm sim \<Rightarrow> (hook_result, 'm sim) outcome"

text \<open>The conversion of an argument to \<^verbatim>\<open>int\<close>.\<close>

abbreviation as_int :: "u64 \<Rightarrow> u32" where
  "as_int w \<equiv> ucast w"

text \<open>\<^verbatim>\<open>fd_table().get(fd)\<close> of replica \<open>i\<close>.\<close>

definition get_fd :: "nat \<Rightarrow> u32 \<Rightarrow> 'm sim \<Rightarrow> nat option \<times> 'm sim" where
  "get_fd i fd s = (let (x, t) = fd_get fd (fds (rep s i)) in (x, set_fds i t s))"

section \<open>File descriptors\<close>

function stdout_loop ::
  "('c \<Rightarrow> nat \<Rightarrow> int \<times> bytes \<times> 'c) \<Rightarrow> nat \<Rightarrow> nat \<Rightarrow> 'c \<Rightarrow> console_item list \<Rightarrow> int \<times> console_item list"
where
  "stdout_loop load n written c out =
     (if written < n then
        (let k = (if 8192 > n then n else 8192); (res, data, c') = load c k
         in if res < 0 then (res, out)
            else stdout_loop load n (written + k) c' (out @ [Quoted data, Raw data, Count k]))
      else (to_i64 (of_nat written), out))"
  by pat_completeness auto
termination
  by (relation "measure (\<lambda>(load, n, written, c, out). n - written)") (auto split: if_splits)

declare stdout_loop.simps [simp del]

definition stdout_write ::
  "('c \<Rightarrow> nat \<Rightarrow> int \<times> bytes \<times> 'c) \<Rightarrow> nat \<Rightarrow> 'c \<Rightarrow> int \<times> console_item list" where
  "stdout_write load n c = stdout_loop load n 0 c [Quoted (replicate 4 0)]"

text \<open>The virtual \<^verbatim>\<open>write\<close> and \<^verbatim>\<open>read\<close>: sockets inherit the defaults.\<close>

definition fd_write :: "'m env \<Rightarrow> nat \<Rightarrow> nat \<Rightarrow> u64 \<Rightarrow> u64 \<Rightarrow> 'm sim \<Rightarrow> int \<times> 'm sim" where
  "fd_write e i x ptr len s =
     (case objects s x of
        Some Stdout_obj \<Rightarrow>
          (let (res, out) =
             stdout_write (\<lambda>addr n. store_fragment e (mem (rep s i)) addr n) (unat len) ptr
           in (res, s\<lparr>console := console s @ out\<rparr>))
      | _ \<Rightarrow> (- EINVAL, s))"

definition fd_read :: "nat \<Rightarrow> 'm sim \<Rightarrow> int \<times> 'm sim" where
  "fd_read x s = (- EINVAL, s)"

definition sys_write :: "'m hook_fun" where
  "sys_write e i = (\<lambda>(a0, ptr, len, _) s.
     if \<not> is_simulated (as_int a0) then Done Passthrough s
     else
      (case get_fd i (as_int a0) s of
         (None, s1) \<Rightarrow> Done (hook_error EBADF) s1
       | (Some x, s1) \<Rightarrow> (let (res, s2) = fd_write e i x ptr len s1 in Done (handled res) s2)))"

definition sys_read :: "'m hook_fun" where
  "sys_read e i = (\<lambda>(a0, ptr, len, _) s.
     if \<not> is_simulated (as_int a0) then Done Passthrough s
     else
      (case get_fd i (as_int a0) s of
         (None, s1) \<Rightarrow> Done (hook_error EBADF) s1
       | (Some x, s1) \<Rightarrow> (let (res, s2) = fd_read x s1 in Done (handled res) s2)))"

definition sys_close :: "'m hook_fun" where
  "sys_close e i = (\<lambda>(a0, _) s.
     if \<not> is_simulated (as_int a0) then Done Passthrough s
     else
      (case fd_close (ndebug e) (as_int a0) (fds (rep s i)) of
         Inl t \<Rightarrow> Trapped t
       | Inr (r, t) \<Rightarrow> Done (handled r) (set_fds i t s)))"

definition sys_open :: "'m hook_fun" where
  "sys_open e i = (\<lambda>_ s. Done Passthrough s)"

section \<open>Sockets\<close>

definition socket_domain :: "u32 \<Rightarrow> address_family option" where
  "socket_domain d = (if d = 2 then Some Ipv4 else if d = 1 then Some Unix_family else None)"

text \<open>The object is made, drawing from the simulator's generator for a datagram socket, before
  it is known whether a descriptor is left.\<close>

definition make_socket :: "address_family \<Rightarrow> u32 \<Rightarrow> 'm sim \<Rightarrow> (nat \<times> 'm sim) option" where
  "make_socket af ty s =
     (if ty = 1 then Some (new_object (Stream_obj (stream_socket_new af)) s)
      else if ty = 2 then
        (let (d, rng) = datagram_socket_new af (sim_options s) (sim_rng s)
         in Some (new_object (Dgram_obj d) (s\<lparr>sim_rng := rng\<rparr>)))
      else None)"

definition sys_socket :: "'m hook_fun" where
  "sys_socket e i = (\<lambda>(domain, ty, _) s.
     case socket_domain (as_int domain) of
       None \<Rightarrow> Done (hook_error EINVAL) s
     | Some af \<Rightarrow>
        (case make_socket af (as_int ty) s of
           None \<Rightarrow> Done (hook_error EINVAL) s
         | Some (x, s1) \<Rightarrow>
            (case fd_insert (ndebug e) x (fds (rep s1 i)) of
               Inl t \<Rightarrow> Trapped t
             | Inr (fd, t) \<Rightarrow>
                if sint fd < 0 then Done (hook_error EMFILE) (set_fds i t s1)
                else Done (handled (sint fd)) (set_fds i t s1))))"

text \<open>
  \<^verbatim>\<open>send_to\<close>: the destination is looked up and the bytes are read before they are delivered to
  it, with the null address for the sender. A length of 2^63 or more is more than a vector can
  hold.
\<close>

definition deliver :: "'m env \<Rightarrow> bytes \<Rightarrow> socket_addr \<Rightarrow> datagram_socket \<Rightarrow> (trap + datagram_socket) option" where
  "deliver e dgram addr d =
     (case pipe_send (bern e) (clock e) dgram addr (inbound d) of
        None \<Rightarrow> None
      | Some (Inl t) \<Rightarrow> Some (Inl t)
      | Some (Inr pipe) \<Rightarrow> Some (Inr (d\<lparr>inbound := pipe\<rparr>)))"

definition send_to ::
  "'m env \<Rightarrow> (nat \<Rightarrow> int \<times> bytes) \<Rightarrow> u64 \<Rightarrow> socket_addr \<Rightarrow> 'm sim \<Rightarrow> (int, 'm sim) outcome" where
  "send_to e read_data len dst s =
     (let (sock, net') = net_get (alive s) dst (sim_net s); s1 = s\<lparr>sim_net := net'\<rparr>
      in case sock of
           None \<Rightarrow> Done (- EHOSTUNREACH) s1
         | Some y \<Rightarrow>
            (case objects s1 y of
               Some (Dgram_obj d) \<Rightarrow>
                 if 2 ^ 63 \<le> unat len then Trapped Length_error
                 else
                  (let (res, buf) = read_data (unat len)
                   in if res < 0 then Done res s1
                      else
                       (case deliver e buf null_addr d of
                          None \<Rightarrow> Diverges
                        | Some (Inl t) \<Rightarrow> Trapped t
                        | Some (Inr d') \<Rightarrow> Done (to_i64 len) (set_object y (Dgram_obj d') s1)))
             | _ \<Rightarrow> Done (- ECONNREFUSED) s1))"

text \<open>\<^verbatim>\<open>recv_from\<close>: the result of the store callback is ignored.\<close>

definition recv_from ::
  "'m env \<Rightarrow> (bytes \<Rightarrow> 'm \<Rightarrow> int \<times> 'm) \<Rightarrow> nat \<Rightarrow> datagram_socket \<Rightarrow> 'm \<Rightarrow>
   (int \<times> socket_addr, datagram_socket \<times> 'm) outcome" where
  "recv_from e write_data n d m =
     (case pipe_recv (clock e) (inbound d) of
        Done (data, addr) pipe \<Rightarrow>
          (let data' = (if n < length data then take n data else data);
               (_, m') = write_data data' m
           in Done (int (length data'), addr) (d\<lparr>inbound := pipe\<rparr>, m'))
      | Blocked \<Rightarrow> Blocked
      | Diverges \<Rightarrow> Diverges
      | Trapped t \<Rightarrow> Trapped t)"

definition sys_sendto :: "'m hook_fun" where
  "sys_sendto e i = (\<lambda>(a0, buf, len, _, dest_addr, dest_len) s.
     if \<not> is_simulated (as_int a0) then Done Passthrough s
     else
      (case parse_addr e (mem (rep s i)) dest_addr dest_len of
         Inl err \<Rightarrow> Done (hook_error err) s
       | Inr dst \<Rightarrow>
          (case get_fd i (as_int a0) s of
             (None, s1) \<Rightarrow> Done (hook_error EBADF) s1
           | (Some x, s1) \<Rightarrow>
              (case objects s1 x of
                 Some (Dgram_obj _) \<Rightarrow>
                   (case send_to e (\<lambda>n. let (res, data, _) = store_fragment e (mem (rep s1 i)) buf n
                                      in (res, data)) len dst s1 of
                      Done r s2 \<Rightarrow> Done (handled r) s2
                    | Blocked \<Rightarrow> Blocked | Diverges \<Rightarrow> Diverges | Trapped t \<Rightarrow> Trapped t)
               | _ \<Rightarrow> Done (hook_error ENOTSOCK) s1))))"

definition sys_recvfrom :: "'m hook_fun" where
  "sys_recvfrom e i = (\<lambda>(a0, buf, len, _) s.
     if \<not> is_simulated (as_int a0) then Done Passthrough s
     else
      (case get_fd i (as_int a0) s of
         (None, s1) \<Rightarrow> Done (hook_error EBADF) s1
       | (Some x, s1) \<Rightarrow>
          (case objects s1 x of
             Some (Dgram_obj d) \<Rightarrow>
               (case recv_from e (\<lambda>data m. let (res, m', _) = load_fragment e data m buf in (res, m'))
                   (unat len) d (mem (rep s1 i)) of
                  Done (r, _) (d', m') \<Rightarrow>
                    Done (handled r) (set_mem i m' (set_object x (Dgram_obj d') s1))
                | Blocked \<Rightarrow> Blocked | Diverges \<Rightarrow> Diverges | Trapped t \<Rightarrow> Trapped t)
           | _ \<Rightarrow> Done (hook_error ENOTSOCK) s1)))"

definition is_socket :: "object option \<Rightarrow> bool" where
  "is_socket ob = (case ob of Some (Stream_obj _) \<Rightarrow> True | Some (Dgram_obj _) \<Rightarrow> True | _ \<Rightarrow> False)"

definition sys_connect :: "'m hook_fun" where
  "sys_connect e i = (\<lambda>(a0, addr, addr_len, _) s.
     if \<not> is_simulated (as_int a0) then Done Passthrough s
     else
      (case parse_addr e (mem (rep s i)) addr addr_len of
         Inl err \<Rightarrow> Done (hook_error err) s
       | Inr sock_addr \<Rightarrow>
          (case get_fd i (as_int a0) s of
             (None, s1) \<Rightarrow> Done (hook_error EBADF) s1
           | (Some x, s1) \<Rightarrow>
              if \<not> is_socket (objects s1 x) then Done (hook_error ENOTSOCK) s1
              else
               (let (peer_id, net') = net_get (alive s1) sock_addr (sim_net s1);
                    s2 = s1\<lparr>sim_net := net'\<rparr>
                in case peer_id of
                     None \<Rightarrow> Done (hook_error ECONNREFUSED) s2
                   | Some y \<Rightarrow>
                      (case objects s2 x of
                         Some (Stream_obj ss) \<Rightarrow>
                           (case objects s2 y of
                              Some (Stream_obj ps) \<Rightarrow>
                                if listening ps then Done (hook_error ECONNREFUSED) s2
                                else
                                 (let (r, ss') = stream_connect y ps ss
                                  in Done (handled r) (set_object x (Stream_obj ss') s2))
                            | _ \<Rightarrow> Done (hook_error ECONNREFUSED) s2)
                       | _ \<Rightarrow> Done (hook_error EOPNOTSUPP) s2)))))"

definition sys_bind :: "'m hook_fun" where
  "sys_bind e i = (\<lambda>(a0, arg_addr, arg_addr_len, _) s.
     if \<not> is_simulated (as_int a0) then Done Passthrough s
     else
      (case get_fd i (as_int a0) s of
         (None, s1) \<Rightarrow> Done (hook_error EBADF) s1
       | (Some x, s1) \<Rightarrow>
          if \<not> is_socket (objects s1 x) then Done (hook_error ENOTSOCK) s1
          else
           (case parse_addr e (mem (rep s1 i)) arg_addr arg_addr_len of
              Inl err \<Rightarrow> Done (hook_error err) s1
            | Inr addr \<Rightarrow>
               (let (err, net') = net_bind (alive s1) addr x (sim_net s1);
                    s2 = s1\<lparr>sim_net := net'\<rparr>
                in if err \<noteq> 0 then Done (hook_error err) s2 else Done (handled 0) s2))))"

section \<open>Clocks\<close>

text \<open>
  The time scale divides the time a guest sees and multiplies the time it sleeps. Doubles are
  exact rationals here. A sleeping call is \<^const>\<open>Blocked\<close> until the time to sleep has passed.
\<close>

definition truncate :: "rat \<Rightarrow> int" where
  "truncate x = (if 0 \<le> x then \<lfloor>x\<rfloor> else \<lceil>x\<rceil>)"

definition rat_to_i64 :: "rat \<Rightarrow> int option" where
  "rat_to_i64 x =
     (let k = truncate x in if - (2 ^ 63) \<le> k \<and> k < 2 ^ 63 then Some k else None)"

definition timespec_bytes :: "int \<Rightarrow> int \<Rightarrow> bytes" where
  "timespec_bytes sec nsec = le_bytes (of_i64 sec) @ le_bytes (of_i64 nsec)"

definition timespec_of :: "bytes \<Rightarrow> int \<times> int" where
  "timespec_of bs = (to_i64 (le_word (take 8 bs)), to_i64 (le_word (take 8 (drop 8 bs))))"

definition timespec_ns :: "int \<times> int \<Rightarrow> trap + int" where
  "timespec_ns = (\<lambda>(sec, nsec).
     case mul_ns sec (10 ^ 9) of Inl t \<Rightarrow> Inl t | Inr ns \<Rightarrow> add_ns ns nsec)"

definition sys_clock_nanosleep :: "'m hook_fun" where
  "sys_clock_nanosleep e i = (\<lambda>(_, _, arg_request, _) s.
     let (res, tm) = read_memory (kernel e) arg_request 16 (mem (rep s i))
     in if res < 0 then Done (hook_error (- res)) s
        else
         (case timespec_ns (timespec_of tm) of
            Inl t \<Rightarrow> Trapped t
          | Inr duration \<Rightarrow>
              if of_int (clock e) < of_int (called_at e) + of_int duration * time_scale (sim_options s)
              then Blocked else Done (handled 0) s))"

text \<open>The time since the start of the steady clock, scaled from the replica's epoch on.\<close>

definition scaled_time :: "rat \<Rightarrow> int \<Rightarrow> int \<Rightarrow> rat" where
  "scaled_time scale ep now = of_int ep + of_int (now - ep) / scale"

definition split_time :: "rat \<Rightarrow> trap + int \<times> int" where
  "split_time t =
     (case rat_to_i64 (t / 10 ^ 9) of
        None \<Rightarrow> Inl Bad_conversion
      | Some sec \<Rightarrow>
         (case rat_to_i64 (t - of_int sec * 10 ^ 9) of
            None \<Rightarrow> Inl Bad_conversion
          | Some nsec \<Rightarrow> Inr (sec, nsec)))"

definition sys_clock_gettime :: "'m hook_fun" where
  "sys_clock_gettime e i = (\<lambda>(_, arg_res, _) s.
     let r = rep s i; scale = time_scale (sim_options s)
     in if scale = 0 then Trapped Bad_conversion
        else
         (case split_time (scaled_time scale (epoch r) (clock e)) of
            Inl t \<Rightarrow> Trapped t
          | Inr (sec, nsec) \<Rightarrow>
             (let (res, m') = write_memory (kernel e) arg_res (timespec_bytes sec nsec) (mem r);
                  s1 = set_mem i m' s
              in if res < 0 then Done (hook_error (- res)) s1 else Done (handled 0) s1)))"

section \<open>The function a hook stands for\<close>

definition run_hook :: "hook \<Rightarrow> 'm hook_fun" where
  "run_hook h = (case h of
     Sys_write \<Rightarrow> sys_write | Sys_read \<Rightarrow> sys_read | Sys_close \<Rightarrow> sys_close
   | Sys_socket \<Rightarrow> sys_socket | Sys_sendto \<Rightarrow> sys_sendto | Sys_recvfrom \<Rightarrow> sys_recvfrom
   | Sys_connect \<Rightarrow> sys_connect | Sys_bind \<Rightarrow> sys_bind
   | Sys_clock_gettime \<Rightarrow> sys_clock_gettime | Sys_clock_nanosleep \<Rightarrow> sys_clock_nanosleep
   | Explicit_passthrough \<Rightarrow> (\<lambda>e i a s. Done Passthrough s))"

lemmas hook_defs = sys_write_def sys_read_def sys_close_def sys_socket_def sys_sendto_def
  sys_recvfrom_def sys_connect_def sys_bind_def sys_clock_gettime_def sys_clock_nanosleep_def

end
