(* ===== verification/Hook_Steps.thy ===== *)
theory Hook_Steps
  imports Hooks
begin

text \<open>
  The system calls as sequences of elementary changes of the simulation, the invariant that
  every such change keeps, and what a call cannot change.
\<close>

inductive micro :: "'m env \<Rightarrow> nat \<Rightarrow> 'm sim \<Rightarrow> 'm sim \<Rightarrow> bool" for e i where
  Lookup: "micro e i s (set_fds i (snd (fd_get fd (fds (rep s i)))) s)"
| Close: "fd_close (ndebug e) fd (fds (rep s i)) = Inr (r, t) \<Longrightarrow> micro e i s (set_fds i t s)"
| Make: "make_socket af ty s = Some (x, s1) \<Longrightarrow>
    fd_insert (ndebug e) x (fds (rep s1 i)) = Inr (fd, t) \<Longrightarrow> micro e i s (set_fds i t s1)"
| Resolve: "micro e i s (s\<lparr>sim_net := snd (net_get (alive s) a (sim_net s))\<rparr>)"
| Bind: "is_socket (objects s x) \<Longrightarrow> micro e i s (s\<lparr>sim_net := snd (net_bind (alive s) a x (sim_net s))\<rparr>)"
| Deliver: "objects s y = Some (Dgram_obj d) \<Longrightarrow> deliver e buf addr d = Some (Inr d') \<Longrightarrow>
    micro e i s (set_object y (Dgram_obj d') s)"
| Receive: "objects s x = Some (Dgram_obj d) \<Longrightarrow> pipe_recv (clock e) (inbound d) = Done da p \<Longrightarrow>
    micro e i s (set_object x (Dgram_obj (d\<lparr>inbound := p\<rparr>)) s)"
| Connect: "objects s x = Some (Stream_obj ss) \<Longrightarrow> stream_connect y ps ss = (r, ss') \<Longrightarrow>
    micro e i s (set_object x (Stream_obj ss') s)"
| Store: "m = write_words (kernel e) p data (mem (rep s i)) \<Longrightarrow> micro e i s (set_mem i m s)"
| Print: "micro e i s (s\<lparr>console := c\<rparr>)"

abbreviation evolves :: "'m env \<Rightarrow> nat \<Rightarrow> 'm sim \<Rightarrow> 'm sim \<Rightarrow> bool" where
  "evolves e i \<equiv> (micro e i)\<^sup>*\<^sup>*"

lemma micro_evolves: "micro e i s s' \<Longrightarrow> evolves e i s s'"
  by (rule r_into_rtranclp)

lemma evolves_micro: "evolves e i s s' \<Longrightarrow> micro e i s' s'' \<Longrightarrow> evolves e i s s''"
  by (rule rtranclp.rtrancl_into_rtrancl)

section \<open>Each call as a sequence of changes\<close>

lemma get_fd_evolves: "get_fd i fd s = (x, s1) \<Longrightarrow> evolves e i s s1"
  using micro_evolves [OF micro.Lookup, of e i s fd] by (auto simp: get_fd_def Let_def case_prod_beta)

lemma sys_write_evolves: "sys_write e i a s = Done r s' \<Longrightarrow> evolves e i s s'"
  by (auto simp: sys_write_def fd_write_def Let_def case_prod_beta
      split: prod.splits option.splits object.splits if_splits
      dest!: get_fd_evolves [where e = e] intro: evolves_micro micro.Print)

lemma sys_read_evolves: "sys_read e i a s = Done r s' \<Longrightarrow> evolves e i s s'"
  by (auto simp: sys_read_def fd_read_def Let_def split: prod.splits option.splits if_splits
      dest!: get_fd_evolves [where e = e])

lemma sys_close_evolves: "sys_close e i a s = Done r s' \<Longrightarrow> evolves e i s s'"
  by (auto simp: sys_close_def split: prod.splits sum.splits if_splits intro: micro_evolves micro.Close micro.Make)

lemma sys_socket_evolves: "sys_socket e i a s = Done r s' \<Longrightarrow> evolves e i s s'"
  by (auto simp: sys_socket_def split: prod.splits sum.splits option.splits if_splits
      intro: micro_evolves micro.Close micro.Make)

lemma deliver_after:
  assumes "evolves e i s (s1\<lparr>sim_net := n\<rparr>)" and "objects s1 y = Some (Dgram_obj d)"
    and "deliver e buf addr d = Some (Inr d')"
  shows "evolves e i s (set_object y (Dgram_obj d') (s1\<lparr>sim_net := n\<rparr>))"
  using assms(2,3) by (intro evolves_micro [OF assms(1)] micro.Deliver) simp_all

lemma connect_after:
  assumes "evolves e i s s1" and "objects s1 x = Some (Stream_obj ss)"
  shows "evolves e i s (set_object x (Stream_obj (snd (stream_connect y ps ss)))
    (s1\<lparr>sim_net := snd (net_get (alive s1) a (sim_net s1))\<rparr>))"
proof (rule evolves_micro [OF evolves_micro [OF assms(1) micro.Resolve]])
  let ?s = "s1\<lparr>sim_net := snd (net_get (alive s1) a (sim_net s1))\<rparr>"
  have "objects ?s x = Some (Stream_obj ss)" using assms(2) by simp
  then show "micro e i ?s (set_object x (Stream_obj (snd (stream_connect y ps ss))) ?s)"
    by (rule micro.Connect [OF _ prod.collapse [symmetric]])
qed

lemma send_to_evolves: "send_to e rd len dst s = Done r s' \<Longrightarrow> evolves e i s s'"
  using micro_evolves [OF micro.Resolve, of e i s dst]
  by (auto simp: send_to_def Let_def case_prod_beta split: prod.splits option.splits object.splits
        sum.splits if_splits intro: deliver_after)

lemma sys_sendto_evolves: "sys_sendto e i a s = Done r s' \<Longrightarrow> evolves e i s s'"
  unfolding sys_sendto_def
  by (auto simp: case_prod_beta split: prod.splits option.splits object.splits sum.splits
        if_splits outcome.splits
      dest!: get_fd_evolves [where e = e] send_to_evolves [where i = i] intro: rtranclp_trans)

lemma recv_from_Done:
  assumes "recv_from e wr n d m = Done (r, addr) (d', m')"
  shows "\<exists>data p. pipe_recv (clock e) (inbound d) = Done (data, addr) p \<and> d' = d\<lparr>inbound := p\<rparr> \<and>
    r = int (length (take n data)) \<and> m' = snd (wr (take n data) m)"
  using assms by (auto simp: recv_from_def Let_def case_prod_beta split: outcome.splits prod.splits if_splits)

lemma sys_recvfrom_evolves: "sys_recvfrom e i a s = Done r s' \<Longrightarrow> evolves e i s s'"
  unfolding sys_recvfrom_def
  by (auto simp: load_fragment_def write_memory_def Let_def
      split: prod.splits option.splits object.splits if_splits outcome.splits
      dest!: get_fd_evolves [where e = e] recv_from_Done
      intro!: evolves_micro [OF evolves_micro micro.Store] intro: micro.Receive)

lemma sys_connect_evolves: "sys_connect e i a s = Done r s' \<Longrightarrow> evolves e i s s'"
  unfolding sys_connect_def
  by (auto simp: Let_def case_prod_beta split: prod.splits option.splits object.splits sum.splits if_splits
      dest!: get_fd_evolves [where e = e] simp del: fun_upd_apply
      intro: evolves_micro [OF _ micro.Resolve] connect_after)

lemma sys_bind_evolves: "sys_bind e i a s = Done r s' \<Longrightarrow> evolves e i s s'"
  unfolding sys_bind_def
  by (auto simp: Let_def case_prod_beta split: prod.splits option.splits sum.splits if_splits
      dest!: get_fd_evolves [where e = e] intro: evolves_micro micro.Bind)

lemma sys_clock_evolves:
  "sys_clock_gettime e i a s = Done r s' \<Longrightarrow> evolves e i s s'"
  "sys_clock_nanosleep e i a s = Done r s' \<Longrightarrow> evolves e i s s'"
  by (auto simp: sys_clock_gettime_def sys_clock_nanosleep_def write_memory_def Let_def
      split: prod.splits sum.splits if_splits intro!: micro_evolves micro.Store)

lemma run_hook_evolves: "run_hook h e i a s = Done r s' \<Longrightarrow> evolves e i s s'"
  by (cases h) (auto simp: run_hook_def intro: sys_write_evolves sys_read_evolves sys_close_evolves
      sys_socket_evolves sys_sendto_evolves sys_recvfrom_evolves sys_connect_evolves
      sys_bind_evolves sys_clock_evolves)

section \<open>What a call of replica i cannot change\<close>

text \<open>The other replicas, the options, and replica i's epoch; and no object disappears.\<close>

definition frame :: "nat \<Rightarrow> 'm sim \<Rightarrow> 'm sim \<Rightarrow> bool" where
  "frame i s s' \<longleftrightarrow> length (replicas s') = length (replicas s) \<and> sim_options s' = sim_options s \<and>
     (\<forall>j < length (replicas s). j \<noteq> i \<longrightarrow> rep s' j = rep s j) \<and>
     (\<forall>j < length (replicas s). epoch (rep s' j) = epoch (rep s j))"

lemma frame_refl: "frame i s s"
  by (simp add: frame_def)

lemma frame_trans: "frame i s s' \<Longrightarrow> frame i s' s'' \<Longrightarrow> frame i s s''"
  by (simp add: frame_def)

lemma make_socket_simps:
  assumes "make_socket af ty s = Some (x, s1)"
  shows "replicas s1 = replicas s" "sim_options s1 = sim_options s" "sim_net s1 = sim_net s"
    "x = next_object s" "next_object s1 = next_object s + 1"
    "\<exists>ob. objects s1 = (objects s)(x \<mapsto> ob)" "alive s1 = alive s"
  using assms by (auto simp: make_socket_def new_object_def alive_def fun_eq_iff case_prod_beta Let_def
      split: if_splits)

lemma micro_frame: "micro e i s s' \<Longrightarrow> frame i s s'"
proof (induction rule: micro.induct)
  case (Make af ty s x s1 fd t)
  then show ?case by (auto simp: frame_def nth_update make_socket_simps)
qed (auto simp: frame_def nth_update)

lemma evolves_frame: "evolves e i s s' \<Longrightarrow> frame i s s'"
  by (induction rule: rtranclp_induct) (auto intro: frame_refl frame_trans micro_frame)

section \<open>The invariant of the simulation\<close>

text \<open>
  Descriptors and bindings refer to objects that were made, every datagram pipe has the heap
  order and the options of the simulation, and the standard output descriptor is in no table.
\<close>

definition object_ok :: "options \<Rightarrow> object \<Rightarrow> bool" where
  "object_ok opts ob = (case ob of
     Stream_obj ss \<Rightarrow> True
   | Dgram_obj d \<Rightarrow> pipe_ok (inbound d) \<and> faults (inbound d) = net_faults opts
   | Stdout_obj \<Rightarrow> False)"

lemma object_ok_simps [simp]:
  "object_ok opts (Stream_obj ss)" "\<not> object_ok opts Stdout_obj"
  "object_ok opts (Dgram_obj d) \<longleftrightarrow> pipe_ok (inbound d) \<and> faults (inbound d) = net_faults opts"
  by (simp_all add: object_ok_def)

definition held :: "'m replica \<Rightarrow> nat set" where
  "held r = ran (live (fds r))"

definition bound_to :: "nat network \<Rightarrow> nat set" where
  "bound_to net = {x. \<exists>a. fmlookup (addr_map net) a = Some (Some x)}"

definition sim_ok :: "'m sim \<Rightarrow> bool" where
  "sim_ok s \<longleftrightarrow> valid_faults (net_faults (sim_options s)) \<and>
     (\<forall>r \<in> set (replicas s). held r \<subseteq> dom (objects s)) \<and>
     bound_to (sim_net s) \<subseteq> dom (objects s) \<and>
     (\<forall>x ob. objects s x = Some ob \<longrightarrow> x < next_object s \<and> object_ok (sim_options s) ob)"

lemma held_mem [simp]: "held (r\<lparr>mem := m\<rparr>) = held r"
  by (simp add: held_def)

lemma all_update:
  assumes "\<forall>r \<in> set xs. P r" and "i < length xs \<Longrightarrow> P (xs ! i) \<Longrightarrow> P y"
  shows "\<forall>r \<in> set (xs[i := y]). P r"
proof (cases "i < length xs")
  case True
  then show ?thesis using assms set_update_subset_insert [of xs i y] by auto
next
  case False
  then show ?thesis using assms(1) by (simp add: list_update_beyond)
qed

lemma held_update:
  assumes "\<forall>r \<in> set (replicas s). held r \<subseteq> D" and "held (rep s i) \<subseteq> D \<Longrightarrow> held r' \<subseteq> D"
  shows "\<forall>r \<in> set ((replicas s)[i := r']). held r \<subseteq> D"
  by (rule all_update [where P = "\<lambda>r. held r \<subseteq> D"]) (use assms in auto)

lemma live_after_close:
  "fd_close nd fd t = Inr (r, t') \<Longrightarrow> live t' k = Some y \<Longrightarrow> live t k = Some y"
  by (auto simp: fd_close_def live_def split: option.splits if_splits)

lemma live_after_insert:
  "fd_insert nd f t = Inr (fd, t') \<Longrightarrow> live t' k = Some y \<Longrightarrow> live t k = Some y \<or> y = f"
  by (auto simp: fd_insert_def fd_alloc_def live_def Let_def split: option.splits if_splits)

lemma bound_to_get: "bound_to (snd (net_get al a net)) \<subseteq> bound_to net"
  by (auto simp: bound_to_def net_defs case_prod_beta Let_def split: option.splits if_splits)

lemma bound_to_bind: "bound_to (snd (net_bind al a y net)) \<subseteq> insert y (bound_to net)"
  by (auto simp: bound_to_def net_defs case_prod_beta Let_def split: option.splits if_splits)

lemma make_socket_object_ok:
  assumes "make_socket af ty s = Some (x, s1)" and "valid_faults (net_faults (sim_options s))"
  shows "\<exists>ob. objects s1 = (objects s)(x \<mapsto> ob) \<and> object_ok (sim_options s) ob"
  using assms
  by (auto simp: make_socket_def new_object_def datagram_socket_new_def pipe_seed_def pipe_init_def
      pipe_ok_def case_prod_beta Let_def split: if_splits)

lemma sim_okI_tables:
  assumes "sim_ok s" and "\<And>fd x. live t fd = Some x \<Longrightarrow> live (fds (rep s i)) fd = Some x"
  shows "sim_ok (set_fds i t s)"
proof -
  have "ran (live t) \<subseteq> held (rep s i)" using assms(2) by (auto simp: held_def ran_def)
  then have "\<forall>r \<in> set (replicas (set_fds i t s)). held r \<subseteq> dom (objects s)"
    unfolding set_fds_simps(1) using assms(1)
    by (intro held_update) (simp_all add: sim_ok_def, simp add: held_def)
  then show ?thesis using assms(1) by (simp add: sim_ok_def)
qed

lemma sim_okI_object:
  assumes "sim_ok s" and "objects s x \<noteq> None" and "object_ok (sim_options s) ob"
  shows "sim_ok (set_object x ob s)"
  using assms unfolding sim_ok_def by auto

lemma sim_okI_net:
  assumes "sim_ok s" and "bound_to n \<subseteq> dom (objects s)"
  shows "sim_ok (s\<lparr>sim_net := n\<rparr>)"
  using assms by (simp add: sim_ok_def)

lemma deliver_object_ok:
  assumes "object_ok opts (Dgram_obj d)" and "valid_time (clock e)"
    and "deliver e buf addr d = Some (Inr d')"
  shows "object_ok opts (Dgram_obj d')"
proof -
  obtain p where p: "pipe_send (bern e) (clock e) buf addr (inbound d) = Some (Inr p)"
    "d' = d\<lparr>inbound := p\<rparr>"
    using assms(3) by (auto simp: deliver_def split: option.splits sum.splits)
  with pipe_send_keeps [OF _ assms(2) p(1)] assms(1) show ?thesis by auto
qed

lemma receive_object_ok:
  assumes "object_ok opts (Dgram_obj d)" and "pipe_recv now (inbound d) = Done da p"
  shows "object_ok opts (Dgram_obj (d\<lparr>inbound := p\<rparr>))"
  using pipe_recv_Done [of "inbound d" now "fst da" "snd da" p] assms by fastforce

lemma sim_okI_mem:
  assumes "sim_ok s"
  shows "sim_ok (set_mem i m s)"
proof -
  have "\<forall>r \<in> set (replicas (set_mem i m s)). held r \<subseteq> dom (objects s)"
    unfolding set_mem_simps(1) using assms by (intro held_update) (simp_all add: sim_ok_def)
  with assms show ?thesis by (simp add: sim_ok_def)
qed

lemma micro_sim_ok:
  assumes "micro e i s s'" and "sim_ok s" and "valid_time (clock e)"
  shows "sim_ok s'"
  using assms
proof (induction rule: micro.induct)
  case (Lookup s fd)
  then show ?case by (intro sim_okI_tables) simp_all
next
  case (Close fd s r t)
  then show ?case by (auto intro: sim_okI_tables live_after_close)
next
  case (Make af ty s x s1 fd t)
  obtain ob where ob: "objects s1 = (objects s)(x \<mapsto> ob)" "object_ok (sim_options s) ob"
    using make_socket_object_ok [OF Make(1)] Make.prems(1) by (auto simp: sim_ok_def)
  have "ran (live t) \<subseteq> insert x (held (rep s i))"
    using live_after_insert [OF Make(2)] make_socket_simps(1) [OF Make(1)]
    by (auto simp: held_def ran_def)
  then have "\<forall>r \<in> set (replicas (set_fds i t s1)). held r \<subseteq> insert x (dom (objects s))"
    unfolding set_fds_simps(1) make_socket_simps(1) [OF Make(1)] using Make.prems(1)
    by (intro held_update) (auto simp: sim_ok_def, auto simp: held_def)
  then show ?case
    using Make.prems(1) ob make_socket_simps [OF Make(1)]
    unfolding sim_ok_def by (auto simp: less_Suc_eq)
next
  case (Resolve s a)
  then have "bound_to (sim_net s) \<subseteq> dom (objects s)" by (simp add: sim_ok_def)
  with Resolve.prems(1) show ?case by (intro sim_okI_net order_trans [OF bound_to_get])
next
  case (Bind s x a)
  then have "insert x (bound_to (sim_net s)) \<subseteq> dom (objects s)" 
    by (auto simp: sim_ok_def is_socket_def split: option.splits)
  with Bind.prems(1) show ?case by (intro sim_okI_net order_trans [OF bound_to_bind])
next
  case (Deliver s y d buf addr d')
  then have "object_ok (sim_options s) (Dgram_obj d)" unfolding sim_ok_def by blast
  from deliver_object_ok [OF this Deliver.prems(2) Deliver(2)] Deliver(1) Deliver.prems(1)
  show ?case by (intro sim_okI_object) simp_all
next
  case (Receive s x d da p)
  then have "object_ok (sim_options s) (Dgram_obj d)" unfolding sim_ok_def by blast
  from receive_object_ok [OF this Receive(2)] Receive(1) Receive.prems(1)
  show ?case by (intro sim_okI_object) simp_all
next
  case (Connect s x ss y ps r ss')
  then show ?case by (intro sim_okI_object) auto
next
  case (Store m p data s)
  then show ?case by (simp add: sim_okI_mem)
next
  case (Print s c)
  then show ?case by (simp add: sim_ok_def)
qed

lemma evolves_sim_ok:
  "evolves e i s s' \<Longrightarrow> sim_ok s \<Longrightarrow> valid_time (clock e) \<Longrightarrow> sim_ok s'"
  by (induction rule: rtranclp_induct) (auto intro: micro_sim_ok)

section \<open>A call changes its own process only by pokes\<close>

lemma write_words_view:
  assumes "\<And>p w m. V (poke k p w m) = V m"
  shows "V (write_words k p data m) = V m"
proof (induction "length data" arbitrary: p data m rule: less_induct)
  case less
  then show ?case by (subst write_words.simps) (simp add: assms Let_def)
qed

lemma micro_view:
  assumes "micro e i s s'" and "i < length (replicas s)"
    and "\<And>p w m. V (poke (kernel e) p w m) = V m"
  shows "V (mem (rep s' i)) = V (mem (rep s i))"
  using assms(1,2)
proof (induction rule: micro.induct)
  case (Make af ty s x s1 fd t)
  then show ?case by (simp add: make_socket_simps [OF Make(1)])
qed (simp_all add: nth_update write_words_view assms(3))

lemma run_hook_view:
  assumes "run_hook h e i a s = Done r s'" and "i < length (replicas s)"
    and "\<And>p w m. V (poke (kernel e) p w m) = V m"
  shows "V (mem (rep s' i)) = V (mem (rep s i)) \<and> length (replicas s') = length (replicas s)"
  using run_hook_evolves [OF assms(1)]
proof (induction rule: rtranclp_induct)
  case base
  show ?case by simp
next
  case (step t u)
  then have "V (mem (rep u i)) = V (mem (rep t i))"
    using assms(2) by (intro micro_view [OF step(2) _ assms(3)]) simp
  with step(3) micro_frame [OF step(2)] assms(2) show ?case by (simp add: frame_def)
qed

end
