(* ===== verification/System.thy ===== *)
theory System
  imports Hook_Steps
begin

text \<open>
  What the guests of a simulation observe: the runs of a simulation and their invariant, the
  isolation of the replicas, the ends of a system call, and the calls that span descriptors,
  names, sockets and guest memory. The properties about one component are in its theory.
\<close>

section \<open>Evaluating a call\<close>

lemma set_fds_id [simp]: "set_fds i (fds (rep s i)) s = s"
proof -
  have "(rep s i)\<lparr>fds := fds (rep s i)\<rparr> = rep s i" by simp
  then show ?thesis by (simp add: set_fds_def)
qed

lemma fd_get_live: "live t fd = Some x \<Longrightarrow> fd_get fd t = (Some x, t)"
  by (auto simp: fd_get_def live_def split: option.splits)

lemma get_fd_live: "live (fds (rep s i)) fd = Some x \<Longrightarrow> get_fd i fd s = (Some x, s)"
  by (simp add: get_fd_def fd_get_live)

lemma get_fd_dead:
  "live (fds (rep s i)) fd = None \<Longrightarrow>
   get_fd i fd s = (None, set_fds i (snd (fd_get fd (fds (rep s i)))) s)"
  using fst_fd_get [of fd "fds (rep s i)"] by (simp add: get_fd_def case_prod_beta Let_def)

lemma alive_held: "i < length (replicas s) \<Longrightarrow> live (fds (rep s i)) fd = Some x \<Longrightarrow> alive s x"
  by (auto simp: alive_iff)

lemma net_get_bound:
  "fmlookup (addr_map net) a = Some (Some x) \<Longrightarrow> al x \<Longrightarrow> net_get al a net = (Some x, net)"
  by (simp add: net_defs)

lemma deliver_no_faults:
  assumes "pipe_ok (inbound d)" and "valid_time (clock e)"
    and "p_replay (faults (inbound d)) = 0" and "\<And>r. \<not> fst (bern e (p_drop (faults (inbound d))) r)"
  obtains p r where
    "deliver e data addr d = Some (Inr (d\<lparr>inbound := (inbound d)
       \<lparr>packets := push_all [p] (packets (inbound d)), pipe_rng := r\<rparr>\<rparr>))"
    and "original (clock e) (faults (inbound d)) data addr p"
proof -
  obtain res where res: "pipe_send (bern e) (clock e) data addr (inbound d) = Some res"
    using pipe_send_returns [OF assms(1-3)] by blast
  from assms(1,2) this show ?thesis
  proof (cases rule: pipe_send_cases)
    case (queued p ps r)
    then have "deliver e data addr d = Some (Inr (d\<lparr>inbound := (inbound d)
       \<lparr>packets := push_all [p] (packets (inbound d)), pipe_rng := r\<rparr>\<rparr>))"
      using assms(3) res by (simp add: deliver_def)
    with queued(3) show ?thesis by (rule that [rotated])
  qed (use assms(4) in simp)
qed

lemma recv_single:
  assumes "packets (inbound d) = push_all [p] []" and "arrival p \<le> clock e"
  shows "recv_from e wr n d m =
    Done (int (length (take n (payload p))), sender p)
      (d\<lparr>inbound := (inbound d)\<lparr>packets := []\<rparr>\<rparr>, snd (wr (take n (payload p)) m))"
proof -
  have "packets (inbound d) = [p]"
    using assms(1) by (simp add: push_all_def pq_push_def sift_up.simps)
  then have "pipe_recv (clock e) (inbound d) = Done (payload p, sender p) ((inbound d)\<lparr>packets := []\<rparr>)"
    using assms(2) by (simp add: pipe_recv_def pq_top_def pq_pop_def)
  then show ?thesis
    by (simp add: recv_from_def Let_def case_prod_beta)
qed

lemma sendto_step:
  assumes "is_simulated (as_int fa)" and "live (fds (rep s i)) (as_int fa) = Some x"
    and "objects s x = Some (Dgram_obj dx)"
    and "parse_addr e (mem (rep s i)) p plen = Inr dst"
    and "fmlookup (addr_map (sim_net s)) dst = Some (Some y)" and "alive s y"
    and "objects s y = Some (Dgram_obj d)"
    and "read_memory (kernel e) buf (unat len) (mem (rep s i)) = (0, data)" and "unat len < 2 ^ 63"
    and "deliver e data null_addr d = Some (Inr d')"
  shows "sys_sendto e i (fa, buf, len, fl, p, plen) s =
    Done (handled (to_i64 len)) (set_object y (Dgram_obj d') s)"
  using assms
  by (simp add: sys_sendto_def get_fd_live send_to_def net_get_bound store_fragment_def not_le)

lemma store_result:
  "(case load_fragment e data m buf of (res, m', _) \<Rightarrow> (res, m')) =
   write_memory (kernel e) buf data m"
  by (simp add: load_fragment_def Let_def case_prod_beta)

lemma recvfrom_step:
  assumes "is_simulated (as_int fb)" and "live (fds (rep s i)) (as_int fb) = Some y"
    and "objects s y = Some (Dgram_obj d)"
    and "recv_from e (\<lambda>data m. write_memory (kernel e) buf data m) (unat n) d (mem (rep s i)) = Done (r, ad) (d', m')"
  shows "sys_recvfrom e i (fb, buf, n, rest) s =
    Done (handled r) (set_mem i m' (set_object y (Dgram_obj d') s))"
  using assms by (simp add: sys_recvfrom_def get_fd_live store_result)

lemma sim_ok_pipe:
  "sim_ok s \<Longrightarrow> objects s y = Some (Dgram_obj d) \<Longrightarrow>
   pipe_ok (inbound d) \<and> faults (inbound d) = net_faults (sim_options s)"
  unfolding sim_ok_def by fastforce

section \<open>Runs\<close>

text \<open>The states of a simulation whose guests make any calls with any arguments, and between them
  change their own memory in any way.\<close>

inductive reachable :: "options \<Rightarrow> 'm sim \<Rightarrow> bool" for opts where
  boot: "reachable opts (sim_init opts)"
| start: "reachable opts s \<Longrightarrow> reachable opts (machine_start m now s)"
| compute: "reachable opts s \<Longrightarrow> i < length (replicas s) \<Longrightarrow> reachable opts (set_mem i m s)"
| call: "reachable opts s \<Longrightarrow> i < length (replicas s) \<Longrightarrow> valid_time (clock e) \<Longrightarrow>
    run_hook h e i a s = Done r s' \<Longrightarrow> reachable opts s'"

lemma sim_ok_init: "valid_faults (net_faults opts) \<Longrightarrow> sim_ok (sim_init opts)"
  by (simp add: sim_ok_def sim_init_def bound_to_def network_init_def)

lemma sim_ok_start: "sim_ok s \<Longrightarrow> sim_ok (machine_start m now s)"
  by (auto simp: sim_ok_def machine_start_def replica_new_def held_def live_def fd_table_init_def ran_def)

lemma reachable_sim_ok:
  assumes "reachable opts s" and "valid_faults (net_faults opts)"
  shows "sim_ok s \<and> sim_options s = opts"
  using assms
proof (induction rule: reachable.induct)
  case boot
  then show ?case using sim_ok_init by (auto simp: sim_init_def)
next
  case (start s m now)
  then show ?case using sim_ok_start by (auto simp: machine_start_def)
next
  case (compute s i m)
  then show ?case by (simp add: sim_okI_mem)
next
  case (call s i e h a r s')
  then have "evolves e i s s'" by (intro run_hook_evolves)
  with call show ?case
    using evolves_sim_ok [of e i s s'] evolves_frame [of e i s s'] by (simp add: frame_def)
qed

lemma sim_ok_held:
  assumes "sim_ok s" and "i < length (replicas s)" and "live (fds (rep s i)) fd = Some x"
  shows "is_socket (objects s x) \<and> x < next_object s"
proof -
  have "x \<in> held (rep s i)" using assms(3) by (auto simp: held_def ran_def)
  then have "x \<in> dom (objects s)" using assms(1,2) unfolding sim_ok_def by (metis nth_mem subsetD)
  then obtain ob where "objects s x = Some ob" by auto
  with assms(1) have "object_ok (sim_options s) ob" "x < next_object s" "objects s x = Some ob"
    unfolding sim_ok_def by auto
  then show ?thesis by (cases ob) (simp_all add: is_socket_def)
qed

section \<open>Traps\<close>

lemma no_trap_close: "fd_close True fd t \<noteq> Inl tr"
  by (auto simp: fd_close_def split: option.splits)

lemma no_trap_insert: "fd_insert True f t \<noteq> Inl tr"
  by (auto simp: fd_insert_def fd_alloc_def Let_def split: option.splits)

lemma no_trap_deliver:
  assumes "pipe_ok (inbound d)" and "valid_time (clock e)"
  shows "deliver e buf addr d \<noteq> Some (Inl tr)"
  using pipe_send_keeps [OF assms] by (auto simp: deliver_def split: option.splits sum.splits)

lemma no_trap_recv: "recv_from e wr n d m \<noteq> Trapped tr"
  by (auto simp: recv_from_def pipe_recv_def Let_def case_prod_beta split: outcome.splits if_splits)

lemma send_to_traps:
  assumes "send_to e rd len dst s = Trapped tr" and "sim_ok s" and "valid_time (clock e)"
  shows "tr = Length_error \<and> 2 ^ 63 \<le> unat len"
  using assms no_trap_deliver [of _ e] sim_ok_pipe [OF assms(2)]
  by (auto simp: send_to_def Let_def case_prod_beta split: option.splits object.splits if_splits sum.splits)

lemma sim_ok_lookup: "get_fd i fd s = (x, s1) \<Longrightarrow> sim_ok s \<Longrightarrow> sim_ok s1"
  by (auto simp: get_fd_def case_prod_beta Let_def intro: sim_okI_tables)

lemma traps_of_calls:
  assumes "run_hook h e i a s = Trapped tr" and "sim_ok s" and "valid_time (clock e)" and "ndebug e"
  shows "h = Sys_sendto \<and> tr = Length_error \<and> 2 ^ 63 \<le> unat (fst (snd (snd a))) \<or>
    h = Sys_clock_nanosleep \<and> tr = Overflow \<or> h = Sys_clock_gettime \<and> tr = Bad_conversion"
proof (cases h)
  case Sys_sendto
  then show ?thesis
    using assms by (auto simp: run_hook_def sys_sendto_def split: prod.splits sum.splits option.splits
        object.splits outcome.splits if_splits dest: sim_ok_lookup send_to_traps)
next
  case Sys_clock_nanosleep
  then show ?thesis
    using assms by (auto simp: run_hook_def sys_clock_nanosleep_def timespec_ns_def mul_ns_def add_ns_def
        Let_def split: prod.splits sum.splits if_splits)
next
  case Sys_clock_gettime
  then show ?thesis
    using assms by (auto simp: run_hook_def sys_clock_gettime_def split_time_def
        Let_def split: prod.splits sum.splits if_splits option.splits)
qed (use assms in
  \<open>auto simp: run_hook_def hook_defs no_trap_close no_trap_insert no_trap_recv Let_def split: prod.splits sum.splits option.splits object.splits
     outcome.splits if_splits\<close>)

section \<open>From one guest to another\<close>

text \<open>A descriptor of a replica that refers to a datagram socket.\<close>

definition dgram_at :: "'m sim \<Rightarrow> nat \<Rightarrow> u64 \<Rightarrow> nat \<Rightarrow> datagram_socket \<Rightarrow> bool" where
  "dgram_at s i fd x d \<longleftrightarrow> i < length (replicas s) \<and> is_simulated (as_int fd) \<and>
     live (fds (rep s i)) (as_int fd) = Some x \<and> objects s x = Some (Dgram_obj d)"

text \<open>The hosts of a transmission: replica \<open>a\<close> sends from \<open>fa\<close> to the address \<open>dst\<close>, to which
  the socket \<open>y\<close> is bound that replica \<open>b\<close> has at \<open>fb\<close>, with an empty queue.\<close>

definition connected_hosts ::
  "'m sim \<Rightarrow> nat \<Rightarrow> u64 \<Rightarrow> nat \<Rightarrow> u64 \<Rightarrow> socket_addr \<Rightarrow> bool" where
  "connected_hosts s a fa b fb dst \<longleftrightarrow>
     (\<exists>x dx y d. dgram_at s a fa x dx \<and> dgram_at s b fb y d \<and> packets (inbound d) = [] \<and>
        fmlookup (addr_map (sim_net s)) dst = Some (Some y))"

section \<open>Properties of all calls\<close>

text \<open>C10: Whatever calls the guests make, with whatever arguments, in every reachable state each
  descriptor of a replica refers to a socket that was made and not destroyed, each name of the
  network to a made object, and every pipe has its heap order and the simulation's options.\<close>

theorem reachable_invariant:
  assumes "valid_faults (net_faults opts)" and "reachable opts s" and "i < length (replicas s)"
    and "live (fds (rep s i)) fd = Some x"
  shows "sim_ok s \<and> is_socket (objects s x) \<and> x < next_object s \<and> alive s x"
  using reachable_sim_ok [OF assms(2,1)] sim_ok_held [OF _ assms(3,4)] alive_held [OF assms(3,4)]
  by simp

text \<open>C11: A call of one replica leaves every other replica as it is: its memory, its descriptors and
  its epoch, though they may refer to sockets the call changes; and the options and the number
  of replicas stay.\<close>

theorem replicas_isolated:
  assumes "run_hook h e i a s = Done r s'" and "j \<noteq> i" and "j < length (replicas s)"
  shows "rep s' j = rep s j \<and> length (replicas s') = length (replicas s) \<and>
    sim_options s' = sim_options s"
  using evolves_frame [OF run_hook_evolves [OF assms(1)]] assms(2,3) by (simp add: frame_def)


text \<open>Calls on a descriptor that is not simulated are passed to the kernel and change nothing.\<close>

theorem real_descriptors_pass_through:
  assumes "h \<in> {Sys_write, Sys_read, Sys_close, Sys_sendto, Sys_recvfrom, Sys_connect, Sys_bind}"
    and "\<not> is_simulated (as_int (fst a))"
  shows "run_hook h e i a s = Done Passthrough s"
  using assms by (cases a) (auto simp: run_hook_def hook_defs)

text \<open>read and write never move a byte through a simulated descriptor: on an open one they fail
  with EINVAL, because no socket overrides the default operations, and on another with EBADF.\<close>

theorem read_write_always_fail:
  assumes "sim_ok s" and "i < length (replicas s)" and "is_simulated (as_int fd)"
    and "h \<in> {Sys_read, Sys_write}"
  shows "\<exists>s'. run_hook h e i (fd, rest) s =
      Done (hook_error (if live (fds (rep s i)) (as_int fd) = None then EBADF else EINVAL)) s' \<and>
    objects s' = objects s \<and> mem (rep s' i) = mem (rep s i) \<and> console s' = console s"
proof (cases "live (fds (rep s i)) (as_int fd)")
  case None
  then show ?thesis using assms
    by (cases rest) (auto simp: run_hook_def sys_read_def sys_write_def get_fd_dead nth_update)
next
  case (Some x)
  then have "is_socket (objects s x)" using sim_ok_held [OF assms(1,2)] by blast
  then have "fd_write e i x ptr len s = (- EINVAL, s)" for ptr len
    by (auto simp: fd_write_def is_socket_def split: option.splits object.splits)
  then show ?thesis using assms Some
    by (cases rest)
      (auto simp: run_hook_def sys_read_def sys_write_def get_fd_live fd_read_def handled_def hook_error_def)
qed

section \<open>Names and descriptors\<close>

lemma binding_get [simp]: "binding al (snd (net_get al a net)) = binding al net"
  using net.lookup_get [of al a net] by simp

lemma alive_after_close:
  assumes "i < length (replicas s)" and "live t = (live (fds (rep s i)))(fd := None)"
  shows "alive (set_fds i t s) y \<longleftrightarrow>
    (\<exists>j k. j < length (replicas s) \<and> (j, k) \<noteq> (i, fd) \<and> live (fds (rep s j)) k = Some y)"
proof -
  have "live (fds (rep (set_fds i t s) j)) k =
      (if (j, k) = (i, fd) then None else live (fds (rep s j)) k)" if "j < length (replicas s)" for j k
    using assms(2) that by (auto simp: nth_update)
  then show ?thesis by (simp add: alive_iff del: set_fds_simps(1)) (metis length_list_update option.distinct(1) prod.inject set_fds_simps(1))
qed

text \<open>bind through a descriptor of an open socket succeeds exactly when no existing socket has
  the address, whichever replica owns that socket, and then binds it, leaving every other name;
  otherwise it fails with EADDRNOTAVAIL and changes no binding.\<close>

theorem bind_call:
  assumes "sim_ok s" and "i < length (replicas s)" and "is_simulated (as_int fd)"
    and "live (fds (rep s i)) (as_int fd) = Some x"
    and "parse_addr e (mem (rep s i)) p plen = Inr addr"
  shows "\<exists>s'. let free = binding (alive s) (sim_net s) addr = None in
    run_hook Sys_bind e i (fd, p, plen, rest) s =
      Done (if free then handled 0 else hook_error EADDRNOTAVAIL) s' \<and> replicas s' = replicas s \<and>
    binding (alive s') (sim_net s') =
      (if free then (binding (alive s) (sim_net s))(addr \<mapsto> x) else binding (alive s) (sim_net s))"
proof -
  have sock: "is_socket (objects s x)" and al: "alive s x"
    using sim_ok_held [OF assms(1,2,4)] alive_held [OF assms(2,4)] by simp_all
  obtain err net' where b: "net_bind (alive s) addr x (sim_net s) = (err, net')" by fastforce
  have "run_hook Sys_bind e i (fd, p, plen, rest) s =
      Done (if err \<noteq> 0 then hook_error err else handled 0) (s\<lparr>sim_net := net'\<rparr>)"
    using assms(3-5) sock b by (simp add: run_hook_def sys_bind_def get_fd_live case_prod_beta Let_def)
  then show ?thesis
    using net.bind_taken [of "alive s" "sim_net s" addr x] net.bind_free [of "alive s" "sim_net s" addr x] al b
    by (intro exI [of _ "s\<lparr>sim_net := net'\<rparr>"]) (auto simp: Let_def)
qed

text \<open>C27: Closing the only descriptor of a socket destroys the socket, and with it exactly the names
  bound to it, which are free for a later bind.\<close>

theorem close_call_releases_names:
  assumes "i < length (replicas s)" and "fd_ok (fds (rep s i))" and "is_simulated (as_int fd)"
    and "live (fds (rep s i)) (as_int fd) = Some x"
    and "\<And>j k. j < length (replicas s) \<Longrightarrow> live (fds (rep s j)) k = Some x \<Longrightarrow> j = i \<and> k = as_int fd"
  shows "\<exists>s'. run_hook Sys_close e i (fd, rest) s = Done (handled 0) s' \<and> \<not> alive s' x \<and>
    fd_ok (fds (rep s' i)) \<and>
    (binding (alive s') (sim_net s') addr = None \<longleftrightarrow>
      binding (alive s) (sim_net s) addr = None \<or> binding (alive s) (sim_net s) addr = Some x)"
proof -
  obtain t where t: "fd_ok t" "live t = (live (fds (rep s i)))(as_int fd := None)"
    "fd_close (ndebug e) (as_int fd) (fds (rep s i)) = Inr (0, t)"
    using fdt.close_ok [OF assms(2), where fd = "as_int fd" and ndebug = "ndebug e"] assms(4) by auto
  have alive: "alive (set_fds i t s) = (\<lambda>y. alive s y \<and> y \<noteq> x)"
  proof (rule ext, goal_cases)
    case (1 y)
    have "(j, k) \<noteq> (i, as_int fd) \<longleftrightarrow> y \<noteq> x"
      if "j < length (replicas s)" "live (fds (rep s j)) k = Some y" for j k
      using assms(4) assms(5) [of j k] that by auto
    then show ?case
      unfolding alive_after_close [OF assms(1) t(2)] unfolding alive_iff by blast
  qed
  have "run_hook Sys_close e i (fd, rest) s = Done (handled 0) (set_fds i t s)"
    using assms(3) t(3) by (cases rest) (simp add: run_hook_def sys_close_def)
  then show ?thesis
    using assms(1) t(1)
    by (intro exI [of _ "set_fds i t s"])
      (auto simp: alive net.lookup_restrict split: option.splits)
qed

text \<open>socket with a known family and type gives a descriptor that was not in use, referring to a
  new object, and keeps every other descriptor; when no descriptor is left it fails with EMFILE,
  after a datagram socket has already taken its seed from the simulation's generator.\<close>

theorem socket_call:
  assumes "i < length (replicas s)" and "fd_ok (fds (rep s i))"
    and "socket_domain (as_int d) = Some af" and "as_int ty \<in> {1, 2}"
  shows "\<exists>fd s'. run_hook Sys_socket e i (d, ty, rest) s =
      Done (if sint fd < 0 then hook_error EMFILE else handled (sint fd)) s' \<and>
    fd_ok (fds (rep s' i)) \<and>
    (sint fd < 0 \<longrightarrow> live (fds (rep s' i)) = live (fds (rep s i))) \<and>
    (\<not> sint fd < 0 \<longrightarrow> is_simulated fd \<and> live (fds (rep s i)) fd = None \<and>
       live (fds (rep s' i)) = (live (fds (rep s i)))(fd \<mapsto> next_object s)) \<and>
    (as_int ty = 2 \<longrightarrow> sim_rng s' = snd (seed_from xo_next (sim_rng s)))"
proof -
  obtain x s1 where mk: "make_socket af (as_int ty) s = Some (x, s1)"
    "as_int ty = 2 \<longrightarrow> sim_rng s1 = snd (seed_from xo_next (sim_rng s))"
    using assms(4) by (auto simp: make_socket_def new_object_def datagram_socket_new_def
        pipe_seed_def case_prod_beta Let_def)
  note ms = make_socket_simps [OF mk(1)]
  obtain fd t where t: "fd_insert (ndebug e) x (fds (rep s i)) = Inr (fd, t)" "fd_ok t"
    "if sint fd < 0 then t = fds (rep s i)
     else is_simulated fd \<and> live (fds (rep s i)) fd = None \<and> live t = (live (fds (rep s i)))(fd \<mapsto> x)"
    using fdt.add_ok [OF assms(2), where f = x and ndebug = "ndebug e"] by auto
  have "run_hook Sys_socket e i (d, ty, rest) s =
      Done (if sint fd < 0 then hook_error EMFILE else handled (sint fd)) (set_fds i t s1)"
    using assms(3) mk(1) t(1) ms(1) by (cases rest) (simp add: run_hook_def sys_socket_def)
  then show ?thesis
    using assms(1) t(2,3) ms mk(2)
    by (intro exI [of _ fd] exI [of _ "set_fds i t s1"]) (auto split: if_splits)
qed

text \<open>C3: End to end: on a link without drops and replays, the bytes a guest sends with sendto from
  its memory to an address are the bytes that the guest whose socket is bound to the address
  gets with recvfrom, truncated to its buffer, in its memory at the address it gives, when it
  asks at least one maximal latency later; both calls return the number of bytes.\<close>

theorem sendto_recvfrom_delivers:
  assumes "sim_ok s" and "connected_hosts s a fa b fb dst"
    and "p_drop (net_faults (sim_options s)) = 0" and "p_replay (net_faults (sim_options s)) = 0"
    and "\<And>r. \<not> fst (bern e 0 r)" and "kernel e = flat_ops" and "valid_time (clock e)"
    and "parse_addr e (mem (rep s a)) p plen = Inr dst"
    and "guest_bytes (mem (rep s a)) buf data" and "length data < 2 ^ 63"
    and "kernel e' = flat_ops" and "clock e + max_latency (net_faults (sim_options s)) \<le> clock e'"
    and "mapped (\<lambda>m. m) buf' (round_up (length (take (unat n) data))) (mem (rep s b))"
  shows "\<exists>s1 s2. sys_sendto e a (fa, buf, of_nat (length data), fl, p, plen) s =
      Done (handled (int (length data))) s1 \<and>
    sys_recvfrom e' b (fb, buf', n, fl', q, qlen) s1 =
      Done (handled (int (min (unat n) (length data)))) s2 \<and>
    region (\<lambda>m. m) buf' (min (unat n) (length data)) (mem (rep s2 b)) = take (unat n) data"
proof -
  obtain x dx y d where h: "dgram_at s a fa x dx" "dgram_at s b fb y d"
    "packets (inbound d) = []" "fmlookup (addr_map (sim_net s)) dst = Some (Some y)"
    using assms(2) by (auto simp: connected_hosts_def)
  have b: "b < length (replicas s)" using h(2) by (simp add: dgram_at_def)
  have alive: "alive s y" using h(2) alive_held by (auto simp: dgram_at_def)
  have pipe: "pipe_ok (inbound d)" "faults (inbound d) = net_faults (sim_options s)"
    using sim_ok_pipe [OF assms(1)] h(2) by (auto simp: dgram_at_def)
  obtain pk r where dl: "deliver e data null_addr d = Some (Inr (d\<lparr>inbound := (inbound d)
      \<lparr>packets := push_all [pk] (packets (inbound d)), pipe_rng := r\<rparr>\<rparr>))"
    and orig: "original (clock e) (net_faults (sim_options s)) data null_addr pk"
    using deliver_no_faults [OF pipe(1) assms(7), where data = data and addr = null_addr]
      pipe(2) assms(3-5) by metis
  let ?d = "d\<lparr>inbound := (inbound d)\<lparr>packets := push_all [pk] (packets (inbound d)), pipe_rng := r\<rparr>\<rparr>"
  let ?s1 = "set_object y (Dgram_obj ?d) s"
  have len: "unat (of_nat (length data) :: u64) = length data"
    using assms(10) unat_size_bytes [of data] by (simp add: size_bytes_def)
  have i64: "to_i64 (of_nat (length data)) = int (length data)"
    using to_i64_size_bytes [of data] assms(10) by (simp add: size_bytes_def fits_def)
  have send: "sys_sendto e a (fa, buf, of_nat (length data), fl, p, plen) s =
      Done (handled (int (length data))) ?s1"
    using sendto_step [of fa s a x dx e p plen dst y d buf "of_nat (length data)" data ?d fl]
      h assms(6,8,10) alive dl read_guest_bytes [OF assms(9,10)] i64
    by (simp add: dgram_at_def len)
  let ?data = "take (unat n) (payload pk)"
  let ?m = "write_words flat_ops buf' ?data (mem (rep s b))"
  let ?d2 = "?d\<lparr>inbound := (inbound ?d)\<lparr>packets := []\<rparr>\<rparr>"
  have "recv_from e' (\<lambda>data m. write_memory (kernel e') buf' data m) (unat n) ?d (mem (rep s b)) =
      Done (int (length ?data), sender pk) (?d2, ?m)"
    using recv_single [of ?d pk e' "\<lambda>data m. write_memory (kernel e') buf' data m" "unat n" "mem (rep s b)"]
      h(3) orig assms(11,12) by (simp add: original_def write_memory_def)
  then have recv: "sys_recvfrom e' b (fb, buf', n, fl', q, qlen) ?s1 =
      Done (handled (int (length ?data))) (set_mem b ?m (set_object y (Dgram_obj ?d2) ?s1))"
    using h(2) by (intro recvfrom_step) (simp_all add: dgram_at_def)
  have "region (\<lambda>m. m) buf' (length ?data) ?m = ?data"
    using assms(10,13) orig
    by (intro region_eqI) (simp_all add: flat.write_words_byte original_def min_def)
  with send recv b orig show ?thesis
    by (intro exI [of _ ?s1] exI [of _ "set_mem b ?m (set_object y (Dgram_obj ?d2) ?s1)"] conjI)
      (simp_all add: original_def min.commute)
qed

section \<open>A simulation of two hosts\<close>

text \<open>Replica 0 has a socket and a message, the socket of replica 1 is bound to 127.0.0.1.\<close>

definition example_socket :: datagram_socket where
  "example_socket = \<lparr>ds_af = Ipv4, ds_type = Stream, inbound = pipe_init default_faults\<rparr>"

definition example_addr :: socket_addr where
  "example_addr = Inet \<lparr>port = 0x901F, octets = (127, 0, 0, 1)\<rparr>"

definition example_memory :: flat where
  "example_memory = memory_with 64 [2, 0, 0x1F, 0x90, 127, 0, 0, 1, 104, 105]"

definition example_sim :: "flat sim" where
  "example_sim =
     \<lparr>sim_options = default_options 0, sim_rng = xo_zero,
      sim_net = \<lparr>addr_map = fmupd example_addr (Some 1) fmempty\<rparr>,
      objects = [0 \<mapsto> Dgram_obj example_socket, 1 \<mapsto> Dgram_obj example_socket], next_object = 2,
      replicas =
        [\<lparr>fds = \<lparr>table = fmupd 0x40000000 (Some 0) fmempty, unused = []\<rparr>, mem = example_memory, epoch = 0\<rparr>,
         \<lparr>fds = \<lparr>table = fmupd 0x40000000 (Some 1) fmempty, unused = []\<rparr>, mem = memory_with 0 [], epoch = 0\<rparr>],
      console = []\<rparr>"

lemma example_sim_ok: "sim_ok example_sim"
  by (auto simp: sim_ok_def example_sim_def held_def live_def ran_def bound_to_def default_options_def
      valid_default example_socket_def pipe_ok_def pipe_init_def split: if_splits option.splits)

lemma example_hosts: "connected_hosts example_sim 0 0x40000000 1 0x40000000 example_addr"
  unfolding connected_hosts_def
  by (intro exI [of _ 0] exI [of _ 1] exI [of _ example_socket] conjI)
    (simp_all add: dgram_at_def example_sim_def live_def is_simulated_def simulated_def
      example_socket_def pipe_init_def)

lemma example_parse: "parse_addr test_env example_memory 64 8 = Inr example_addr"
  using parse_ipv4 [OF test_env_simps(1), of example_memory 64 "0x1F" "0x90" 127 0 0 1 "[]"]
  by (simp add: example_addr_def le16_def guest_bytes_def example_memory_def memory_with_def
      mapped_def region_def upt_rec)

theorem sendto_recvfrom_delivers_witness:
  "\<exists>s1 s2. sys_sendto test_env 0 (0x40000000, 72, of_nat (length [104, 105 :: u8]), 0, 64, 8) example_sim =
      Done (handled 2) s1 \<and>
    sys_recvfrom test_env 1 (0x40000000, 200, 1, 0, 0, 0) s1 = Done (handled 1) s2 \<and>
    region (\<lambda>m. m) 200 1 (mem (rep s2 1)) = [104]"
proof -
  have rep: "mem (rep example_sim 0) = example_memory" "mem (rep example_sim (Suc 0)) = memory_with 0 []"
    "sim_options example_sim = default_options 0"
    by (simp_all add: example_sim_def)
  have "guest_bytes example_memory 72 [104, 105]"
    by (simp add: guest_bytes_def example_memory_def memory_with_def mapped_def region_def upt_rec)
  then show ?thesis
    using sendto_recvfrom_delivers [OF example_sim_ok example_hosts, of test_env 64 8 72 "[104, 105]"
        test_env 200 1 0 0 0 0] example_parse xo_bern.bern_0
    by (simp add: rep default_options_def default_faults_def valid_time_def mapped_def memory_with_def)
qed

section \<open>Witnesses\<close>

lemma example_fd_ok: "i < 2 \<Longrightarrow> fd_ok (fds (rep example_sim i))"
proof -
  assume "i < 2"
  then have "fds (rep example_sim i) = \<lparr>table = fmupd (fd_of 0) (Some i) fmempty, unused = []\<rparr>"
    by (auto simp: example_sim_def less_Suc_eq numeral_2_eq_2 fd_of_def simulated_def)
  then show ?thesis
    unfolding fd_ok_def
    by (intro exI [of _ 1]) (auto simp: fd_inv_def capacity_def issued_def live_def)
qed

lemma example_live_eq:
  "live (fds (rep example_sim 0)) k = (if k = 0x40000000 then Some 0 else None)"
  "live (fds (rep example_sim 1)) k = (if k = 0x40000000 then Some 1 else None)"
  by (simp_all add: example_sim_def live_def)

lemma example_live: "live (fds (rep example_sim 0)) 0x40000000 = Some 0"
  by (simp add: example_sim_def live_def)

lemma example_length: "length (replicas example_sim) = 2"
  by (simp add: example_sim_def)

lemma example_simulated: "is_simulated (as_int 0x40000000)"
  by (simp add: is_simulated_def simulated_def)

theorem socket_call_witness:
  "\<exists>(fd :: u32) s'. run_hook Sys_socket test_env 0 (2, 2, 0, 0, 0, 0) example_sim =
     Done (if sint fd < 0 then hook_error EMFILE else handled (sint fd)) s' \<and>
     sim_rng s' = snd (seed_from xo_next (sim_rng example_sim))"
proof -
  have "0 < length (replicas example_sim)" "fd_ok (fds (rep example_sim 0))"
    by (simp_all add: example_length example_fd_ok)
  note pre = this
  have d: "socket_domain (as_int 2) = Some Ipv4" by (simp add: socket_domain_def)
  have t: "as_int 2 \<in> {1, 2}" "as_int 2 = 2" by simp_all
  obtain fd :: u32 and s' where "run_hook Sys_socket test_env 0 (2, 2, 0, 0, 0, 0) example_sim =
      Done (if sint fd < 0 then hook_error EMFILE else handled (sint fd)) s'"
    "sim_rng s' = snd (seed_from xo_next (sim_rng example_sim))"
    using socket_call [OF pre d t(1), of test_env "(0, 0, 0, 0)"]
    by (elim exE conjE) (rule that, assumption, simp)
  then show ?thesis by blast
qed

theorem bind_call_witness:
  "\<exists>s'. run_hook Sys_bind test_env 0 (0x40000000, 64, 8, 0, 0, 0) example_sim =
     Done (hook_error EADDRNOTAVAIL) s'"
proof -
  have "alive example_sim 1"
    using alive_held [of 1 example_sim "0x40000000" 1] by (simp add: example_sim_def live_def)
  then have b: "binding (alive example_sim) (sim_net example_sim) example_addr = Some 1"
    by (simp add: binding_def example_sim_def)
  have "parse_addr test_env (mem (rep example_sim 0)) 64 8 = Inr example_addr"
    using example_parse by (simp add: example_sim_def)
  from bind_call [OF example_sim_ok _ example_simulated _ this, where x = 0 and rest = "(0, 0, 0)"]
  show ?thesis using example_live b by (auto simp: example_length Let_def)
qed

theorem close_call_releases_names_witness:
  "\<exists>s'. run_hook Sys_close test_env 0 (0x40000000, 0, 0, 0, 0, 0) example_sim = Done (handled 0) s' \<and>
     \<not> alive s' 0"
proof -
  have only: "j = 0 \<and> k = as_int 0x40000000"
    if "j < length (replicas example_sim)" "live (fds (rep example_sim j)) k = Some 0" for j k
  proof -
    from that(1) have "j = 0 \<or> j = 1" by (simp add: example_length less_2_cases)
    then show ?thesis
    proof
      assume "j = 0"
      then show ?thesis using that(2) by (simp add: example_live_eq split: if_splits)
    next
      assume "j = 1"
      then show ?thesis using that(2) by (simp only: example_live_eq split: if_splits) simp_all
    qed
  qed
  have "\<exists>s'. run_hook Sys_close test_env 0 (0x40000000, 0, 0, 0, 0, 0) example_sim = Done (handled 0) s' \<and>
    \<not> alive s' 0 \<and> fd_ok (fds (rep s' 0)) \<and>
    (binding (alive s') (sim_net s') null_addr = None \<longleftrightarrow>
      binding (alive example_sim) (sim_net example_sim) null_addr = None \<or>
      binding (alive example_sim) (sim_net example_sim) null_addr = Some 0)"
  proof (rule close_call_releases_names)
    show "live (fds (rep example_sim 0)) (as_int 0x40000000) = Some 0" using example_live by simp
  qed (use only in \<open>simp_all add: example_length example_fd_ok is_simulated_def simulated_def\<close>)
  then show ?thesis by blast
qed

theorem reachable_invariant_witness:
  "\<exists>s :: flat sim. is_socket (objects s 0) \<and> sim_ok s"
proof -
  let ?s = "machine_start (\<lambda>_. None) 0 (sim_init (default_options 7)) :: flat sim"
  have v: "valid_faults (net_faults (default_options 7))" by (simp add: default_options_def valid_default)
  have r0: "reachable (default_options 7) ?s" by (intro reachable.start reachable.boot)
  have len: "length (replicas ?s) = 1" by (simp add: machine_start_def sim_init_def)
  have ok: "fd_ok (fds (rep ?s 0))"
    by (simp add: machine_start_def sim_init_def replica_new_def fd_ok_init)
  have ins: "fd_insert True 0 fd_table_init = Inr (0x40000000, \<lparr>table = fmupd 0x40000000 (Some (0 :: nat)) fmempty, unused = []\<rparr>)"
    by (simp add: fd_eval)
  let ?t = "\<lparr>table = fmupd 0x40000000 (Some (0 :: nat)) fmempty, unused = []\<rparr>"
  obtain s1 where mk: "make_socket Ipv4 1 ?s = Some (0, s1)" "replicas s1 = replicas ?s"
    by (simp add: make_socket_def new_object_def machine_start_def sim_init_def)
  have run: "run_hook Sys_socket test_env 0 (2, 1, 0, 0, 0, 0) ?s =
      Done (handled (sint (0x40000000 :: u32))) (set_fds 0 ?t s1)"
    using mk ins by (simp add: run_hook_def sys_socket_def socket_domain_def machine_start_def
        sim_init_def replica_new_def)
  have "reachable (default_options 7) (set_fds 0 ?t s1)"
    by (rule reachable.call [OF r0 _ _ run]) (simp_all add: len valid_time_def)
  from reachable_invariant [OF v this, of 0 "0x40000000" 0] show ?thesis
    using mk(2) len by (intro exI [of _ "set_fds 0 ?t s1"]) (simp add: live_def)
qed

theorem replicas_isolated_witness:
  "\<exists>s'. run_hook Sys_close test_env 0 (0x40000000, 0, 0, 0, 0, 0) example_sim = Done (handled 0) s' \<and>
     rep s' 1 = rep example_sim 1"
proof -
  obtain s' where s': "run_hook Sys_close test_env 0 (0x40000000, 0, 0, 0, 0, 0) example_sim =
      Done (handled 0) s'"
    by (simp add: run_hook_def sys_close_def example_simulated [simplified] example_sim_def fd_close_def)
  from replicas_isolated [OF s', of 1] s' show ?thesis by (auto simp: example_length)
qed

theorem real_descriptors_pass_through_witness:
  "run_hook Sys_read test_env 0 (0, 64, 8, 0, 0, 0) example_sim = Done Passthrough example_sim"
  by (rule real_descriptors_pass_through) (simp_all add: is_simulated_def)

theorem read_write_always_fail_witness:
  "\<exists>s'. run_hook Sys_write test_env 0 (0x40000000, 64, 8, 0, 0, 0) example_sim =
     Done (hook_error EINVAL) s'"
  using read_write_always_fail [OF example_sim_ok, of 0 "0x40000000" Sys_write test_env "(64, 8, 0, 0, 0)"]
    example_live example_simulated
  by (auto simp: example_length)


end
