(* ===== verification/Console.thy ===== *)
theory Console
  imports Hooks
begin

text \<open>
  The standard output descriptor of src/sim/file_descriptor.cpp, fed by the callback of
  \<^verbatim>\<open>sys_write\<close>, whose address never advances because reading guest memory returns 0 and not
  the number of bytes. No table holds this descriptor in the current sources.
\<close>

text \<open>A callback that leaves its state as it was and succeeds.\<close>

lemma stdout_loop_constant:
  assumes "\<And>k. load c k = (0, data k, c)" and "0 < n"
  defines "k \<equiv> min 8192 n"
  shows "stdout_loop load n written c out =
    (to_i64 (of_nat (written + (n - written + k - 1) div k * k)),
     out @ concat (replicate ((n - written + k - 1) div k) [Quoted (data k), Raw (data k), Count k]))"
proof (induction "n - written" arbitrary: written out rule: less_induct)
  case less
  have k: "0 < k" "(if 8192 > n then n else 8192) = k" using assms(2) by (auto simp: k_def)
  show ?case
  proof (cases "written < n")
    case False
    then show ?thesis using k by (subst stdout_loop.simps) simp
  next
    case True
    let ?out = "out @ [Quoted (data k), Raw (data k), Count k]"
    let ?q = "(n - (written + k) + k - 1) div k"
    have q: "(n - written + k - 1) div k = Suc ?q"
    proof -
      have "n - written + k - 1 = (n - written - 1) + k" using True k(1) by simp
      then have "(n - written + k - 1) div k = Suc ((n - written - 1) div k)"
        using div_add_self2 [of k "n - written - 1"] k(1) by simp
      moreover have "(n - written - 1) div k = ?q"
      proof (cases "k \<le> n - written")
        case True
        then show ?thesis using k(1) by (simp add: algebra_simps)
      next
        case False
        then show ?thesis using k(1) by simp
      qed
      ultimately show ?thesis by simp
    qed
    have "stdout_loop load n written c out = stdout_loop load n (written + k) c ?out"
      using True assms(1) k(2) by (subst stdout_loop.simps) (simp add: Let_def)
    also have "\<dots> = (to_i64 (of_nat (written + k + ?q * k)),
        ?out @ concat (replicate ?q [Quoted (data k), Raw (data k), Count k]))"
      using True k(1) by (intro less.hyps) simp
    finally show ?thesis unfolding q by (simp add: add.assoc)
  qed
qed

definition raw_output :: "console_item list \<Rightarrow> bytes" where
  "raw_output items = concat (map (\<lambda>it. case it of Raw bs \<Rightarrow> bs | _ \<Rightarrow> []) items)"

lemma raw_output_chunks:
  "raw_output (concat (replicate q [Quoted d, Raw d', Count k])) = concat (replicate q d')"
  by (induction q) (simp_all add: raw_output_def)

text \<open>A write of at most 8192 bytes to the standard output prints exactly the guest's bytes and
  returns their number. A longer write prints the first 8192 bytes once per started block of
  8192 and returns that multiple of 8192: it repeats the beginning, and reports more bytes
  than it was asked to write unless the length is such a multiple.\<close>

theorem stdout_write_output:
  assumes "kernel e = flat_ops" and "0 < n"
  shows "let blocks = (n + 8191) div 8192;
      (res, out) = stdout_write (\<lambda>addr k. store_fragment e m addr k) n p
    in (n \<le> 8192 \<longrightarrow> res = int n \<and> raw_output out = snd (read_memory flat_ops p n m)) \<and>
       (8192 < n \<longrightarrow> res = to_i64 (of_nat (blocks * 8192)) \<and>
         raw_output out = concat (replicate blocks (snd (read_memory flat_ops p 8192 m))))"
proof -
  let ?data = "\<lambda>k. read_words flat_ops p k m" and ?k = "min 8192 n"
  let ?q = "(n + ?k - 1) div ?k"
  have "(\<lambda>addr k. store_fragment e m addr k) p k = (0, ?data k, p)" for k
    using assms(1) by (simp add: store_fragment_def read_memory_def of_i64_def)
  from stdout_loop_constant [where load = "\<lambda>addr k. store_fragment e m addr k" and c = p
      and data = ?data and written = 0 and out = "[Quoted (replicate 4 0)]", OF this assms(2)]
  have w: "stdout_write (\<lambda>addr k. store_fragment e m addr k) n p =
      (to_i64 (of_nat (?q * ?k)), Quoted (replicate 4 0) #
         concat (replicate ?q [Quoted (?data ?k), Raw (?data ?k), Count ?k]))"
    by (simp add: stdout_write_def)
  have raw: "raw_output (Quoted z # concat (replicate q [Quoted d, Raw d', Count k])) =
      concat (replicate q d')" for z q d d' k
    using raw_output_chunks [of q d d' k] by (simp add: raw_output_def)
  show ?thesis
  proof (cases "n \<le> 8192")
    case True
    then have "?k = n" "?q = 1" using assms(2) by (simp_all add: min_def div_nat_eqI)
    moreover have "to_i64 (of_nat n) = int n"
      using to_i64_size_bytes [of "replicate n 0"] True by (simp add: size_bytes_def fits_def)
    ultimately show ?thesis using True w by (simp add: read_memory_def raw_output_def)
  next
    case False
    then have "?k = 8192" "?q = (n + 8191) div 8192" by simp_all
    with False w raw show ?thesis by (simp add: read_memory_def Let_def)
  qed
qed

theorem stdout_write_output_witness:
  "fst (stdout_write (\<lambda>addr k. store_fragment test_env Map.empty addr k) 10000 64) = 16384"
proof -
  have "to_i64 (of_nat (2 * 8192)) = int (2 * 8192)"
    using to_i64_size_bytes [of "replicate (2 * 8192) 0"] by (simp add: size_bytes_def fits_def)
  then show ?thesis
    using stdout_write_output [of test_env 10000 Map.empty 64] by (auto simp: Let_def split: prod.splits)
qed

end
