(* ===== verification/Barrier.thy ===== *)
theory Barrier
  imports Prelude
begin

text \<open>
  The barrier of src/sim/runner/ptrace.cpp on which the thread that starts a runner and the
  runner's own thread meet. \<^verbatim>\<open>wait\<close> is one step under the mutex up to its sleep on the condition
  variable; a sleeping thread wakes when it is notified, or spuriously, and looks at the epoch
  again under the mutex.
\<close>

record barrier =
  count :: u64
  current :: u64
  epoch_now :: u64

definition barrier_new :: "u64 \<Rightarrow> barrier" where
  "barrier_new n = \<lparr>count = n, current = n, epoch_now = 0\<rparr>"

text \<open>
  The arrival: the last thread starts the next epoch, notifies the others and returns,
  \<^const>\<open>None\<close>; any other thread remembers the epoch it has to see the end of.
\<close>

definition barrier_arrive :: "bool \<Rightarrow> barrier \<Rightarrow> trap + (u64 option \<times> barrier)" where
  "barrier_arrive nd b =
     (if \<not> asserts nd (current b \<noteq> 0) then Inl Assert_failed
      else
       (let b1 = b\<lparr>current := current b - 1\<rparr>
        in if current b1 = 0
           then Inr (None, b1\<lparr>current := count b1, epoch_now := epoch_now b1 + 1\<rparr>)
           else Inr (Some (epoch_now b1), b1)))"

text \<open>The test of the waiting loop.\<close>

definition still_waits :: "u64 \<Rightarrow> barrier \<Rightarrow> bool" where
  "still_waits e b \<longleftrightarrow> e = epoch_now b"

datatype wait_pos = Outside | Asleep u64 | Awake u64 | Through

fun notified :: "wait_pos \<Rightarrow> wait_pos" where
  "notified (Asleep e) = Awake e"
| "notified p = p"

text \<open>Threads that each call \<^verbatim>\<open>wait\<close> once.\<close>

inductive barrier_step :: "bool \<Rightarrow> barrier \<times> wait_pos list \<Rightarrow> barrier \<times> wait_pos list \<Rightarrow> bool" for nd where
  Last: "t < length ps \<Longrightarrow> ps ! t = Outside \<Longrightarrow> barrier_arrive nd b = Inr (None, b') \<Longrightarrow>
    barrier_step nd (b, ps) (b', map notified (ps[t := Through]))"
| Sleep: "t < length ps \<Longrightarrow> ps ! t = Outside \<Longrightarrow> barrier_arrive nd b = Inr (Some e, b') \<Longrightarrow>
    barrier_step nd (b, ps) (b', ps[t := (if still_waits e b' then Asleep e else Through)])"
| Wake: "t < length ps \<Longrightarrow> ps ! t = Asleep e \<Longrightarrow> barrier_step nd (b, ps) (b, ps[t := Awake e])"
| Check: "t < length ps \<Longrightarrow> ps ! t = Awake e \<Longrightarrow>
    barrier_step nd (b, ps) (b, ps[t := (if still_waits e b then Asleep e else Through)])"

abbreviation barrier_runs :: "bool \<Rightarrow> barrier \<times> wait_pos list \<Rightarrow> barrier \<times> wait_pos list \<Rightarrow> bool" where
  "barrier_runs nd \<equiv> (barrier_step nd)\<^sup>*\<^sup>*"

inductive_cases barrier_stepE: "barrier_step nd (b, ps) c"

section \<open>The invariant\<close>

definition arrived :: "wait_pos list \<Rightarrow> nat" where
  "arrived ps = length (filter (\<lambda>p. p \<noteq> Outside) ps)"

definition barrier_inv :: "nat \<Rightarrow> barrier \<times> wait_pos list \<Rightarrow> bool" where
  "barrier_inv n = (\<lambda>(b, ps). length ps = n \<and> count b = of_nat n \<and>
     (if arrived ps < n
      then current b = of_nat (n - arrived ps) \<and> epoch_now b = 0 \<and>
           (\<forall>p \<in> set ps. p \<in> {Outside, Asleep 0, Awake 0})
      else current b = of_nat n \<and> epoch_now b = 1 \<and> (\<forall>p \<in> set ps. p \<in> {Awake 0, Through})))"

lemma arrived_update: "t < length ps \<Longrightarrow> (ps ! t \<noteq> Outside \<longleftrightarrow> p \<noteq> Outside) \<Longrightarrow> arrived (ps[t := p]) = arrived ps"
  unfolding arrived_def by (rule count_update_same)

lemma arrived_arrive: "t < length ps \<Longrightarrow> ps ! t = Outside \<Longrightarrow> p \<noteq> Outside \<Longrightarrow>
    arrived (ps[t := p]) = Suc (arrived ps)"
  unfolding arrived_def by (rule count_update_more) simp_all

lemma arrived_notified [simp]: "arrived (map notified ps) = arrived ps"
proof -
  have "notified p \<noteq> Outside \<longleftrightarrow> p \<noteq> Outside" for p by (cases p) simp_all
  then show ?thesis by (simp add: arrived_def filter_map comp_def)
qed

lemma arrived_le: "arrived ps \<le> length ps"
  by (simp add: arrived_def)

lemma arrived_less: "t < length ps \<Longrightarrow> ps ! t = Outside \<Longrightarrow> arrived ps < length ps"
  using arrived_le [of "ps[t := Through]"] arrived_arrive [of t ps Through] by simp

lemma arrived_all: "\<not> arrived ps < length ps \<Longrightarrow> Outside \<notin> set ps"
  using arrived_less by (metis in_set_conv_nth)

lemma last_alone: "Suc (arrived ps) = length ps \<Longrightarrow> t < length ps \<Longrightarrow> ps ! t = Outside \<Longrightarrow>
    p \<in> set (ps[t := Through]) \<Longrightarrow> p \<noteq> Outside"
  using arrived_all [of "ps[t := Through]"] arrived_arrive [of t ps Through] by auto

lemma barrier_step_inv:
  assumes "barrier_step nd c c'" and "barrier_inv n c" and n: "0 < n" "n < 2 ^ 64"
  shows "barrier_inv n c'"
  using assms(1,2)
proof (induction rule: barrier_step.induct)
  case (Last t ps b b')
  have a: "arrived ps < n" "current b = of_nat (n - arrived ps)" "epoch_now b = 0"
    "\<forall>p \<in> set ps. p \<in> {Outside, Asleep 0, Awake 0}" "length ps = n" "count b = of_nat n"
    using Last arrived_less [of t ps] by (auto simp: barrier_inv_def)
  have b': "current b - 1 = 0" "b' = b\<lparr>current := count b, epoch_now := 1\<rparr>"
    using Last(3) a(3) by (auto simp: barrier_arrive_def Let_def split: if_splits)
  have "of_nat (n - arrived ps) = (1 :: u64)" using b'(1) a(2) by simp
  moreover have "unat (of_nat (n - arrived ps) :: u64) = n - arrived ps"
    using n(2) by (simp add: unat_of_nat take_bit_nat_eq_self)
  ultimately have last: "Suc (arrived ps) = n" using a(1) by (metis Suc_diff_le Suc_diff_diff diff_Suc_1
        diff_diff_cancel less_imp_le_nat unat_1 plus_1_eq_Suc le_add_diff_inverse2)
  have "notified p \<in> {Awake 0, Through}" if "p \<in> set (ps[t := Through])" for p
  proof -
    have "p \<noteq> Outside" using last_alone [of ps t p] last a(5) Last(1,2) that by simp
    moreover have "p \<in> insert Through (set ps)" using that set_update_subset_insert by fast
    ultimately show ?thesis using a(4) by auto
  qed
  then show ?case
    using arrived_arrive [OF Last(1,2), of Through] last a b'(2)
    by (simp add: barrier_inv_def)
next
  case (Sleep t ps b e b')
  have a: "arrived ps < n" "current b = of_nat (n - arrived ps)" "epoch_now b = 0"
    "\<forall>p \<in> set ps. p \<in> {Outside, Asleep 0, Awake 0}" "length ps = n" "count b = of_nat n"
    using Sleep arrived_less [of t ps] by (auto simp: barrier_inv_def)
  have b': "current b - 1 \<noteq> 0" "b' = b\<lparr>current := current b - 1\<rparr>" "e = 0"
    using Sleep(3) a(3) by (auto simp: barrier_arrive_def Let_def split: if_splits)
  have "Suc (arrived ps) \<noteq> n" using b'(1) a(1,2) by auto
  moreover have "of_nat (n - arrived ps) - 1 = (of_nat (n - Suc (arrived ps)) :: u64)"
    using a(1) by (simp add: of_nat_diff)
  moreover have "set (ps[t := Asleep 0]) \<subseteq> insert (Asleep 0) (set ps)" by (rule set_update_subset_insert)
  ultimately show ?case
    using arrived_arrive [OF Sleep(1,2), of "Asleep 0"] a b'
    by (auto simp: barrier_inv_def still_waits_def)
next
  case (Wake t ps e b)
  then have "arrived (ps[t := Awake e]) = arrived ps" "ps ! t \<in> set ps"
    using nth_mem [of t ps] by (simp_all add: arrived_update)
  moreover have "set (ps[t := Awake e]) \<subseteq> insert (Awake e) (set ps)" by (rule set_update_subset_insert)
  ultimately show ?case
    using Wake by (fastforce simp: barrier_inv_def)
next
  case (Check t ps e b)
  let ?p = "if still_waits e b then Asleep e else Through"
  have "arrived (ps[t := ?p]) = arrived ps" "ps ! t \<in> set ps"
    using Check nth_mem [of t ps] by (simp_all add: arrived_update)
  moreover have "set (ps[t := ?p]) \<subseteq> insert ?p (set ps)" by (rule set_update_subset_insert)
  ultimately show ?case
    using Check by (fastforce simp: barrier_inv_def still_waits_def)
qed

lemma barrier_runs_inv:
  assumes "barrier_runs nd (barrier_new (of_nat n), replicate n Outside) c" and "0 < n" "n < 2 ^ 64"
  shows "barrier_inv n c"
  using assms(1)
proof (induction rule: rtranclp_induct)
  case base
  show ?case using assms(2) by (simp add: barrier_inv_def barrier_new_def arrived_def)
next
  case (step c c')
  then show ?case using barrier_step_inv assms(2,3) by blast
qed

section \<open>Progress\<close>

definition not_through :: "wait_pos list \<Rightarrow> nat" where
  "not_through ps = length (filter (\<lambda>p. p \<noteq> Through) ps)"

lemma not_through_update:
  assumes "t < length ps" and "ps ! t \<noteq> Through"
  shows "not_through (ps[t := Through]) < not_through ps"
  using count_update_more [of t "ps[t := Through]" "\<lambda>p. p \<noteq> Through" "ps ! t"] assms
  by (simp add: not_through_def)

lemma all_arrived: "Outside \<notin> set ps \<Longrightarrow> arrived ps = length ps"
  unfolding arrived_def by (subst filter_True) auto

lemma released_step:
  assumes "barrier_inv n (b, ps)" and "Outside \<notin> set ps" and "barrier_step nd (b, ps) (b', ps')"
  shows "not_through ps' < not_through ps"
proof -
  have p: "ps ! t \<in> {Awake 0, Through}" if "t < length ps" for t
    using assms(1) nth_mem [OF that] all_arrived [OF assms(2)] by (fastforce simp: barrier_inv_def)
  have "epoch_now b = 1" using assms(1) all_arrived [OF assms(2)] by (simp add: barrier_inv_def)
  then show ?thesis using assms(3)
    by (cases rule: barrier_stepE) (use p in \<open>fastforce simp: still_waits_def not_through_update\<close>)+
qed

lemma someone_steps:
  assumes "barrier_inv n (b, ps)" and "n < 2 ^ 64" and "p \<in> set ps" and "p \<noteq> Through"
  shows "\<exists>c. barrier_step nd (b, ps) c"
proof -
  obtain t where t: "t < length ps" "ps ! t = p" using assms(3) by (auto simp: in_set_conv_nth)
  show ?thesis
  proof (cases p)
    case Outside
    then have "arrived ps < n" using arrived_less [OF t(1)] t(2) assms(1) by (simp add: barrier_inv_def)
    moreover from this have "current b = of_nat (n - arrived ps)" using assms(1) by (simp add: barrier_inv_def)
    moreover have "unat (of_nat (n - arrived ps) :: u64) = n - arrived ps"
      using assms(2) by (simp add: unat_of_nat take_bit_nat_eq_self)
    ultimately have "current b \<noteq> 0" by auto
    then have "\<exists>x. barrier_arrive nd b = Inr x" by (auto simp: barrier_arrive_def Let_def)
    then obtain r b' where "barrier_arrive nd b = Inr (r, b')" by auto
    then show ?thesis using t Outside barrier_step.Last barrier_step.Sleep by (cases r) blast+
  qed (use t assms(4) barrier_step.Wake barrier_step.Check in blast)+
qed

section \<open>Properties\<close>

text \<open>C18: No thread passes the barrier before all have arrived, and the assertion never fails. While
  a thread is not through, some thread can go on; and once all have arrived every step, a
  spurious wake-up included, brings one more through, so that after as many steps as there are
  threads left all are.\<close>

theorem barrier_releases_all:
  assumes "barrier_runs nd (barrier_new (of_nat n), replicate n Outside) (b, ps)"
    and "0 < n" and "n < 2 ^ 64"
  shows "(Outside \<in> set ps \<longrightarrow> Through \<notin> set ps \<and> (\<exists>r. barrier_arrive nd b = Inr r)) \<and>
    ((\<exists>p \<in> set ps. p \<noteq> Through) \<longrightarrow> (\<exists>c. barrier_step nd (b, ps) c)) \<and>
    (Outside \<notin> set ps \<longrightarrow>
      (\<forall>b' ps'. barrier_step nd (b, ps) (b', ps') \<longrightarrow> not_through ps' < not_through ps))"
proof (intro conjI impI allI)
  note inv = barrier_runs_inv [OF assms]
  show "\<exists>c. barrier_step nd (b, ps) c" if "\<exists>p \<in> set ps. p \<noteq> Through"
    using that someone_steps [OF inv assms(3)] by blast
  show "not_through ps' < not_through ps" if "Outside \<notin> set ps" "barrier_step nd (b, ps) (b', ps')" for b' ps'
    by (rule released_step [OF inv that])
  assume "Outside \<in> set ps"
  then have less: "arrived ps < n"
    using arrived_less inv by (auto simp: barrier_inv_def in_set_conv_nth)
  then show "Through \<notin> set ps" using inv by (auto simp: barrier_inv_def)
  have "unat (of_nat (n - arrived ps) :: u64) = n - arrived ps"
    using assms(3) by (simp add: unat_of_nat take_bit_nat_eq_self)
  then have "current b \<noteq> 0" using less inv by (auto simp: barrier_inv_def)
  then show "\<exists>r. barrier_arrive nd b = Inr r" by (auto simp: barrier_arrive_def Let_def)
qed

theorem barrier_releases_all_witness:
  "\<exists>b ps. barrier_runs False (barrier_new (of_nat 2), replicate 2 Outside) (b, ps) \<and>
     ps = [Awake 0, Through] \<and> (\<exists>c. barrier_step False (b, ps) c)"
proof -
  let ?b1 = "\<lparr>count = 2, current = 1, epoch_now = 0\<rparr>"
  let ?b2 = "\<lparr>count = 2, current = 2, epoch_now = 1\<rparr>"
  have "barrier_step False (barrier_new (of_nat 2), [Outside, Outside])
      (?b1, [Outside, Outside][0 := if still_waits 0 ?b1 then Asleep 0 else Through])"
    by (rule barrier_step.Sleep) (simp_all add: barrier_new_def barrier_arrive_def)
  moreover have "barrier_step False (?b1, [Asleep 0, Outside])
      (?b2, map notified ([Asleep 0, Outside][1 := Through]))"
    by (rule barrier_step.Last) (simp_all add: barrier_arrive_def)
  ultimately have run: "barrier_runs False (barrier_new (of_nat 2), replicate 2 Outside) (?b2, [Awake 0, Through])"
    by (simp add: still_waits_def numeral_2_eq_2)
  from barrier_releases_all [OF this] have "\<exists>c. barrier_step False (?b2, [Awake 0, Through]) c" by simp
  with run show ?thesis by blast
qed

text \<open>The thread that made the barrier can be through it, and destroy it on return, while the
  other thread has yet to look at it: a waiter's last access is after the release.\<close>

theorem barrier_outlived_by_waiter:
  "\<exists>b. barrier_runs nd (barrier_new 2, [Outside, Outside]) (b, [Through, Awake 0])"
proof -
  let ?b1 = "\<lparr>count = 2, current = 1, epoch_now = 0\<rparr>"
  let ?b2 = "\<lparr>count = 2, current = 2, epoch_now = 1\<rparr>"
  have "barrier_step nd (barrier_new 2, [Outside, Outside])
      (?b1, [Outside, Outside][1 := if still_waits 0 ?b1 then Asleep 0 else Through])"
    by (rule barrier_step.Sleep) (simp_all add: barrier_new_def barrier_arrive_def)
  moreover have "barrier_step nd (?b1, [Outside, Asleep 0])
      (?b2, map notified ([Outside, Asleep 0][0 := Through]))"
    by (rule barrier_step.Last) (simp_all add: barrier_arrive_def)
  ultimately show ?thesis
    by (simp add: still_waits_def) (meson converse_rtranclp_into_rtranclp rtranclp.rtrancl_refl)
qed

end
