(* ===== verification/Child.thy ===== *)
theory Child
  imports Prelude
begin

text \<open>
  A traced process as the tracer sees it: \<^verbatim>\<open>child\<close> of src/sys/child.hpp and child.cpp. The
  process id is -1 for no process. What waitpid(2) and kill(2) answer is an argument, an errno
  or a value; the wait status is decoded as the macros of the C library do it.
\<close>

datatype run_state = Running | Stopped u32 | Terminated u32 | Exited u32

record child =
  pid :: int
  state :: "run_state option"

definition child_init :: child where
  "child_init = \<lparr>pid = - 1, state = None\<rparr>"

definition child_valid :: "child \<Rightarrow> bool" where
  "child_valid c \<longleftrightarrow> 0 \<le> pid c"

definition wtermsig :: "u32 \<Rightarrow> u32" where
  "wtermsig status = status AND 0x7F"

definition wexitstatus :: "u32 \<Rightarrow> u32" where
  "wexitstatus status = drop_bit 8 (status AND 0xFF00)"

definition wifcontinued :: "u32 \<Rightarrow> bool" where
  "wifcontinued status \<longleftrightarrow> status = 0xFFFF"

definition wifstopped :: "u32 \<Rightarrow> bool" where
  "wifstopped status \<longleftrightarrow> status AND 0xFF = 0x7F"

definition wifexited :: "u32 \<Rightarrow> bool" where
  "wifexited status \<longleftrightarrow> wtermsig status = 0"

text \<open>A signed char that holds the termination signal plus one, halved, is positive.\<close>

definition wifsignaled :: "u32 \<Rightarrow> bool" where
  "wifsignaled status \<longleftrightarrow> 0 < sint (ucast (wtermsig status + 1) :: u8) div 2"

definition child_wait :: "int + u32 \<Rightarrow> child \<Rightarrow> (trap + u32) \<times> child" where
  "child_wait rc c =
     (let c0 = c\<lparr>state := None\<rparr>
      in case rc of
           Inl errno \<Rightarrow> (Inl (System_error errno), c0)
         | Inr status \<Rightarrow>
             if wifcontinued status then (Inr status, c0\<lparr>state := Some Running\<rparr>)
             else if wifstopped status then
               (Inr status, c0\<lparr>state := Some (Stopped (wexitstatus status))\<rparr>)
             else if wifexited status then
               (Inr status, c0\<lparr>state := Some (Exited (wexitstatus status)), pid := - 1\<rparr>)
             else if wifsignaled status then
               (Inr status, c0\<lparr>state := Some (Terminated (wtermsig status)), pid := - 1\<rparr>)
             else (Inl Runtime_error, c0))"

definition child_terminate :: "(int \<Rightarrow> int \<Rightarrow> int option) \<Rightarrow> int \<Rightarrow> child \<Rightarrow> trap + unit" where
  "child_terminate kill sig c =
     (if \<not> child_valid c then Inl Invalid_argument
      else case kill (pid c) sig of Some errno \<Rightarrow> Inl (System_error errno) | None \<Rightarrow> Inr ())"

section \<open>The statuses the kernel makes\<close>

text \<open>wait(2), and ptrace(2) for the stops of a tracee: an event is shifted by 16.\<close>

datatype wait_event =
    Continued | Exit u8 | Killed u32 bool | Stop u32 | Event_stop u32 u32

fun encode_status :: "wait_event \<Rightarrow> u32" where
  "encode_status Continued = 0xFFFF"
| "encode_status (Exit code) = push_bit 8 (ucast code)"
| "encode_status (Killed sig core) = sig OR (if core then 0x80 else 0)"
| "encode_status (Stop sig) = push_bit 8 sig OR 0x7F"
| "encode_status (Event_stop sig event) = push_bit 16 event OR push_bit 8 sig OR 0x7F"

fun event_ok :: "wait_event \<Rightarrow> bool" where
  "event_ok (Killed sig core) \<longleftrightarrow> 0 < sig \<and> sig < 0x7F"
| "event_ok (Stop sig) \<longleftrightarrow> sig < 0x100"
| "event_ok (Event_stop sig event) \<longleftrightarrow> sig < 0x100 \<and> event < 0x100"
| "event_ok _ \<longleftrightarrow> True"

fun state_of :: "wait_event \<Rightarrow> run_state" where
  "state_of Continued = Running"
| "state_of (Exit code) = Exited (ucast code)"
| "state_of (Killed sig core) = Terminated sig"
| "state_of (Stop sig) = Stopped sig"
| "state_of (Event_stop sig event) = Stopped sig"

lemma bit_less_256: "(w :: u32) < 0x100 \<Longrightarrow> bit w n \<Longrightarrow> n < 8"
proof -
  assume "w < 0x100" and b: "bit w n"
  then have "unat w < 2 ^ 8" by (simp add: word_less_nat_alt)
  then have "take_bit 8 (unat w) = unat w" by (rule take_bit_nat_eq_self)
  moreover have "bit (unat w) n" using b by (simp add: bit_unsigned_iff)
  ultimately show "n < 8" by (metis bit_take_bit_iff)
qed

lemma mask_words: "(0x7F :: u32) = mask 7" "(0xFF :: u32) = mask 8" "(0xFF00 :: u32) = push_bit 8 (mask 8)"
  by (simp_all add: mask_eq_exp_minus_1)

lemma low_byte_stop:
  assumes "sig < 0x100"
  shows "(push_bit 16 event OR push_bit 8 sig OR 0x7F) AND 0xFF = (0x7F :: u32)"
  unfolding mask_words by (rule bit_word_eqI) (auto simp: bit_simps)

lemma high_byte_stop:
  assumes "sig < 0x100"
  shows "drop_bit 8 ((push_bit 16 event OR push_bit 8 sig OR 0x7F) AND 0xFF00) = (sig :: u32)"
  unfolding mask_words by (rule bit_word_eqI) (auto simp: bit_simps dest: bit_less_256 [OF assms])

lemma exit_code_bits:
  "drop_bit 8 (push_bit 8 (ucast (code :: u8)) AND 0xFF00) = (ucast code :: u32)"
  "push_bit 8 (ucast (code :: u8)) AND 0xFF = (0 :: u32)" "push_bit 8 (ucast code) AND 0x7F = (0 :: u32)"
  unfolding mask_words
  by (rule bit_word_eqI, auto simp: bit_simps dest: bit_imp_le_length)+

lemma low_byte_distinct: "w AND 0xFF = (0x7F :: u32) \<Longrightarrow> w \<noteq> 0xFFFF" "w AND 0xFF = (0 :: u32) \<Longrightarrow> w \<noteq> 0xFFFF"
  by auto

lemma killed_bits:
  assumes "(sig :: u32) < 0x7F"
  shows "(sig OR (if core then 0x80 else 0)) AND 0x7F = sig"
proof -
  have "n < 7" if b: "bit sig n" for n
  proof -
    have "unat sig < 2 ^ 7" using assms by (simp add: word_less_nat_alt)
    then have "take_bit 7 (unat sig) = unat sig" by (rule take_bit_nat_eq_self)
    moreover have "bit (unat sig) n" using b by (simp add: bit_unsigned_iff)
    ultimately show "n < 7" by (metis bit_take_bit_iff)
  qed
  then have "sig AND 0x7F = sig"
    unfolding mask_words by (intro bit_word_eqI) (auto simp: bit_simps)
  moreover have "(0x80 :: u32) AND 0x7F = 0" by simp
  ultimately show ?thesis by (simp only: bit.conj_disj_distrib2) simp
qed

lemma sint_u8: "unat (w :: u8) < 128 \<Longrightarrow> sint w = int (unat w)"
proof -
  assume "unat w < 128"
  then have "int (unat w) < int 128" by (simp only: of_nat_less_iff)
  moreover have "int (unat w) = uint w" by simp
  ultimately have "uint w < 128" by simp
  moreover have "- 128 \<le> uint w" by (rule order_trans [of _ 0]) simp_all
  ultimately have "signed_take_bit 7 (uint w) = uint w"
    by (intro signed_take_bit_int_eq_self) simp_all
  then show ?thesis by (simp add: sint_uint)
qed

lemma termsig_positive:
  assumes "0 < sig" and "(sig :: u32) < 0x7F"
  shows "0 < sint (ucast (sig + 1) :: u8) div 2"
proof -
  have s: "0 < unat sig" "unat sig < 0x7F" using assms by (simp_all add: word_less_nat_alt)
  then have "unat (sig + 1) = unat sig + 1" by (simp add: unat_word_ariths)
  then have "unat (ucast (sig + 1) :: u8) = unat sig + 1"
    using s by (simp add: unsigned_ucast_eq take_bit_nat_eq_self)
  then have "unat (ucast (sig + 1) :: u8) < 128" "int (unat (ucast (sig + 1) :: u8)) = int (unat sig + 1)"
    using s(2) by (simp_all only:)
  then have "sint (ucast (sig + 1) :: u8) = int (unat sig + 1)" by (simp only: sint_u8)
  moreover have "0 < int (unat sig + 1) div 2" using s(1) by presburger
  ultimately show ?thesis by (simp only:)
qed

lemma child_wait_status:
  assumes "event_ok ev"
  shows "child_wait (Inr (encode_status ev)) c =
    (Inr (encode_status ev), c\<lparr>state := Some (state_of ev),
       pid := (case ev of Exit _ \<Rightarrow> - 1 | Killed _ _ \<Rightarrow> - 1 | _ \<Rightarrow> pid c)\<rparr>)"
proof (cases ev)
  case Continued
  then show ?thesis by (simp add: child_wait_def wifcontinued_def)
next
  case (Exit code)
  have "wifstopped (encode_status ev) = False" "wifcontinued (encode_status ev) = False"
    using Exit low_byte_distinct(2) [OF exit_code_bits(2)]
    by (simp_all add: wifstopped_def wifcontinued_def exit_code_bits)
  moreover have "wexitstatus (encode_status ev) = ucast code"
    using Exit by (simp only: wexitstatus_def encode_status.simps exit_code_bits)
  moreover have "wifexited (encode_status ev)"
    using Exit by (simp only: wifexited_def wtermsig_def encode_status.simps exit_code_bits)
  ultimately show ?thesis using Exit by (simp add: child_wait_def del: encode_status.simps)
next
  case (Killed sig core)
  let ?w = "sig OR (if core then 0x80 else 0)"
  have sig: "0 < sig" "sig < 0x7F" using assms Killed by simp_all
  note low = killed_bits [OF sig(2), of core]
  have "?w AND 0xFF \<noteq> 0x7F"
  proof
    assume "?w AND 0xFF = 0x7F"
    then have "(?w AND 0xFF) AND 0x7F = 0x7F AND 0x7F" by simp
    then have "?w AND 0x7F = 0x7F" by (simp add: and.assoc)
    with low sig show False by simp
  qed
  moreover have "?w \<noteq> 0xFFFF"
  proof
    assume "?w = 0xFFFF"
    then have "sig = 0xFFFF AND 0x7F" using low by simp
    with sig show False by simp
  qed
  moreover have "sig \<noteq> 0" using sig(1) by auto
  ultimately show ?thesis
    using Killed low termsig_positive [OF sig]
    by (simp add: child_wait_def wifcontinued_def wifstopped_def wifexited_def wifsignaled_def wtermsig_def)
next
  case (Stop sig)
  then have sig: "sig < 0x100" using assms by simp
  note b = low_byte_stop [OF sig, of 0] high_byte_stop [OF sig, of 0]
  show ?thesis
    using Stop b low_byte_distinct(1) [OF b(1)]
    by (simp add: child_wait_def wifcontinued_def wifstopped_def wexitstatus_def)
next
  case (Event_stop sig event)
  then have sig: "sig < 0x100" using assms by simp
  note b = low_byte_stop [OF sig, of event] high_byte_stop [OF sig, of event]
  show ?thesis
    using Event_stop b low_byte_distinct(1) [OF b(1)]
    by (simp add: child_wait_def wifcontinued_def wifstopped_def wexitstatus_def)
qed

section \<open>Properties\<close>

text \<open>C25: wait decodes every status the kernel can report into the state it stands for, returns the
  raw status, and forgets the process id exactly when the process is gone, after which
  terminate is refused without a kill.\<close>

theorem wait_decodes_status:
  assumes "event_ok ev" and "0 \<le> pid c"
  shows "child_wait (Inr (encode_status ev)) c =
      (Inr (encode_status ev), snd (child_wait (Inr (encode_status ev)) c)) \<and>
    state (snd (child_wait (Inr (encode_status ev)) c)) = Some (state_of ev) \<and>
    (child_valid (snd (child_wait (Inr (encode_status ev)) c)) \<longleftrightarrow>
      (case state_of ev of Exited _ \<Rightarrow> False | Terminated _ \<Rightarrow> False | _ \<Rightarrow> True)) \<and>
    (case state_of ev of Exited _ \<Rightarrow>
       child_terminate kill sig (snd (child_wait (Inr (encode_status ev)) c)) = Inl Invalid_argument
     | _ \<Rightarrow> True)"
  using assms unfolding child_wait_status [OF assms(1)]
  by (cases ev) (simp_all add: child_valid_def child_terminate_def)

theorem wait_decodes_status_witness:
  "state (snd (child_wait (Inr (encode_status (Exit 3))) \<lparr>pid = 12, state = None\<rparr>)) = Some (Exited 3)"
  using wait_decodes_status [of "Exit 3" "\<lparr>pid = 12, state = None\<rparr>"] by simp

end
