(* ===== verification/Sys_File.thy ===== *)
theory Sys_File
  imports Prelude "HOL-Library.Multiset"
begin

text \<open>
  An owned file descriptor of the simulator itself: class \<^verbatim>\<open>file\<close> of src/sys/file.hpp and
  file.cpp, which the runner uses for the memory file of its tracee. The kernel is a record of
  its calls; the locale \<open>regular_file\<close> says what they do to a regular file, where each call may
  be interrupted or transfer less than it was asked for, and a file with a schedule of
  interruptions and short transfers implements it.
\<close>

text \<open>A call answers an errno or its value; descriptors and errno values are C ints.\<close>

record 'k file_ops =
  k_open :: "string \<Rightarrow> int \<Rightarrow> 'k \<Rightarrow> (int + int) \<times> 'k"
  k_close :: "int \<Rightarrow> 'k \<Rightarrow> 'k"
  k_lseek :: "int \<Rightarrow> int \<Rightarrow> 'k \<Rightarrow> (int + int) \<times> 'k"
  k_read :: "int \<Rightarrow> nat \<Rightarrow> 'k \<Rightarrow> (int + bytes) \<times> 'k"
  k_pread :: "int \<Rightarrow> int \<Rightarrow> nat \<Rightarrow> 'k \<Rightarrow> (int + bytes) \<times> 'k"
  k_pwrite :: "int \<Rightarrow> int \<Rightarrow> bytes \<Rightarrow> 'k \<Rightarrow> (int + nat) \<times> 'k"

section \<open>Ownership of the descriptor\<close>

record sys_file =
  handle :: int

definition no_file :: sys_file where
  "no_file = \<lparr>handle = - 1\<rparr>"

definition file_valid :: "sys_file \<Rightarrow> bool" where
  "file_valid f \<longleftrightarrow> 0 \<le> handle f"

definition release :: "sys_file \<Rightarrow> int \<times> sys_file" where
  "release f = (handle f, f\<lparr>handle := - 1\<rparr>)"

text \<open>The move constructor leaves the source without a descriptor, the move assignment swaps.\<close>

definition file_move :: "sys_file \<Rightarrow> sys_file \<times> sys_file" where
  "file_move f = (let (fd, f') = release f in (\<lparr>handle = fd\<rparr>, f'))"

definition file_assign :: "sys_file \<Rightarrow> sys_file \<Rightarrow> sys_file \<times> sys_file" where
  "file_assign this f = (this\<lparr>handle := handle f\<rparr>, f\<lparr>handle := handle this\<rparr>)"

definition file_reset :: "'k file_ops \<Rightarrow> sys_file \<Rightarrow> 'k \<Rightarrow> sys_file \<times> 'k" where
  "file_reset ops f s =
     (if file_valid f then (let (fd, f') = release f in (f', k_close ops fd s)) else (f, s))"

text \<open>\<^verbatim>\<open>memfd = proc_mem(child, mode)\<close>: the temporary, which holds the old descriptor after the
  assignment, is destroyed.\<close>

definition assign_temporary :: "'k file_ops \<Rightarrow> sys_file \<Rightarrow> sys_file \<Rightarrow> 'k \<Rightarrow> sys_file \<times> 'k" where
  "assign_temporary ops this tmp s =
     (let (this', tmp') = file_assign this tmp; (_, s') = file_reset ops tmp' s in (this', s'))"

fun decimal :: "nat \<Rightarrow> string" where
  "decimal n = (if n < 10 then [char_of (48 + n)] else decimal (n div 10) @ [char_of (48 + n mod 10)])"

declare decimal.simps [simp del]

definition format_int :: "int \<Rightarrow> string" where
  "format_int i = (if i < 0 then CHR ''-'' # decimal (nat (- i)) else decimal (nat i))"

definition proc_mem :: "'k file_ops \<Rightarrow> bool \<Rightarrow> int \<Rightarrow> int \<Rightarrow> 'k \<Rightarrow> (trap + sys_file) \<times> 'k" where
  "proc_mem ops nd pid mode s =
     (case k_open ops (''/proc/'' @ format_int pid @ ''/mem'') mode s of
        (Inl errno, s') \<Rightarrow> (Inl (System_error errno), s')
      | (Inr fd, s') \<Rightarrow>
          if asserts nd (file_valid \<lparr>handle = fd\<rparr>) then (Inr \<lparr>handle = fd\<rparr>, s')
          else (Inl Assert_failed, s'))"

section \<open>Single calls\<close>

text \<open>
  A result of \<^verbatim>\<open>int64_t\<close>, negative for an error, with the bytes that were stored in the buffer.
\<close>

definition os_lseek :: "'k file_ops \<Rightarrow> sys_file \<Rightarrow> u64 \<Rightarrow> 'k \<Rightarrow> (trap + u64) \<times> 'k" where
  "os_lseek ops f pos s =
     (case k_lseek ops (handle f) (sint pos) s of
        (Inl errno, s') \<Rightarrow> (Inl (System_error errno), s')
      | (Inr off, s') \<Rightarrow> (Inr (of_i64 off), s'))"

definition os_read :: "'k file_ops \<Rightarrow> bool \<Rightarrow> sys_file \<Rightarrow> nat \<Rightarrow> 'k \<Rightarrow> (trap + int \<times> bytes) \<times> 'k" where
  "os_read ops nd f n s =
     (case k_read ops (handle f) n s of
        (Inl errno, s') \<Rightarrow>
          if asserts nd (0 < errno) then (Inr (- errno, []), s') else (Inl Assert_failed, s')
      | (Inr data, s') \<Rightarrow> (Inr (int (length data), data), s'))"

definition os_read_at ::
  "'k file_ops \<Rightarrow> bool \<Rightarrow> sys_file \<Rightarrow> u64 \<Rightarrow> nat \<Rightarrow> 'k \<Rightarrow> (trap + int \<times> bytes) \<times> 'k" where
  "os_read_at ops nd f pos n s =
     (if sint pos < 0 then (Inr (- EINVAL, []), s)
      else
       (case k_pread ops (handle f) (sint pos) n s of
          (Inl errno, s') \<Rightarrow>
            if asserts nd (0 < errno) then (Inr (- errno, []), s') else (Inl Assert_failed, s')
        | (Inr data, s') \<Rightarrow> (Inr (int (length data), data), s')))"

definition os_write_at :: "'k file_ops \<Rightarrow> sys_file \<Rightarrow> u64 \<Rightarrow> bytes \<Rightarrow> 'k \<Rightarrow> int \<times> 'k" where
  "os_write_at ops f pos buf s =
     (if sint pos < 0 then (- EINVAL, s)
      else
       (case k_pwrite ops (handle f) (sint pos) buf s of
          (Inl errno, s') \<Rightarrow> (- errno, s')
        | (Inr n, s') \<Rightarrow> (int n, s')))"

section \<open>The loops\<close>

text \<open>
  Each loop shrinks the buffer by what was transferred; \<open>n\<close> is what is left of it and \<open>acc\<close> what
  has been stored. A loop that goes on for ever is \<^const>\<open>None\<close>.
\<close>

definition retried :: "int \<Rightarrow> bool" where
  "retried res \<longleftrightarrow> - res = EINTR \<or> - res = EAGAIN"

partial_function (option) os_read_exact ::
  "'k file_ops \<Rightarrow> bool \<Rightarrow> sys_file \<Rightarrow> nat \<Rightarrow> bytes \<Rightarrow> 'k \<Rightarrow> ((trap + int \<times> bytes) \<times> 'k) option" where
  "os_read_exact ops nd f n acc s =
     (if n = 0 then Some (Inr (0, acc), s)
      else
       (case os_read ops nd f n s of
          (Inl t, s') \<Rightarrow> Some (Inl t, s')
        | (Inr (res, data), s') \<Rightarrow>
            if res < 0 then
              (if retried res then os_read_exact ops nd f n acc s' else Some (Inr (res, acc), s'))
            else if res = 0 then Some (Inr (- EINVAL, acc), s')
            else os_read_exact ops nd f (n - nat res) (acc @ data) s'))"

partial_function (option) os_read_exact_at ::
  "'k file_ops \<Rightarrow> bool \<Rightarrow> sys_file \<Rightarrow> u64 \<Rightarrow> nat \<Rightarrow> bytes \<Rightarrow> 'k \<Rightarrow>
   ((trap + int \<times> bytes) \<times> 'k) option" where
  "os_read_exact_at ops nd f pos n acc s =
     (if n = 0 then Some (Inr (0, acc), s)
      else
       (case os_read_at ops nd f pos n s of
          (Inl t, s') \<Rightarrow> Some (Inl t, s')
        | (Inr (res, data), s') \<Rightarrow>
            if res < 0 then
              (if retried res then os_read_exact_at ops nd f pos n acc s'
               else Some (Inr (res, acc), s'))
            else if asserts nd (res \<noteq> 0) then
              os_read_exact_at ops nd f (pos + of_i64 res) (n - nat res) (acc @ data) s'
            else Some (Inl Assert_failed, s')))"

partial_function (option) os_write_all_at ::
  "'k file_ops \<Rightarrow> sys_file \<Rightarrow> u64 \<Rightarrow> bytes \<Rightarrow> 'k \<Rightarrow> (int \<times> 'k) option" where
  "os_write_all_at ops f pos buf s =
     (if buf = [] then Some (0, s)
      else
       (case os_write_at ops f pos buf s of
          (res, s') \<Rightarrow>
            if res < 0 then
              (if retried res then os_write_all_at ops f pos buf s' else Some (res, s'))
            else os_write_all_at ops f (pos + of_i64 res) (drop (nat res) buf) s'))"

section \<open>What the kernel does to a regular file\<close>

text \<open>
  read(2), pread(2) and pwrite(2): a call fails with EINTR or EAGAIN and without effect, though
  not for ever, or transfers a non-empty part from the front of what was asked, none only at
  the end of the file.
\<close>

definition transfer_ok :: "bytes \<Rightarrow> nat \<Rightarrow> nat \<Rightarrow> bytes \<Rightarrow> bool" where
  "transfer_ok contents off n data \<longleftrightarrow>
     data = take (length data) (drop off contents) \<and> length data \<le> n \<and>
     (data = [] \<longrightarrow> n = 0 \<or> length contents \<le> off)"

definition interrupted :: "int \<Rightarrow> bool" where
  "interrupted e \<longleftrightarrow> e = EINTR \<or> e = EAGAIN"

text \<open>\<^verbatim>\<open>pwrite\<close> past the end fills the gap with zeros.\<close>

definition put_bytes :: "nat \<Rightarrow> bytes \<Rightarrow> bytes \<Rightarrow> bytes" where
  "put_bytes off data contents =
     (if data = [] then contents else overlay off data (grow (off + length data) contents))"

locale regular_file =
  fixes ops :: "'k file_ops" and fd :: int
    and contents :: "'k \<Rightarrow> bytes" and offset :: "'k \<Rightarrow> nat" and patience :: "'k \<Rightarrow> nat"
  assumes read_fails: "k_read ops fd n s = (Inl e, s') \<Longrightarrow> interrupted e \<and>
      contents s' = contents s \<and> offset s' = offset s \<and> patience s' < patience s"
    and read_transfers: "k_read ops fd n s = (Inr data, s') \<Longrightarrow> transfer_ok (contents s) (offset s) n data \<and>
      contents s' = contents s \<and> offset s' = offset s + length data"
    and pread_fails: "k_pread ops fd (int off) n s = (Inl e, s') \<Longrightarrow> interrupted e \<and>
      contents s' = contents s \<and> offset s' = offset s \<and> patience s' < patience s"
    and pread_transfers: "k_pread ops fd (int off) n s = (Inr data, s') \<Longrightarrow>
      transfer_ok (contents s) off n data \<and> contents s' = contents s \<and> offset s' = offset s"
    and pwrite_fails: "k_pwrite ops fd (int off) buf s = (Inl e, s') \<Longrightarrow> interrupted e \<and>
      contents s' = contents s \<and> offset s' = offset s \<and> patience s' < patience s"
    and pwrite_transfers: "k_pwrite ops fd (int off) buf s = (Inr k, s') \<Longrightarrow> k \<le> length buf \<and>
      (buf \<noteq> [] \<longrightarrow> 0 < k) \<and> contents s' = put_bytes off (take k buf) (contents s) \<and>
      offset s' = offset s"

lemma handle_id [simp]: "\<lparr>handle = handle f\<rparr> = f"
  by (cases f) simp

lemma file_assign_swaps: "file_assign f g = (g, f)"
  by (cases f, cases g) (simp add: file_assign_def)

lemma retried_interrupted [simp]: "retried (- e) \<longleftrightarrow> interrupted e" "interrupted e \<Longrightarrow> 0 < e"
  by (auto simp: retried_def interrupted_def)

lemma transfer_step:
  assumes "transfer_ok c off n data"
  shows "data @ take (n - length data) (drop (off + length data) c) = take n (drop off c)"
    and "length data \<le> length c - off"
proof -
  have d: "data = take (length data) (drop off c)" "length data \<le> n"
    using assms by (simp_all add: transfer_ok_def)
  have "take n (drop off c) =
      take (length data) (drop off c) @ take (n - length data) (drop (length data) (drop off c))"
    using d(2) by (metis le_add_diff_inverse take_add)
  with d(1) show "data @ take (n - length data) (drop (off + length data) c) = take n (drop off c)"
    by (simp add: add.commute)
  show "length data \<le> length c - off" using arg_cong [OF d(1), of length] by simp
qed

lemma sint_advance:
  assumes "0 \<le> sint pos" and "unat pos + k < 2 ^ 63"
  shows "unat (pos + of_i64 (int k)) = unat pos + k" and "sint (pos :: u64) = int (unat pos)"
proof -
  have u: "unat (of_nat k :: u64) = k"
    using assms(2) by (simp add: unat_of_nat take_bit_nat_eq_self)
  have "of_i64 (int k) = (of_nat k :: u64)" by (simp add: of_i64_def)
  then show "unat (pos + of_i64 (int k)) = unat pos + k"
    using u assms(2) by (simp add: unat_plus_no_wrap)
  show "sint pos = int (unat pos)" using assms(2) by (intro sint_unat) simp
qed


text \<open>A file with a schedule: an entry 0 interrupts a call, another bounds its transfer; calls
  after the schedule transfer everything.\<close>

record disk_file_state =
  stored :: bytes
  cursor :: nat
  schedule :: "nat list"
  opened :: "int list"

definition granted :: "nat \<Rightarrow> disk_file_state \<Rightarrow> nat" where
  "granted n k = (case schedule k of [] \<Rightarrow> n | g # _ \<Rightarrow> min g n)"

definition interrupts :: "disk_file_state \<Rightarrow> bool" where
  "interrupts k \<longleftrightarrow> (case schedule k of [] \<Rightarrow> False | g # _ \<Rightarrow> g = 0)"

definition next_call :: "disk_file_state \<Rightarrow> disk_file_state" where
  "next_call k = k\<lparr>schedule := tl (schedule k)\<rparr>"

definition slow_pread :: "nat \<Rightarrow> nat \<Rightarrow> disk_file_state \<Rightarrow> (int + bytes) \<times> disk_file_state" where
  "slow_pread off n k =
     (if interrupts k then (Inl EINTR, next_call k)
      else (Inr (take (granted n k) (drop off (stored k))), next_call k))"

definition slow_ops :: "disk_file_state file_ops" where
  "slow_ops =
     \<lparr>k_open = (\<lambda>path mode k. let fd = foldr max (opened k) 2 + 1 in (Inr fd, k\<lparr>opened := fd # opened k\<rparr>)),
      k_close = (\<lambda>fd k. k\<lparr>opened := remove1 fd (opened k)\<rparr>),
      k_lseek = (\<lambda>fd off k. if off < 0 then (Inl EINVAL, k) else (Inr off, k\<lparr>cursor := nat off\<rparr>)),
      k_read = (\<lambda>fd n k. case slow_pread (cursor k) n k of
         (Inl e, k') \<Rightarrow> (Inl e, k')
       | (Inr data, k') \<Rightarrow> (Inr data, k'\<lparr>cursor := cursor k + length data\<rparr>)),
      k_pread = (\<lambda>fd off n k. if off < 0 then (Inl EINVAL, k) else slow_pread (nat off) n k),
      k_pwrite = (\<lambda>fd off buf k.
         if off < 0 then (Inl EINVAL, k)
         else if interrupts k then (Inl EAGAIN, next_call k)
         else (Inr (granted (length buf) k),
           (next_call k)\<lparr>stored := put_bytes (nat off) (take (granted (length buf) k) buf) (stored k)\<rparr>))\<rparr>"

lemma interrupts_schedule: "interrupts k \<Longrightarrow> length (schedule (next_call k)) < length (schedule k)"
  by (auto simp: interrupts_def next_call_def split: list.splits)

lemma granted_bounds:
  "granted n k \<le> n" "\<not> interrupts k \<Longrightarrow> 0 < n \<Longrightarrow> 0 < granted n k"
  by (auto simp: granted_def interrupts_def split: list.splits)

lemma next_call_simps [simp]: "stored (next_call k) = stored k" "cursor (next_call k) = cursor k"
  by (simp_all add: next_call_def)

lemma slow_transfer:
  "\<not> interrupts k \<Longrightarrow> transfer_ok (stored k) off n (take (granted n k) (drop off (stored k)))"
  using granted_bounds(1) [of n k] granted_bounds(2) [of k n]
  by (cases "n = 0") (auto simp: transfer_ok_def min_def)

interpretation slow: regular_file slow_ops fd stored cursor "\<lambda>k. length (schedule k)" for fd
proof unfold_locales
  fix n s e s' assume "k_read slow_ops fd n s = (Inl e, s')"
  then show "interrupted e \<and> stored s' = stored s \<and> cursor s' = cursor s \<and>
      length (schedule s') < length (schedule s)"
    by (auto simp: slow_ops_def slow_pread_def interrupted_def interrupts_schedule
        split: sum.splits if_splits)
next
  fix off n s e s' assume "k_pread slow_ops fd (int off) n s = (Inl e, s')"
  then show "interrupted e \<and> stored s' = stored s \<and> cursor s' = cursor s \<and>
      length (schedule s') < length (schedule s)"
    by (auto simp: slow_ops_def slow_pread_def interrupted_def interrupts_schedule split: if_splits)
next
  fix off buf s e s' assume "k_pwrite slow_ops fd (int off) buf s = (Inl e, s')"
  then show "interrupted e \<and> stored s' = stored s \<and> cursor s' = cursor s \<and>
      length (schedule s') < length (schedule s)"
    by (auto simp: slow_ops_def interrupted_def interrupts_schedule split: if_splits)
next
  fix n s data s' assume "k_read slow_ops fd n s = (Inr data, s')"
  then show "transfer_ok (stored s) (cursor s) n data \<and> stored s' = stored s \<and>
      cursor s' = cursor s + length data"
    by (auto simp: slow_ops_def slow_pread_def slow_transfer split: sum.splits if_splits)
next
  fix off n s data s' assume "k_pread slow_ops fd (int off) n s = (Inr data, s')"
  then show "transfer_ok (stored s) off n data \<and> stored s' = stored s \<and> cursor s' = cursor s"
    by (auto simp: slow_ops_def slow_pread_def slow_transfer split: if_splits)
next
  fix off buf s k s' assume "k_pwrite slow_ops fd (int off) buf s = (Inr k, s')"
  then show "k \<le> length buf \<and> (buf \<noteq> [] \<longrightarrow> 0 < k) \<and>
      stored s' = put_bytes off (take k buf) (stored s) \<and> cursor s' = cursor s"
    by (auto simp: slow_ops_def granted_bounds split: if_splits)
qed

section \<open>The loops on a regular file\<close>

lemma put_bytes_step:
  assumes "data \<noteq> []" and "k \<le> length data" and "0 < k"
  shows "put_bytes (off + k) (drop k data) (put_bytes off (take k data) c) = put_bytes off data c"
proof (cases "drop k data = []")
  case True
  then have "take k data = data" by simp
  with True show ?thesis by (simp add: put_bytes_def)
next
  case False
  have a: "take k data \<noteq> []" using assms by simp
  let ?c1 = "put_bytes off (take k data) c"
  have l1: "length ?c1 = max (off + k) (length c)"
    using a assms by (simp add: put_bytes_def min_def)
  have n1: "?c1 ! i = (if off \<le> i \<and> i < off + k then data ! (i - off) else grow (off + k) c ! i)"
    if "i < max (off + k) (length c)" for i
    using a assms that by (auto simp: put_bytes_def nth_overlay min_def)
  have len: "off + k + length (drop k data) = off + length data" using assms by simp
  show ?thesis
  proof (rule nth_equalityI)
    show "length (put_bytes (off + k) (drop k data) ?c1) = length (put_bytes off data c)"
      using False assms l1 len by (simp add: put_bytes_def max_def)
    fix i assume "i < length (put_bytes (off + k) (drop k data) ?c1)"
    then have i: "i < max (off + length data) (length c)"
      using False assms l1 len by (simp add: put_bytes_def max_def split: if_splits)
    have "put_bytes (off + k) (drop k data) ?c1 ! i =
        (if off + k \<le> i \<and> i < off + length data then data ! (i - off)
         else grow (off + length data) ?c1 ! i)"
      unfolding put_bytes_def [of "off + k"] len using False assms l1 i len
      by (auto simp: nth_overlay)
    also have "\<dots> = put_bytes off data c ! i"
      unfolding put_bytes_def [of off data] using assms i l1 n1 [of i]
      by (auto simp: nth_overlay nth_grow)
    finally show "put_bytes (off + k) (drop k data) ?c1 ! i = put_bytes off data c ! i" .
  qed
qed

context regular_file
begin

lemma read_exact_total:
  "\<exists>s'. os_read_exact ops nd \<lparr>handle = fd\<rparr> n acc s =
      Some (Inr (if n \<le> length (contents s) - offset s then 0 else - EINVAL,
                 acc @ take n (drop (offset s) (contents s))), s') \<and>
    contents s' = contents s \<and> offset s' = offset s + min n (length (contents s) - offset s)"
proof (induction n arbitrary: acc s rule: less_induct)
  case (less n)
  show ?case
  proof (induction "patience s" arbitrary: s rule: less_induct)
    case wait: less
    note unfold = os_read_exact.simps [of ops nd "\<lparr>handle = fd\<rparr>" n acc s]
    obtain r s1 where call: "k_read ops fd n s = (r, s1)" by fastforce
    show ?case
    proof (cases "n = 0")
      case True
      then show ?thesis by (simp add: os_read_exact.simps [of _ _ _ 0])
    next
      case n: False
      show ?thesis
      proof (cases r)
        case (Inl e)
        with call have "k_read ops fd n s = (Inl e, s1)" by simp
        note f = read_fails [OF this]
        then have "os_read_exact ops nd \<lparr>handle = fd\<rparr> n acc s = os_read_exact ops nd \<lparr>handle = fd\<rparr> n acc s1"
          using n call Inl by (subst unfold) (simp add: os_read_def asserts_def)
        with wait [of s1] f show ?thesis by simp
      next
        case (Inr data)
        with call have "k_read ops fd n s = (Inr data, s1)" by simp
        note t = read_transfers [OF this]
        show ?thesis
        proof (cases "data = []")
          case True
          with t n have "length (contents s) \<le> offset s" by (simp add: transfer_ok_def)
          with True t n call Inr show ?thesis by (simp add: unfold os_read_def)
        next
          case False
          with n call Inr have "os_read_exact ops nd \<lparr>handle = fd\<rparr> n acc s =
              os_read_exact ops nd \<lparr>handle = fd\<rparr> (n - length data) (acc @ data) s1"
            by (subst unfold) (simp add: os_read_def)
          moreover have "length data \<le> n" using t by (simp add: transfer_ok_def)
          moreover note less [of "n - length data" "acc @ data" s1] transfer_step [of "contents s" "offset s" n data]
          ultimately show ?thesis using t False n
            by (auto simp: min_def le_diff_conv2)
        qed
      qed
    qed
  qed
qed


lemma read_exact_at_step:
  assumes "n \<noteq> 0" and "unat pos + n < 2 ^ 63"
    and call: "k_pread ops fd (int (unat pos)) n s = (r, s1)"
  shows "os_read_exact_at ops nd \<lparr>handle = fd\<rparr> pos n acc s =
    (case r of
       Inl e \<Rightarrow> os_read_exact_at ops nd \<lparr>handle = fd\<rparr> pos n acc s1
     | Inr data \<Rightarrow>
         if data \<noteq> [] \<or> nd
         then os_read_exact_at ops nd \<lparr>handle = fd\<rparr> (pos + of_i64 (int (length data)))
                (n - length data) (acc @ data) s1
         else Some (Inl Assert_failed, s1))"
proof -
  have pos: "sint pos = int (unat pos)" using assms(2) by (intro sint_unat) simp
  show ?thesis
  proof (cases r)
    case (Inl e)
    with call have "k_pread ops fd (int (unat pos)) n s = (Inl e, s1)" by simp
    note f = pread_fails [OF this]
    then show ?thesis
      using assms(1) call Inl pos
      by (subst os_read_exact_at.simps) (simp add: os_read_at_def asserts_def)
  next
    case (Inr data)
    then show ?thesis
      using assms(1) call pos
      by (subst os_read_exact_at.simps) (simp add: os_read_at_def asserts_def)
  qed
qed

lemma read_exact_at_total:
  assumes "unat pos + n < 2 ^ 63" and "n \<le> length (contents s) - unat pos \<or> \<not> nd"
  shows "\<exists>s'. os_read_exact_at ops nd \<lparr>handle = fd\<rparr> pos n acc s =
      Some (if n \<le> length (contents s) - unat pos
            then Inr (0, acc @ take n (drop (unat pos) (contents s))) else Inl Assert_failed, s') \<and>
    contents s' = contents s \<and> offset s' = offset s"
  using assms
proof (induction n arbitrary: pos acc s rule: less_induct)
  case (less n)
  show ?case using less.prems
  proof (induction "patience s" arbitrary: s rule: less_induct)
    case wait: less
    obtain r s1 where call: "k_pread ops fd (int (unat pos)) n s = (r, s1)" by fastforce
    note step = read_exact_at_step [OF _ wait.prems(1) call, of nd acc]
    show ?case
    proof (cases "n = 0")
      case True
      then show ?thesis by (simp add: os_read_exact_at.simps [of _ _ _ _ 0])
    next
      case n: False
      show ?thesis
      proof (cases r)
        case (Inl e)
        with call have "k_pread ops fd (int (unat pos)) n s = (Inl e, s1)" by simp
        note f = pread_fails [OF this]
        with wait.hyps [of s1] wait.prems step [OF n] Inl show ?thesis by (auto split: if_splits)
      next
        case (Inr data)
        with call have "k_pread ops fd (int (unat pos)) n s = (Inr data, s1)" by simp
        note t = pread_transfers [OF this]
        show ?thesis
        proof (cases "data = []")
          case True
          with t n have "length (contents s) \<le> unat pos" by (simp add: transfer_ok_def)
          with step [OF n] True t n Inr wait.prems(2) show ?thesis by simp
        next
          case False
          have d: "length data \<le> n" "0 < length data" using t False by (simp_all add: transfer_ok_def)
          have adv: "unat (pos + of_i64 (int (length data))) = unat pos + length data"
            using wait.prems(1) d sint_unat [of pos] by (intro sint_advance) simp_all
          note tr = transfer_step [OF conjunct1 [OF t]]
          have "\<exists>s'. os_read_exact_at ops nd \<lparr>handle = fd\<rparr> (pos + of_i64 (int (length data)))
              (n - length data) (acc @ data) s1 =
              Some (if n - length data \<le> length (contents s1) - unat (pos + of_i64 (int (length data)))
                then Inr (0, (acc @ data) @ take (n - length data)
                       (drop (unat (pos + of_i64 (int (length data)))) (contents s1)))
                else Inl Assert_failed, s') \<and>
              contents s' = contents s1 \<and> offset s' = offset s1"
            using d n wait.prems t tr(2) by (intro less.IH) (auto simp: adv)
          with step [OF n] Inr False t tr d show ?thesis by (auto simp: adv)
        qed
      qed
    qed
  qed
qed

lemma read_exact_at_diverges:
  assumes "unat pos + n < 2 ^ 63" and "length (contents s) - unat pos < n"
  shows "os_read_exact_at ops True \<lparr>handle = fd\<rparr> pos n acc s = None"
proof (rule ccontr)
  assume "os_read_exact_at ops True \<lparr>handle = fd\<rparr> pos n acc s \<noteq> None"
  then obtain y where ret: "os_read_exact_at ops True \<lparr>handle = fd\<rparr> pos n acc s = Some y" by auto
  let ?P = "\<lambda>ops' nd f pos n acc s y. ops' = ops \<longrightarrow> nd \<longrightarrow> f = \<lparr>handle = fd\<rparr> \<longrightarrow>
    unat pos + n < 2 ^ 63 \<longrightarrow> n \<le> length (contents s) - unat pos"
  have "?P ops True \<lparr>handle = fd\<rparr> pos n acc s y"
  proof (rule os_read_exact_at.raw_induct [where P = ?P, OF _ ret], intro impI)
    fix g ops' nd f pos n acc s y
    assume IH: "\<And>ops' nd f pos n acc s y. g ops' nd f pos n acc s = Some y \<Longrightarrow> ?P ops' nd f pos n acc s y"
      and eq: "(if n = 0 then Some (Inr (0, acc), s)
        else case os_read_at ops' nd f pos n s of
            (Inl t, s') \<Rightarrow> Some (Inl t, s')
          | (Inr (res, data), s') \<Rightarrow>
              if res < 0 then
                (if retried res then g ops' nd f pos n acc s' else Some (Inr (res, acc), s'))
              else if asserts nd (res \<noteq> 0) then g ops' nd f (pos + of_i64 res) (n - nat res) (acc @ data) s'
              else Some (Inl Assert_failed, s')) = Some y"
      and a: "ops' = ops" "nd" "f = \<lparr>handle = fd\<rparr>" "unat pos + n < 2 ^ 63"
    have pos: "sint pos = int (unat pos)" using a(4) by (intro sint_unat) simp
    obtain r s1 where call: "k_pread ops fd (int (unat pos)) n s = (r, s1)" by fastforce
    show "n \<le> length (contents s) - unat pos"
    proof (cases "n = 0")
      case n: False
      show ?thesis
      proof (cases r)
        case (Inl e)
        with call have "k_pread ops fd (int (unat pos)) n s = (Inl e, s1)" by simp
        note f = pread_fails [OF this]
        with eq n call Inl pos a have "g ops nd f pos n acc s1 = Some y"
          by (simp add: os_read_at_def asserts_def)
        from IH [OF this] a f show ?thesis by simp
      next
        case (Inr data)
        with call have "k_pread ops fd (int (unat pos)) n s = (Inr data, s1)" by simp
        note t = pread_transfers [OF this]
        then have d: "length data \<le> n" by (simp add: transfer_ok_def)
        have "g ops nd f (pos + of_i64 (int (length data))) (n - length data) (acc @ data) s1 = Some y"
          using eq n call Inr pos a by (simp add: os_read_at_def asserts_def)
        moreover have "unat (pos + of_i64 (int (length data))) = unat pos + length data"
          using a(4) d pos by (intro sint_advance) simp_all
        ultimately show ?thesis
          using IH a d t transfer_step(2) [OF conjunct1 [OF t]] by fastforce
      qed
    qed simp
  qed
  with assms show False by simp
qed

lemma write_all_at_total:
  assumes "unat pos + length buf < 2 ^ 63"
  shows "\<exists>s'. os_write_all_at ops \<lparr>handle = fd\<rparr> pos buf s = Some (0, s') \<and>
    contents s' = put_bytes (unat pos) buf (contents s) \<and> offset s' = offset s"
  using assms
proof (induction "length buf" arbitrary: pos buf s rule: less_induct)
  case less
  have pos: "sint pos = int (unat pos)" using less.prems by (intro sint_unat) simp
  show ?case
  proof (induction "patience s" arbitrary: s rule: less_induct)
    case wait: less
    obtain r s1 where call: "k_pwrite ops fd (int (unat pos)) buf s = (r, s1)" by fastforce
    show ?case
    proof (cases "buf = []")
      case True
      then show ?thesis by (simp add: os_write_all_at.simps [of _ _ _ "[]"] put_bytes_def)
    next
      case buf: False
      show ?thesis
      proof (cases r)
        case (Inl e)
        with call have "k_pwrite ops fd (int (unat pos)) buf s = (Inl e, s1)" by simp
        note f = pwrite_fails [OF this]
        then have "os_write_all_at ops \<lparr>handle = fd\<rparr> pos buf s = os_write_all_at ops \<lparr>handle = fd\<rparr> pos buf s1"
          using buf call Inl pos by (subst os_write_all_at.simps) (simp add: os_write_at_def)
        with wait [of s1] f show ?thesis by simp
      next
        case (Inr k)
        with call have "k_pwrite ops fd (int (unat pos)) buf s = (Inr k, s1)" by simp
        note t = pwrite_transfers [OF this]
        then have k: "k \<le> length buf" "0 < k" using buf by simp_all
        have adv: "unat (pos + of_i64 (int k)) = unat pos + k"
          using less.prems pos k by (intro sint_advance) simp_all
        have "os_write_all_at ops \<lparr>handle = fd\<rparr> pos buf s =
            os_write_all_at ops \<lparr>handle = fd\<rparr> (pos + of_i64 (int k)) (drop k buf) s1"
          using buf call Inr pos k by (subst os_write_all_at.simps) (simp add: os_write_at_def)
        moreover have "\<exists>s'. os_write_all_at ops \<lparr>handle = fd\<rparr> (pos + of_i64 (int k)) (drop k buf) s1 =
            Some (0, s') \<and> contents s' = put_bytes (unat (pos + of_i64 (int k))) (drop k buf) (contents s1) \<and>
            offset s' = offset s1"
          using less.prems k buf by (intro less.hyps) (auto simp: adv)
        ultimately show ?thesis using t by (simp add: adv put_bytes_step [OF buf k])
      qed
    qed
  qed
qed

end

section \<open>Properties\<close>

text \<open>read\_exact on a regular file whose reads are interrupted and cut short in any way
  terminates; it returns 0 with exactly the bytes from the file position on, or EINVAL when
  the file ends before, and advances the position by what it read.\<close>

theorem read_exact_returns:
  "\<exists>k'. os_read_exact slow_ops nd f n [] k =
      Some (Inr (if n \<le> length (stored k) - cursor k then 0 else - EINVAL,
                 take n (drop (cursor k) (stored k))), k') \<and>
    stored k' = stored k \<and> cursor k' = cursor k + min n (length (stored k) - cursor k)"
  using slow.read_exact_total [where fd = "handle f" and nd = nd and n = n and acc = "[]" and s = k]
  by (simp only: handle_id append_Nil)

text \<open>C24: write\_all\_at followed by read\_exact\_at of the same interval gives the bytes back,
  whatever interruptions and short transfers the kernel makes, and both return 0.\<close>

theorem write_all_read_exact:
  assumes "unat pos + length data < 2 ^ 63"
  shows "\<exists>k1 k2. os_write_all_at slow_ops f pos data k = Some (0, k1) \<and>
    stored k1 = put_bytes (unat pos) data (stored k) \<and>
    os_read_exact_at slow_ops nd f pos (length data) [] k1 = Some (Inr (0, data), k2) \<and>
    stored k2 = stored k1"
proof -
  obtain k1 where w: "os_write_all_at slow_ops f pos data k = Some (0, k1)"
    "stored k1 = put_bytes (unat pos) data (stored k)"
    using slow.write_all_at_total [where fd = "handle f", OF assms, of k] by auto
  have l: "length data \<le> length (stored k1) - unat pos"
    and d: "take (length data) (drop (unat pos) (stored k1)) = data"
    using w(2) by (auto simp: put_bytes_def)
  with slow.read_exact_at_total [where fd = "handle f" and nd = nd and acc = "[]" and s = k1, OF assms]
  obtain k2 where "os_read_exact_at slow_ops nd f pos (length data) [] k1 = Some (Inr (0, data), k2)"
    "stored k2 = stored k1" by auto
  with w show ?thesis by blast
qed

theorem write_all_read_exact_witness:
  "\<exists>k1 k2. os_write_all_at slow_ops \<lparr>handle = 3\<rparr> 2 [7, 8, 9]
      \<lparr>stored = [1], cursor = 0, schedule = [0, 1, 0, 5], opened = [3]\<rparr> = Some (0, k1) \<and>
    stored k1 = [1, 0, 7, 8, 9] \<and>
    os_read_exact_at slow_ops False \<lparr>handle = 3\<rparr> 2 3 [] k1 = Some (Inr (0, [7, 8, 9]), k2)"
proof -
  let ?k = "\<lparr>stored = [1], cursor = 0, schedule = [0, 1, 0, 5], opened = [3]\<rparr>"
  have len: "length [7, 8, 9 :: u8] = 3" by simp
  have "unat (2 :: u64) + length [7, 8, 9 :: u8] < 2 ^ 63" by simp
  from write_all_read_exact [OF this, of "\<lparr>handle = 3\<rparr>" ?k False]
  have "\<exists>k1 k2. os_write_all_at slow_ops \<lparr>handle = 3\<rparr> 2 [7, 8, 9] ?k = Some (0, k1) \<and>
    stored k1 = put_bytes (unat (2 :: u64)) [7, 8, 9] (stored ?k) \<and>
    os_read_exact_at slow_ops False \<lparr>handle = 3\<rparr> 2 3 [] k1 = Some (Inr (0, [7, 8, 9]), k2)"
    unfolding len by blast
  moreover have "put_bytes (unat (2 :: u64)) [7, 8, 9] [1] = [1, 0, 7, 8, 9]"
  proof -
    have two: "unat (2 :: u64) = 2" by simp
    show ?thesis unfolding two by (simp add: put_bytes_def overlay_def grow_def)
  qed
  ultimately show ?thesis by simp
qed

text \<open>At the end of the file read\_exact\_at does not report an error: the assertion fails in a
  debug build, and with NDEBUG the loop repeats the empty read for ever.\<close>

theorem read_exact_at_end_of_file:
  assumes "unat pos + n < 2 ^ 63" and "length (stored k) - unat pos < n"
  shows "(\<exists>k'. os_read_exact_at slow_ops False f pos n [] k = Some (Inl Assert_failed, k')) \<and>
    os_read_exact_at slow_ops True f pos n [] k = None"
  using slow.read_exact_at_total [where fd = "handle f" and nd = False, OF assms(1), of k "[]"]
    slow.read_exact_at_diverges [where fd = "handle f", OF assms, of "[]"] assms(2)
  by auto

theorem read_exact_at_end_of_file_witness:
  "os_read_exact_at slow_ops True \<lparr>handle = 3\<rparr> 0 2 []
     \<lparr>stored = [1], cursor = 0, schedule = [], opened = [3]\<rparr> = None"
  using read_exact_at_end_of_file [of 0 2 "\<lparr>stored = [1], cursor = 0, schedule = [], opened = [3]\<rparr>"]
  by simp

section \<open>Every descriptor has one owner\<close>

text \<open>What a function does with its variables of type \<^verbatim>\<open>file\<close>, and the descriptors they hold.\<close>

datatype handle_op = Open_into nat | Move_from nat | Assign_from nat nat | Reset_at nat

fun handle_step ::
  "'k file_ops \<Rightarrow> bool \<Rightarrow> handle_op \<Rightarrow> sys_file list \<times> 'k \<Rightarrow> sys_file list \<times> 'k" where
  "handle_step ops nd (Open_into i) (fs, k) =
     (case proc_mem ops nd 1 2 k of
        (Inl t, k') \<Rightarrow> (fs, k')
      | (Inr tmp, k') \<Rightarrow> (let (f, k2) = assign_temporary ops (fs ! i) tmp k' in (fs[i := f], k2)))"
| "handle_step ops nd (Move_from i) (fs, k) =
     (let (new, old) = file_move (fs ! i) in (fs[i := old] @ [new], k))"
| "handle_step ops nd (Assign_from i j) (fs, k) =
     (let (a, b) = file_assign (fs ! i) (fs ! j) in (fs[i := a, j := b], k))"
| "handle_step ops nd (Reset_at i) (fs, k) =
     (let (f, k') = file_reset ops (fs ! i) k in (fs[i := f], k'))"

fun in_scope :: "handle_op \<Rightarrow> sys_file list \<Rightarrow> bool" where
  "in_scope (Open_into i) fs \<longleftrightarrow> i < length fs"
| "in_scope (Move_from i) fs \<longleftrightarrow> i < length fs"
| "in_scope (Assign_from i j) fs \<longleftrightarrow> i < length fs \<and> j < length fs"
| "in_scope (Reset_at i) fs \<longleftrightarrow> i < length fs"

inductive handle_runs :: "bool \<Rightarrow> sys_file list \<times> disk_file_state \<Rightarrow> sys_file list \<times> disk_file_state \<Rightarrow> bool"
  for nd where
  Refl: "handle_runs nd c c"
| Step: "handle_runs nd c (fs, k) \<Longrightarrow> in_scope a fs \<Longrightarrow> handle_runs nd c (handle_step slow_ops nd a (fs, k))"

definition owned :: "sys_file list \<Rightarrow> int multiset" where
  "owned fs = filter_mset (\<lambda>h. 0 \<le> h) (mset (map handle fs))"

definition one_owner :: "sys_file list \<times> disk_file_state \<Rightarrow> bool" where
  "one_owner = (\<lambda>(fs, k). owned fs = mset (opened k) \<and> distinct (opened k))"

lemma owned_update:
  assumes "i < length fs"
  shows "owned (fs[i := f]) =
    (if file_valid f then {#handle f#} else {#}) + (owned fs - (if file_valid (fs ! i) then {#handle (fs ! i)#} else {#}))"
  using assms by (auto simp: owned_def map_update mset_update filter_diff_mset file_valid_def)

lemma owned_append: "owned (fs @ [f]) = (if file_valid f then {#handle f#} else {#}) + owned fs"
  by (auto simp: owned_def file_valid_def)

lemma owned_member: "i < length fs \<Longrightarrow> file_valid (fs ! i) \<Longrightarrow> handle (fs ! i) \<in># owned fs"
  by (auto simp: owned_def file_valid_def)

lemma foldr_max_ge: "x \<in> set xs \<Longrightarrow> x \<le> foldr max xs (b :: int)" "b \<le> foldr max xs b"
  by (induction xs) (auto simp: le_max_iff_disj)

lemma handle_step_keeps:
  assumes inv: "one_owner (fs, k)" and "in_scope a fs"
  shows "one_owner (handle_step slow_ops nd a (fs, k))"
proof (cases a)
  case (Open_into i)
  have i: "i < length fs" using assms Open_into by simp
  define fd where "fd = foldr max (opened k) 2 + 1"
  have fresh: "0 \<le> fd" "fd \<notin> set (opened k)"
    using foldr_max_ge(1) [of fd "opened k" 2] foldr_max_ge(2) [of 2 "opened k"] by (auto simp: fd_def)
  have "file_valid (fs ! i) \<Longrightarrow> handle (fs ! i) \<in> set (opened k) \<and> handle (fs ! i) \<noteq> fd"
    using owned_member [OF i] inv fresh by (auto simp: one_owner_def)
  then show ?thesis
    using inv fresh i Open_into
    by (auto simp: one_owner_def proc_mem_def slow_ops_def assign_temporary_def file_assign_def
        file_reset_def release_def owned_update file_valid_def Let_def asserts_def
        simp flip: fd_def)
next
  case (Move_from i)
  then show ?thesis
    using assms owned_member [of i fs]
    by (auto simp: one_owner_def file_move_def release_def owned_append owned_update file_valid_def)
next
  case (Assign_from i j)
  have "mset (fs[i := fs ! j, j := fs ! i]) = mset fs"
    using assms(2) Assign_from mset_swap [of j fs i] by simp
  then have "owned (fs[i := fs ! j, j := fs ! i]) = owned fs"
    unfolding owned_def mset_map by (rule arg_cong)
  then show ?thesis using inv Assign_from by (simp add: one_owner_def file_assign_swaps)
next
  case (Reset_at i)
  then show ?thesis
    using assms by (auto simp: one_owner_def slow_ops_def file_reset_def release_def owned_update file_valid_def)
qed

text \<open>C23: However files are opened into, moved, assigned and reset, every open descriptor has
  exactly one owner and every owner an open descriptor: none leaks, none is closed twice.\<close>

theorem descriptors_have_one_owner:
  assumes "handle_runs nd (replicate n no_file, k0) (fs, k)" and "opened k0 = []"
  shows "mset (filter (\<lambda>h. 0 \<le> h) (map handle fs)) = mset (opened k) \<and> distinct (opened k)"
proof -
  have "one_owner c" if "handle_runs nd (replicate n no_file, k0) c" for c
    using that
  proof (induction "(replicate n no_file, k0)" c rule: handle_runs.induct)
    case Refl
    show ?case using assms(2) by (simp add: one_owner_def owned_def no_file_def)
  next
    case (Step fs k a)
    then show ?case by (simp add: handle_step_keeps)
  qed
  from this [OF assms(1)] show ?thesis by (simp add: one_owner_def owned_def mset_filter)
qed

theorem descriptors_have_one_owner_witness:
  "\<exists>fs k. handle_runs False (replicate 1 no_file, \<lparr>stored = [], cursor = 0, schedule = [], opened = []\<rparr>) (fs, k) \<and>
     mset (filter (\<lambda>h. 0 \<le> h) (map handle fs)) = mset (opened k) \<and> opened k = [3]"
proof -
  let ?c = "(replicate 1 no_file, \<lparr>stored = [], cursor = 0, schedule = [], opened = []\<rparr>)"
  let ?d = "handle_step slow_ops False (Open_into 0) ?c"
  have run: "handle_runs False ?c ?d"
    by (rule handle_runs.Step [OF handle_runs.Refl]) simp
  have eq: "opened (snd ?d) = [3]"
    by (simp add: proc_mem_def slow_ops_def assign_temporary_def file_assign_def file_reset_def
        file_valid_def no_file_def Let_def)
  have "handle_runs False ?c (fst ?d, snd ?d)" using run by simp
  from descriptors_have_one_owner [OF this] eq this show ?thesis by (metis disk_file_state.select_convs(4))
qed

end
