(* ===== verification/Tracer.thy ===== *)
theory Tracer
  imports Hook_Steps Child Sys_File
begin

text \<open>
  The runner of src/sim/runner/ptrace.cpp and the requests of src/sys/ptrace.cpp it makes. A
  function works on the traced child and the process behind it, or on the whole runner: the
  child, what the handle exposes, the statistics of the hook table and the simulation, in which
  the process is the memory of replica \<open>i\<close>. The kernel's side of ptrace and waitpid is a record;
  the locale \<open>traced_process\<close> states what ptrace(2) documents of it.
\<close>

section \<open>Sequencing\<close>

definition run_loop :: "('a, 's) outcome option \<Rightarrow> ('a, 's) outcome" where
  "run_loop x = (case x of None \<Rightarrow> Diverges | Some out \<Rightarrow> out)"

lemma bind_Done: "f s = Done x s' \<Longrightarrow> bind_act f g s = g x s'"
  by (simp add: bind_act_def)

section \<open>Requests\<close>

record user_regs =
  orig_rax :: u64
  rax :: u64
  other_regs :: "u64 list"

datatype syscall_stop =
    No_stop
  | Entry u64 args
  | Exit_stop u64 bool
  | Seccomp u64 args u32

record syscall_info =
  arch :: u32
  instruction_pointer :: u64
  stack_pointer :: u64
  stop :: syscall_stop

text \<open>
  Requests take the process id and answer an errno or a value; \<^verbatim>\<open>peekdata\<close>, \<^verbatim>\<open>peekuser\<close> and
  \<^verbatim>\<open>pokedata\<close> answer the raw result of the call, with errno beside it.
\<close>

record 'm tracer_ops =
  op_syscall :: "int \<Rightarrow> 'm \<Rightarrow> (int + unit) \<times> 'm"
  op_wait :: "int \<Rightarrow> 'm \<Rightarrow> (int + u32) \<times> 'm"
  op_getregs :: "int \<Rightarrow> 'm \<Rightarrow> (int + user_regs) \<times> 'm"
  op_setregs :: "int \<Rightarrow> user_regs \<Rightarrow> 'm \<Rightarrow> (int + unit) \<times> 'm"
  op_setoptions :: "int \<Rightarrow> u32 \<Rightarrow> 'm \<Rightarrow> (int + unit) \<times> 'm"
  op_info :: "int \<Rightarrow> 'm \<Rightarrow> (int + syscall_info) \<times> 'm"
  op_peekuser :: "int \<Rightarrow> u64 \<Rightarrow> 'm \<Rightarrow> u64"
  op_peekdata :: "int \<Rightarrow> u64 \<Rightarrow> 'm \<Rightarrow> u64"
  op_pokedata :: "int \<Rightarrow> u64 \<Rightarrow> u64 \<Rightarrow> 'm \<Rightarrow> u64 \<times> 'm"
  op_errno :: "'m \<Rightarrow> int"

type_synonym ('m, 'a) proc_act = "child \<times> 'm \<Rightarrow> ('a, child \<times> 'm) outcome"

text \<open>\<^verbatim>\<open>ptrace_child\<close> of src/sys/ptrace.cpp and its uses.\<close>

definition ptrace_child :: "bool \<Rightarrow> (int \<Rightarrow> 'm \<Rightarrow> (int + 'a) \<times> 'm) \<Rightarrow> ('m, 'a) proc_act" where
  "ptrace_child nd req = (\<lambda>(c, m).
     if \<not> asserts nd (child_valid c) then Trapped Assert_failed
     else
      (case req (pid c) m of
         (Inl errno, m') \<Rightarrow> Trapped (System_error errno)
       | (Inr v, m') \<Rightarrow> Done v (c, m')))"

definition ptrace_syscall :: "bool \<Rightarrow> 'm tracer_ops \<Rightarrow> ('m, unit) proc_act" where
  "ptrace_syscall nd k = ptrace_child nd (op_syscall k)"

definition get_regs :: "bool \<Rightarrow> 'm tracer_ops \<Rightarrow> ('m, user_regs) proc_act" where
  "get_regs nd k = ptrace_child nd (op_getregs k)"

definition set_regs :: "bool \<Rightarrow> 'm tracer_ops \<Rightarrow> user_regs \<Rightarrow> ('m, unit) proc_act" where
  "set_regs nd k regs = ptrace_child nd (\<lambda>p. op_setregs k p regs)"

definition set_options :: "bool \<Rightarrow> 'm tracer_ops \<Rightarrow> u32 \<Rightarrow> ('m, unit) proc_act" where
  "set_options nd k opts = ptrace_child nd (\<lambda>p. op_setoptions k p opts)"

definition get_syscall_info :: "bool \<Rightarrow> 'm tracer_ops \<Rightarrow> ('m, syscall_info) proc_act" where
  "get_syscall_info nd k = ptrace_child nd (op_info k)"

definition proc_wait :: "'m tracer_ops \<Rightarrow> ('m, u32) proc_act" where
  "proc_wait k = (\<lambda>(c, m).
     let (rc, m') = op_wait k (pid c) m
     in case child_wait rc c of
          (Inl t, c') \<Rightarrow> Trapped t
        | (Inr status, c') \<Rightarrow> Done status (c', m'))"

text \<open>\<^verbatim>\<open>child::ptrace\<close> takes every negative result for a failure.\<close>

definition child_ptrace :: "'m tracer_ops \<Rightarrow> (int \<Rightarrow> 'm \<Rightarrow> u64 \<times> 'm) \<Rightarrow> ('m, u64) proc_act" where
  "child_ptrace k req = (\<lambda>(c, m).
     let (rc, m') = req (pid c) m
     in if sint rc < 0 then Trapped (System_error (op_errno k m')) else Done rc (c, m'))"

definition peek_data :: "'m tracer_ops \<Rightarrow> u64 \<Rightarrow> ('m, u64) proc_act" where
  "peek_data k p = child_ptrace k (\<lambda>i m. (op_peekdata k i p m, m))"

definition peek_user :: "'m tracer_ops \<Rightarrow> u64 \<Rightarrow> ('m, u64) proc_act" where
  "peek_user k p = child_ptrace k (\<lambda>i m. (op_peekuser k i p m, m))"

definition poke_data :: "'m tracer_ops \<Rightarrow> u64 \<Rightarrow> u64 \<Rightarrow> ('m, u64) proc_act" where
  "poke_data k p w = child_ptrace k (\<lambda>i m. op_pokedata k i p w m)"

section \<open>Starting a process\<close>

record runner_options =
  run_path :: string
  run_args :: "string list"
  run_env :: "string list"

text \<open>\<^verbatim>\<open>fork\<close> answers an errno or a process id, 0 in the child, which asks to be traced, stops and
  becomes the program; the environment is built and not passed on.\<close>

datatype fork_side = Parent | Becomes string "string list"

definition spawn ::
  "'m tracer_ops \<Rightarrow> runner_options \<Rightarrow> int + int \<Rightarrow> 'm \<Rightarrow> (fork_side, child \<times> 'm) outcome" where
  "spawn k opts fork m =
     (case run_args opts of
        [] \<Rightarrow> Trapped Out_of_range
      | arg # _ \<Rightarrow>
          if arg \<noteq> run_path opts then Trapped Invalid_argument
          else
           (case fork of
              Inl errno \<Rightarrow> Trapped (System_error errno)
            | Inr p \<Rightarrow>
                if 0 < p then
                  bind_act (proc_wait k) (\<lambda>_. Done Parent) (\<lparr>pid = p, state = Some Running\<rparr>, m)
                else Done (Becomes (run_path opts) (run_args opts)) (child_init, m)))"

text \<open>The status of a stop after \<^verbatim>\<open>execve\<close>: SIGTRAP with the event shifted by eight.\<close>

partial_function (option) wait_until_execve ::
  "bool \<Rightarrow> 'm tracer_ops \<Rightarrow> child \<times> 'm \<Rightarrow> (unit, child \<times> 'm) outcome option" where
  "wait_until_execve nd k s =
     (case bind_act (ptrace_syscall nd k) (\<lambda>_. proc_wait k) s of
        Done status s' \<Rightarrow>
          if drop_bit 8 status = 0x405 then Some (Done () s') else wait_until_execve nd k s'
      | Blocked \<Rightarrow> Some Blocked
      | Diverges \<Rightarrow> Some Diverges
      | Trapped t \<Rightarrow> Some (Trapped t))"

partial_function (option) skip_nulls ::
  "'m tracer_ops \<Rightarrow> nat \<Rightarrow> u64 \<Rightarrow> child \<times> 'm \<Rightarrow> (u64, child \<times> 'm) outcome option" where
  "skip_nulls k i pos s =
     (if i < 2 then
        (case peek_data k (pos + 8) s of
           Done v s' \<Rightarrow> skip_nulls k (if v = 0 then i + 1 else i) (pos + 8) s'
         | Blocked \<Rightarrow> Some Blocked
         | Diverges \<Rightarrow> Some Diverges
         | Trapped t \<Rightarrow> Some (Trapped t))
      else Some (Done pos s))"

partial_function (option) hide_sysinfo ::
  "'m tracer_ops \<Rightarrow> u64 \<Rightarrow> child \<times> 'm \<Rightarrow> (unit, child \<times> 'm) outcome option" where
  "hide_sysinfo k pos s =
     (case peek_data k (pos + 8) s of
        Done v s' \<Rightarrow>
          if v = 0 then Some (Done () s')
          else if v = 33 then Some (bind_act (poke_data k (pos + 8) 1) (\<lambda>_. Done ()) s')
          else hide_sysinfo k (pos + 8) s'
      | Blocked \<Rightarrow> Some Blocked
      | Diverges \<Rightarrow> Some Diverges
      | Trapped t \<Rightarrow> Some (Trapped t))"

text \<open>The stack pointer is the register at word 19 of the user area.\<close>

definition remove_vdso :: "'m tracer_ops \<Rightarrow> ('m, unit) proc_act" where
  "remove_vdso k =
     bind_act (peek_user k (8 * 19))
       (\<lambda>pos. bind_act (\<lambda>s. run_loop (skip_nulls k 0 pos s)) (\<lambda>pos s. run_loop (hide_sysinfo k pos s)))"

section \<open>Simulating a call\<close>

text \<open>The call is replaced by \<^verbatim>\<open>gettid\<close>, number 186, and the result by the simulated one.\<close>

definition replace_syscall_with_result :: "bool \<Rightarrow> 'm tracer_ops \<Rightarrow> u64 \<Rightarrow> ('m, unit) proc_act" where
  "replace_syscall_with_result nd k result =
     bind_act (get_regs nd k) (\<lambda>regs.
     bind_act (set_regs nd k (regs\<lparr>orig_rax := 186, rax := 186\<rparr>)) (\<lambda>_.
     bind_act (ptrace_syscall nd k) (\<lambda>_.
     bind_act (proc_wait k) (\<lambda>_.
     set_regs nd k (regs\<lparr>orig_rax := result, rax := result\<rparr>)))))"

record 'm runner =
  r_child :: child
  r_saved :: "run_state option"
  r_stats :: hook_stats
  r_sim :: "'m sim"

definition on_process :: "nat \<Rightarrow> ('m, 'a) proc_act \<Rightarrow> 'm runner \<Rightarrow> ('a, 'm runner) outcome" where
  "on_process i f r =
     (case f (r_child r, mem (rep (r_sim r) i)) of
        Done x (c, m) \<Rightarrow> Done x (r\<lparr>r_child := c, r_sim := set_mem i m (r_sim r)\<rparr>)
      | Blocked \<Rightarrow> Blocked | Diverges \<Rightarrow> Diverges | Trapped t \<Rightarrow> Trapped t)"

definition handle_trapped ::
  "bool \<Rightarrow> 'm tracer_ops \<Rightarrow> Hook_Table.hook option list \<Rightarrow> 'm env \<Rightarrow> nat \<Rightarrow> 'm runner \<Rightarrow>
   (unit, 'm runner) outcome" where
  "handle_trapped nd k tbl e i =
     bind_act (on_process i (get_syscall_info nd k)) (\<lambda>info r.
       case stop info of
         Entry nr a \<Rightarrow>
           (let (h, st) = get_hook tbl nr (r_stats r); r1 = r\<lparr>r_stats := st\<rparr>
            in case h of
                 None \<Rightarrow> Done () r1
               | Some h \<Rightarrow>
                   (case run_hook h e i a (r_sim r1) of
                      Done (Handled v) s \<Rightarrow>
                        on_process i (replace_syscall_with_result nd k v) (r1\<lparr>r_sim := s\<rparr>)
                    | Done Passthrough s \<Rightarrow> Done () (r1\<lparr>r_sim := s\<rparr>)
                    | Blocked \<Rightarrow> Blocked | Diverges \<Rightarrow> Diverges | Trapped t \<Rightarrow> Trapped t))
       | _ \<Rightarrow> Done () r)"

section \<open>The worker\<close>

text \<open>One round of its loop, and whether it was the last; a call waits inside its round.\<close>

definition worker_round ::
  "bool \<Rightarrow> 'm tracer_ops \<Rightarrow> Hook_Table.hook option list \<Rightarrow> 'm env \<Rightarrow> nat \<Rightarrow> 'm runner \<Rightarrow>
   (bool, 'm runner) outcome" where
  "worker_round nd k tbl e i =
     bind_act (on_process i (ptrace_syscall nd k)) (\<lambda>_.
     bind_act (on_process i (proc_wait k)) (\<lambda>_ r.
       case state (r_child r) of
         None \<Rightarrow> Trapped Bad_optional_access
       | Some st \<Rightarrow>
          (let r1 = r\<lparr>r_saved := Some st\<rparr>
           in case st of
                Running \<Rightarrow> Done False r1
              | Stopped sig \<Rightarrow>
                  if sig = 0x80 OR 5 then bind_act (handle_trapped nd k tbl e i) (\<lambda>_. Done False) r1
                  else Done False r1
              | Terminated sig \<Rightarrow> Done True r1
              | Exited code \<Rightarrow> Done True r1)))"

text \<open>The environment of the \<open>n\<close>-th round, with its reading of the clock, is \<open>es n\<close>.\<close>

partial_function (option) worker_loop ::
  "bool \<Rightarrow> 'm tracer_ops \<Rightarrow> Hook_Table.hook option list \<Rightarrow> (nat \<Rightarrow> 'm env) \<Rightarrow> nat \<Rightarrow> nat \<Rightarrow> 'm runner \<Rightarrow>
   (unit, 'm runner) outcome option" where
  "worker_loop nd k tbl es i n r =
     (case worker_round nd k tbl (es n) i r of
        Done over r' \<Rightarrow> if over then Some (Done () r') else worker_loop nd k tbl es i (Suc n) r'
      | Blocked \<Rightarrow> Some Blocked
      | Diverges \<Rightarrow> Some Diverges
      | Trapped t \<Rightarrow> Some (Trapped t))"

text \<open>
  The thread before its loop: the child is spawned, its memory file opened, and its options
  set; after the barrier it runs up to its program, loses its vdso, and the thread waits for
  the replica, which \<^verbatim>\<open>machine::start\<close> makes.
\<close>

definition worker_start ::
  "bool \<Rightarrow> 'm tracer_ops \<Rightarrow> 'f file_ops \<Rightarrow> runner_options \<Rightarrow> int + int \<Rightarrow> 'm \<Rightarrow> 'f \<Rightarrow>
   (fork_side, child \<times> 'm) outcome \<times> 'f" where
  "worker_start nd k fops opts fork m fs =
     (case spawn k opts fork m of
        Done Parent (c, m1) \<Rightarrow>
          (case proc_mem fops nd (pid c) 2 fs of
             (Inl t, fs') \<Rightarrow> (Trapped t, fs')
           | (Inr memfd, fs') \<Rightarrow>
               (if \<not> asserts nd (file_valid memfd) then Trapped Assert_failed
                else bind_act (set_options nd k (1 OR 16)) (\<lambda>_. Done Parent) (c, m1), fs'))
      | out \<Rightarrow> (out, fs))"

definition worker_attach :: "bool \<Rightarrow> 'm tracer_ops \<Rightarrow> ('m, unit) proc_act" where
  "worker_attach nd k =
     bind_act (\<lambda>s. run_loop (wait_until_execve nd k s)) (\<lambda>_. remove_vdso k)"

definition ptrace_worker ::
  "bool \<Rightarrow> 'm tracer_ops \<Rightarrow> Hook_Table.hook option list \<Rightarrow> (nat \<Rightarrow> 'm env) \<Rightarrow> nat \<Rightarrow> 'm runner \<Rightarrow>
   (unit, 'm runner) outcome" where
  "ptrace_worker nd k tbl es i r =
     (if i < length (replicas (r_sim r)) then run_loop (worker_loop nd k tbl es i 0 r) else Blocked)"

text \<open>What becomes of the thread: ESRCH, number 3, is taken for a crashed child.\<close>

datatype thread_end = Finished | Child_crashed | Process_terminated trap | Waiting | Spinning

definition thread_outcome :: "('a, 's) outcome \<Rightarrow> thread_end" where
  "thread_outcome out =
     (case out of
        Done _ _ \<Rightarrow> Finished
      | Trapped t \<Rightarrow> if t = System_error 3 then Child_crashed else Process_terminated t
      | Blocked \<Rightarrow> Waiting
      | Diverges \<Rightarrow> Spinning)"

text \<open>The handle: \<^verbatim>\<open>kill\<close>, \<^verbatim>\<open>state\<close>, and \<^verbatim>\<open>wait\<close>, which joins the thread.\<close>

definition handle_wait :: "('a, 's) outcome \<Rightarrow> (unit, unit) outcome" where
  "handle_wait out =
     (case thread_outcome out of
        Finished \<Rightarrow> Done () ()
      | Child_crashed \<Rightarrow> Done () ()
      | Process_terminated t \<Rightarrow> Trapped t
      | Waiting \<Rightarrow> Blocked
      | Spinning \<Rightarrow> Blocked)"

definition handle_kill :: "(int \<Rightarrow> int \<Rightarrow> int option) \<Rightarrow> int \<Rightarrow> 'm runner \<Rightarrow> trap + unit" where
  "handle_kill kill sig r = child_terminate kill sig (r_child r)"

definition handle_state :: "'m runner \<Rightarrow> run_state option" where
  "handle_state r = r_saved r"

section \<open>How a simulated process is served\<close>

text \<open>
  The specification of the loop. The process of replica \<open>i\<close> runs to its next stop. A call with a
  hook gets the hook's answer; a call without, or one the hook passes through, is made by the
  kernel, which stops the process again at its exit; any other stop is passed over; the end of
  the process ends the service.
\<close>

inductive served ::
  "('m \<Rightarrow> (wait_event \<times> 'm) option) \<Rightarrow> ('m \<Rightarrow> (u64 \<times> args) option) \<Rightarrow> ('m \<Rightarrow> u64 option) \<Rightarrow>
   (u64 \<Rightarrow> 'm \<Rightarrow> 'm) \<Rightarrow> Hook_Table.hook option list \<Rightarrow> (nat \<Rightarrow> 'm env) \<Rightarrow> nat \<Rightarrow> nat \<Rightarrow> 'm sim \<Rightarrow> 'm sim \<Rightarrow> bool"
  for go entered left answer tbl es i where
  Answered: "go (mem (rep s i)) = Some (Stop 0x85, m1) \<Longrightarrow> entered m1 = Some (nr, a) \<Longrightarrow>
    lookup tbl (unat nr) = Some h \<Longrightarrow> run_hook h (es n) i a (set_mem i m1 s) = Done (Handled v) s2 \<Longrightarrow>
    served go entered left answer tbl es i (Suc n) (set_mem i (answer v (mem (rep s2 i))) s2) s' \<Longrightarrow>
    served go entered left answer tbl es i n s s'"
| Passed: "go (mem (rep s i)) = Some (Stop 0x85, m1) \<Longrightarrow> entered m1 = Some (nr, a) \<Longrightarrow>
    (case lookup tbl (unat nr) of None \<Rightarrow> s2 = set_mem i m1 s
     | Some h \<Rightarrow> run_hook h (es n) i a (set_mem i m1 s) = Done Passthrough s2) \<Longrightarrow>
    go (mem (rep s2 i)) = Some (Stop 0x85, m2) \<Longrightarrow> left m2 \<noteq> None \<Longrightarrow>
    served go entered left answer tbl es i (Suc (Suc n)) (set_mem i m2 s2) s' \<Longrightarrow>
    served go entered left answer tbl es i n s s'"
| Other: "go (mem (rep s i)) = Some (ev, m1) \<Longrightarrow>
    state_of ev = Running \<or> (\<exists>sig. state_of ev = Stopped sig \<and> sig \<noteq> 0x85) \<Longrightarrow>
    served go entered left answer tbl es i (Suc n) (set_mem i m1 s) s' \<Longrightarrow>
    served go entered left answer tbl es i n s s'"
| Ended: "go (mem (rep s i)) = Some (ev, m1) \<Longrightarrow>
    (\<exists>code. ev = Exit code) \<or> (\<exists>sig core. ev = Killed sig core) \<Longrightarrow>
    served go entered left answer tbl es i n s (set_mem i m1 s)"

section \<open>What ptrace promises\<close>

text \<open>
  A process is in user code, stopped at the entry of a call, stopped at its exit, or gone.
  \<open>entered\<close> and \<open>left\<close> tell the stops with the call and the value it is about to return, \<open>go\<close> is
  how the process runs on to its next stop, \<open>finish\<close> what becomes of it when its call returns
  without touching memory, as \<^verbatim>\<open>gettid\<close> does, and \<open>with_regs\<close> the process with its registers
  replaced. Word accesses leave all of this alone.
\<close>

locale traced_process =
  fixes k :: "'m tracer_ops" and kern :: "'m ptrace_ops" and p :: int
    and entered :: "'m \<Rightarrow> (u64 \<times> args) option" and left :: "'m \<Rightarrow> u64 option"
    and regs_of :: "'m \<Rightarrow> user_regs" and with_regs :: "user_regs \<Rightarrow> 'm \<Rightarrow> 'm"
    and go :: "'m \<Rightarrow> (wait_event \<times> 'm) option" and finish :: "'m \<Rightarrow> 'm"
  assumes resume: "go m = Some (ev, m') \<Longrightarrow> event_ok ev \<and>
      (\<exists>m1. op_syscall k p m = (Inr (), m1) \<and> op_wait k p m1 = (Inr (encode_status ev), m'))"
    and info_entry: "entered m = Some (nr, a) \<Longrightarrow>
      \<exists>info. op_info k p m = (Inr info, m) \<and> stop info = Entry nr a"
    and info_exit: "left m = Some v \<Longrightarrow>
      \<exists>info err. op_info k p m = (Inr info, m) \<and> stop info = Exit_stop v err"
    and getregs: "entered m \<noteq> None \<or> left m \<noteq> None \<Longrightarrow> op_getregs k p m = (Inr (regs_of m), m)"
    and setregs: "entered m \<noteq> None \<or> left m \<noteq> None \<Longrightarrow> op_setregs k p regs m = (Inr (), with_regs regs m)"
    and entered_with_regs: "entered m = Some (nr, a) \<Longrightarrow> other_regs regs = other_regs (regs_of m) \<Longrightarrow>
      entered (with_regs regs m) = Some (orig_rax regs, a)"
    and left_with_regs: "left m = Some v \<Longrightarrow> left (with_regs regs m) = Some (rax regs)"
    and with_regs_twice: "with_regs regs (with_regs regs' m) = with_regs regs m"
    and gettid: "entered m = Some (186, a) \<Longrightarrow>
      \<exists>regs. go m = Some (Stop 0x85, with_regs regs (finish m))"
    and left_finish: "entered m \<noteq> None \<Longrightarrow> left (finish m) \<noteq> None"
    and finish_with_regs: "finish (with_regs regs m) = with_regs regs (finish m)"
    and poke_entered: "entered (poke kern x w m) = entered m"
    and poke_left: "left (poke kern x w m) = left m"
    and poke_regs: "regs_of (poke kern x w m) = regs_of m"

text \<open>A child that ptrace may be asked about.\<close>

definition traces :: "int \<Rightarrow> child \<Rightarrow> bool" where
  "traces p c \<longleftrightarrow> pid c = p \<and> 0 \<le> p"

lemma runner_updates [simp]:
  "i < length (replicas (r_sim r)) \<Longrightarrow> mem (rep (set_mem i m (r_sim r)) i) = m"
  "set_mem i m (set_mem i m' s) = set_mem i m s"
  by (simp_all add: set_mem_def) (cases "i < length (replicas s)", simp_all add: list_update_beyond)

context traced_process
begin

lemma resume_and_wait:
  assumes "traces p c" and "go m = Some (ev, m')"
  shows "bind_act (ptrace_syscall nd k) (\<lambda>_. proc_wait k) (c, m) =
    Done (encode_status ev) (snd (child_wait (Inr (encode_status ev)) c), m')"
proof -
  obtain m1 where "op_syscall k p m = (Inr (), m1)" "op_wait k p m1 = (Inr (encode_status ev), m')"
    "event_ok ev"
    using resume [OF assms(2)] by auto
  then show ?thesis
    using assms(1)
    by (simp add: bind_act_def ptrace_syscall_def ptrace_child_def proc_wait_def traces_def child_valid_def
        child_wait_status)
qed


lemma regs_requests:
  assumes "traces p c" and "entered m \<noteq> None \<or> left m \<noteq> None"
  shows "get_regs nd k (c, m) = Done (regs_of m) (c, m)"
    and "set_regs nd k regs (c, m) = Done () (c, with_regs regs m)"
  using assms
  by (simp_all add: get_regs_def set_regs_def ptrace_child_def traces_def child_valid_def getregs setregs)

lemma replace_answers:
  assumes c: "traces p c" and m: "entered m = Some (nr, a)"
  shows "\<exists>c'. replace_syscall_with_result nd k v (c, m) =
      Done () (c', with_regs ((regs_of m)\<lparr>orig_rax := v, rax := v\<rparr>) (finish m)) \<and> traces p c' \<and>
    state c' = Some (Stopped 0x85)"
proof -
  let ?tid = "(regs_of m)\<lparr>orig_rax := 186, rax := 186\<rparr>"
  let ?m1 = "with_regs ?tid m"
  let ?c = "snd (child_wait (Inr (encode_status (Stop 0x85))) c)"
  have "entered ?m1 = Some (186, a)" using entered_with_regs [OF m, of ?tid] by simp
  from gettid [OF this] obtain regs where
    go: "go ?m1 = Some (Stop 0x85, with_regs regs (finish ?m1))" by blast
  have m2: "with_regs regs (finish ?m1) = with_regs regs (finish m)"
    by (simp add: finish_with_regs with_regs_twice)
  have left: "left (with_regs regs (finish m)) \<noteq> None"
    using left_finish [of m] m left_with_regs by fastforce
  have c': "traces p ?c" "state ?c = Some (Stopped 0x85)"
    using c child_wait_status [of "Stop 0x85" c]
    by (simp_all add: traces_def del: encode_status.simps)
  have "bind_act (ptrace_syscall nd k) (\<lambda>_. bind_act (proc_wait k) (\<lambda>_. f)) (c, ?m1) =
      f (?c, with_regs regs (finish m))" for f :: "('m, unit) proc_act"
    using resume_and_wait [OF c go, of nd] unfolding m2
    by (auto simp: bind_act_def split: outcome.splits)
  moreover have get: "get_regs nd k (c, m) = Done (regs_of m) (c, m)"
    and set: "set_regs nd k ?tid (c, m) = Done () (c, ?m1)"
    using m by (simp_all add: regs_requests [OF c])
  moreover have "set_regs nd k ((regs_of m)\<lparr>orig_rax := v, rax := v\<rparr>) (?c, with_regs regs (finish m)) =
      Done () (?c, with_regs ((regs_of m)\<lparr>orig_rax := v, rax := v\<rparr>) (finish m))"
    using regs_requests(2) [OF c'(1)] left by (simp add: with_regs_twice)
  ultimately have "replace_syscall_with_result nd k v (c, m) =
      Done () (?c, with_regs ((regs_of m)\<lparr>orig_rax := v, rax := v\<rparr>) (finish m))"
    unfolding replace_syscall_with_result_def
    by (simp add: bind_Done [of "get_regs nd k", OF get] bind_Done [of "set_regs nd k ?tid", OF set])
  with c' show ?thesis by blast
qed

lemma round_stop:
  assumes "traces p (r_child r)" and "i < length (replicas (r_sim r))"
    and "go (mem (rep (r_sim r) i)) = Some (ev, m')"
  shows "worker_round nd k tbl e i r =
    (let c' = snd (child_wait (Inr (encode_status ev)) (r_child r));
         r1 = r\<lparr>r_child := c', r_sim := set_mem i m' (r_sim r), r_saved := Some (state_of ev)\<rparr>
     in case state_of ev of
          Running \<Rightarrow> Done False r1
        | Stopped sig \<Rightarrow>
            if sig = 0x85 then bind_act (handle_trapped nd k tbl e i) (\<lambda>_. Done False) r1 else Done False r1
        | _ \<Rightarrow> Done True r1)"
proof -
  obtain m1 where "op_syscall k p (mem (rep (r_sim r) i)) = (Inr (), m1)"
    "op_wait k p m1 = (Inr (encode_status ev), m')" "event_ok ev"
    using resume [OF assms(3)] by auto
  then show ?thesis
    using assms(1,2)
    by (simp add: worker_round_def bind_act_def [of "on_process i f" for f] on_process_def ptrace_syscall_def
        ptrace_child_def proc_wait_def traces_def child_valid_def child_wait_status Let_def
        split: run_state.splits)
qed

lemma stopped_child:
  "traces p c \<Longrightarrow> state_of ev = Running \<or> state_of ev = Stopped sig \<Longrightarrow> event_ok ev \<Longrightarrow>
   traces p (snd (child_wait (Inr (encode_status ev)) c))"
  by (cases ev) (simp_all add: traces_def child_wait_status del: encode_status.simps)

lemma stop_ok: "event_ok (Stop 0x85)"
  by simp

lemma entry_round:
  assumes "traces p (r_child r)" and i: "i < length (replicas (r_sim r))"
    and "go (mem (rep (r_sim r) i)) = Some (Stop 0x85, m1)" and m1: "entered m1 = Some (nr, a)"
  shows "\<exists>c r1. traces p c \<and> r_child r1 = c \<and> r_sim r1 = set_mem i m1 (r_sim r) \<and>
    worker_round nd k tbl e i r =
    (case lookup tbl (unat nr) of
       None \<Rightarrow> Done False r1
     | Some h \<Rightarrow>
        (case run_hook h e i a (set_mem i m1 (r_sim r)) of
           Done (Handled v) s \<Rightarrow>
             bind_act (on_process i (replace_syscall_with_result nd k v)) (\<lambda>_. Done False) (r1\<lparr>r_sim := s\<rparr>)
         | Done Passthrough s \<Rightarrow> Done False (r1\<lparr>r_sim := s\<rparr>)
         | Blocked \<Rightarrow> Blocked | Diverges \<Rightarrow> Diverges | Trapped t \<Rightarrow> Trapped t))"
proof -
  let ?c = "snd (child_wait (Inr (encode_status (Stop 0x85))) (r_child r))"
  let ?r = "r\<lparr>r_child := ?c, r_sim := set_mem i m1 (r_sim r), r_saved := Some (Stopped 0x85)\<rparr>"
  let ?r1 = "?r\<lparr>r_stats := snd (get_hook tbl nr (r_stats r))\<rparr>"
  have c: "traces p ?c" using assms(1) by (intro stopped_child [of _ _ "0x85"]) simp_all
  obtain info where info: "op_info k p m1 = (Inr info, m1)" "stop info = Entry nr a"
    using info_entry [OF m1] by blast
  have "on_process i (get_syscall_info nd k) ?r = Done info ?r"
    using c info(1) i by (simp add: on_process_def get_syscall_info_def ptrace_child_def traces_def child_valid_def
        del: encode_status.simps)
  then have "handle_trapped nd k tbl e i ?r =
      (case lookup tbl (unat nr) of
         None \<Rightarrow> Done () ?r1
       | Some h \<Rightarrow>
          (case run_hook h e i a (set_mem i m1 (r_sim r)) of
             Done (Handled v) s \<Rightarrow> on_process i (replace_syscall_with_result nd k v) (?r1\<lparr>r_sim := s\<rparr>)
           | Done Passthrough s \<Rightarrow> Done () (?r1\<lparr>r_sim := s\<rparr>)
           | Blocked \<Rightarrow> Blocked | Diverges \<Rightarrow> Diverges | Trapped t \<Rightarrow> Trapped t))"
    using info(2) by (simp add: handle_trapped_def bind_Done [of "on_process i (get_syscall_info nd k)"]
        Let_def case_prod_beta fst_get_hook del: encode_status.simps split: option.splits)
  moreover have "worker_round nd k tbl e i r = bind_act (handle_trapped nd k tbl e i) (\<lambda>_. Done False) ?r"
    using round_stop [OF assms(1-3)] by (simp add: Let_def del: encode_status.simps)
  ultimately show ?thesis
    using c by (intro exI [of _ ?c] exI [of _ ?r1])
      (simp add: bind_act_def [of "handle_trapped nd k tbl e i"] bind_act_def [of "on_process i f" for f]
        split: option.splits outcome.splits hook_result.splits del: encode_status.simps)
qed

lemma answered_round:
  assumes "traces p (r_child r)" and i: "i < length (replicas (r_sim r))"
    and "go (mem (rep (r_sim r) i)) = Some (Stop 0x85, m1)" and m1: "entered m1 = Some (nr, a)"
    and h: "lookup tbl (unat nr) = Some h"
    and run: "run_hook h e i a (set_mem i m1 (r_sim r)) = Done (Handled v) s2" and "kernel e = kern"
  shows "\<exists>r'. worker_round nd k tbl e i r = Done False r' \<and> traces p (r_child r') \<and>
    r_sim r' = set_mem i (with_regs ((regs_of (mem (rep s2 i)))\<lparr>orig_rax := v, rax := v\<rparr>)
      (finish (mem (rep s2 i)))) s2 \<and> i < length (replicas s2)"
proof -
  have "entered (mem (rep s2 i)) = Some (nr, a)" and len: "i < length (replicas s2)"
    using run_hook_view [where V = entered, OF run] m1 i assms(7) by (simp_all add: poke_entered)
  obtain c r1 where r1: "traces p c" "r_child r1 = c"
    "worker_round nd k tbl e i r =
      bind_act (on_process i (replace_syscall_with_result nd k v)) (\<lambda>_. Done False) (r1\<lparr>r_sim := s2\<rparr>)"
    using entry_round [OF assms(1-4), of nd tbl e] h run by auto
  obtain c' where "replace_syscall_with_result nd k v (c, mem (rep s2 i)) =
      Done () (c', with_regs ((regs_of (mem (rep s2 i)))\<lparr>orig_rax := v, rax := v\<rparr>) (finish (mem (rep s2 i))))"
    "traces p c'"
    using replace_answers [OF r1(1) \<open>entered (mem (rep s2 i)) = Some (nr, a)\<close>] by blast
  then show ?thesis using r1 len by (auto simp: bind_act_def on_process_def)
qed

lemma exit_round:
  assumes "traces p (r_child r)" and i: "i < length (replicas (r_sim r))"
    and "go (mem (rep (r_sim r) i)) = Some (Stop 0x85, m1)" and "left m1 \<noteq> None"
  shows "\<exists>r'. worker_round nd k tbl e i r = Done False r' \<and> traces p (r_child r') \<and>
    r_sim r' = set_mem i m1 (r_sim r)"
proof -
  let ?c = "snd (child_wait (Inr (encode_status (Stop 0x85))) (r_child r))"
  let ?r = "r\<lparr>r_child := ?c, r_sim := set_mem i m1 (r_sim r), r_saved := Some (Stopped 0x85)\<rparr>"
  have c: "traces p ?c" using assms(1) by (intro stopped_child [of _ _ "0x85"]) simp_all
  obtain v info err where info: "op_info k p m1 = (Inr info, m1)" "stop info = Exit_stop v err"
    using info_exit assms(4) by blast
  have "on_process i (get_syscall_info nd k) ?r = Done info ?r"
    using c info(1) i by (simp add: on_process_def get_syscall_info_def ptrace_child_def traces_def child_valid_def
        del: encode_status.simps)
  then have "handle_trapped nd k tbl e i ?r = Done () ?r"
    using info(2) by (simp add: handle_trapped_def bind_Done [of "on_process i (get_syscall_info nd k)"]
        del: encode_status.simps)
  then show ?thesis
    using round_stop [OF assms(1-3)] c by (simp add: Let_def bind_Done del: encode_status.simps)
qed

lemma other_round:
  assumes "traces p (r_child r)" and "i < length (replicas (r_sim r))"
    and "go (mem (rep (r_sim r) i)) = Some (ev, m1)"
    and "state_of ev = Running \<or> (\<exists>sig. state_of ev = Stopped sig \<and> sig \<noteq> 0x85)"
  shows "\<exists>r'. worker_round nd k tbl e i r = Done False r' \<and> traces p (r_child r') \<and>
    r_sim r' = set_mem i m1 (r_sim r)"
proof -
  have "event_ok ev" using resume [OF assms(3)] by simp
  then show ?thesis
    using assms(1,4) stopped_child round_stop [OF assms(1-3)]
    by (auto simp: Let_def del: encode_status.simps)
qed

lemma last_round:
  assumes "traces p (r_child r)" and "i < length (replicas (r_sim r))"
    and "go (mem (rep (r_sim r) i)) = Some (ev, m1)"
    and "(\<exists>code. ev = Exit code) \<or> (\<exists>sig core. ev = Killed sig core)"
  shows "\<exists>r'. worker_round nd k tbl e i r = Done True r' \<and> \<not> child_valid (r_child r') \<and>
    r_saved r' = Some (state_of ev) \<and> r_sim r' = set_mem i m1 (r_sim r)"
proof -
  have "event_ok ev" using resume [OF assms(3)] by simp
  then show ?thesis
    using assms(4) round_stop [OF assms(1-3)] child_wait_status [of ev "r_child r"]
    by (auto simp: Let_def child_valid_def simp del: encode_status.simps)
qed

lemma passed_rounds:
  assumes "traces p (r_child r)" and i: "i < length (replicas (r_sim r))"
    and "go (mem (rep (r_sim r) i)) = Some (Stop 0x85, m1)" and m1: "entered m1 = Some (nr, a)"
    and pass: "case lookup tbl (unat nr) of None \<Rightarrow> s2 = set_mem i m1 (r_sim r)
      | Some h \<Rightarrow> run_hook h e i a (set_mem i m1 (r_sim r)) = Done Passthrough s2"
    and go2: "go (mem (rep s2 i)) = Some (Stop 0x85, m2)" and m2: "left m2 \<noteq> None" and "kernel e = kern"
  shows "\<exists>r1 r2. worker_round nd k tbl e i r = Done False r1 \<and>
    worker_round nd k tbl e' i r1 = Done False r2 \<and> traces p (r_child r2) \<and>
    r_sim r2 = set_mem i m2 s2 \<and> i < length (replicas s2)"
proof -
  have len: "i < length (replicas s2)"
  proof (cases "lookup tbl (unat nr)")
    case None
    then show ?thesis using pass i by simp
  next
    case (Some h)
    then have "run_hook h e i a (set_mem i m1 (r_sim r)) = Done Passthrough s2" using pass by simp
    from run_hook_view [where V = entered, OF this] show ?thesis
      using i assms(8) by (simp add: poke_entered)
  qed
  obtain c r1 where r1: "traces p c" "r_child r1 = c" "r_sim r1 = set_mem i m1 (r_sim r)"
    "worker_round nd k tbl e i r = Done False (r1\<lparr>r_sim := s2\<rparr>)"
    using entry_round [OF assms(1-4), of nd tbl e] pass by (auto split: option.splits)
  have "\<exists>r'. worker_round nd k tbl e' i (r1\<lparr>r_sim := s2\<rparr>) = Done False r' \<and> traces p (r_child r') \<and>
      r_sim r' = set_mem i m2 (r_sim (r1\<lparr>r_sim := s2\<rparr>))"
    using r1(1,2) len go2 m2 by (intro exit_round) simp_all
  then show ?thesis using r1(4) len by auto
qed

lemma worker_loop_more:
  "worker_round nd k tbl (es n) i r = Done False r' \<Longrightarrow>
   worker_loop nd k tbl es i n r = worker_loop nd k tbl es i (Suc n) r'"
  by (subst worker_loop.simps) simp

lemma worker_loop_serves:
  assumes "served go entered left (\<lambda>v m. with_regs ((regs_of m)\<lparr>orig_rax := v, rax := v\<rparr>) (finish m)) tbl es i n s s'"
    and "\<And>n. kernel (es n) = kern"
    and "traces p (r_child r)" and "r_sim r = s" and "i < length (replicas s)"
  shows "\<exists>r'. worker_loop nd k tbl es i n r = Some (Done () r') \<and> r_sim r' = s' \<and> \<not> child_valid (r_child r') \<and>
    (\<exists>st. r_saved r' = Some st \<and> ((\<exists>code. st = Exited code) \<or> (\<exists>sig. st = Terminated sig)))"
  using assms(1,3-5)
proof (induction arbitrary: r rule: served.induct)
  case (Answered s m1 nr a h n v s2 s')
  then obtain r1 where "worker_round nd k tbl (es n) i r = Done False r1" "traces p (r_child r1)"
    "r_sim r1 = set_mem i (with_regs ((regs_of (mem (rep s2 i)))\<lparr>orig_rax := v, rax := v\<rparr>) (finish (mem (rep s2 i)))) s2"
    "i < length (replicas s2)"
    using answered_round [of r i m1 nr a tbl h "es n" v s2 nd] assms(2) by auto
  with Answered.IH [of r1] show ?case by (simp add: worker_loop_more)
next
  case (Passed s m1 nr a s2 n m2 s')
  then obtain r1 r2 where "worker_round nd k tbl (es n) i r = Done False r1"
    "worker_round nd k tbl (es (Suc n)) i r1 = Done False r2" "traces p (r_child r2)"
    "r_sim r2 = set_mem i m2 s2" "i < length (replicas s2)"
    using passed_rounds [where r = r and e = "es n" and e' = "es (Suc n)" and tbl = tbl and nd = nd] assms(2)
    by blast
  with Passed.IH [of r2] show ?case by (simp add: worker_loop_more)
next
  case (Other s ev m1 n s')
  then obtain r1 where "worker_round nd k tbl (es n) i r = Done False r1" "traces p (r_child r1)"
    "r_sim r1 = set_mem i m1 s"
    using other_round [of r i ev m1 nd tbl "es n"] by auto
  with Other.IH [of r1] Other.prems show ?case by (simp add: worker_loop_more)
next
  case (Ended s ev m1 n)
  then obtain r1 where "worker_round nd k tbl (es n) i r = Done True r1" "\<not> child_valid (r_child r1)"
    "r_saved r1 = Some (state_of ev)" "r_sim r1 = set_mem i m1 s"
    using last_round [of r i ev m1 nd tbl "es n"] by auto
  with Ended show ?case by (subst worker_loop.simps) auto
qed

end

end
