(* ===== verification/Startup.thy ===== *)
theory Startup
  imports Tracer Barrier
begin

text \<open>
  How a machine is started: \<^verbatim>\<open>ptrace_run\<close> of src/sim/runner/ptrace.cpp makes the handle and the
  thread that is its worker, and waits at the barrier until the worker has its child. The worker
  arrives there when what it does first (\<^const>\<open>worker_start\<close>, with the outcome \<open>out\<close>) returns; when
  it throws, the thread ends, or the whole simulator does.
\<close>

section \<open>The two threads\<close>

datatype worker_phase = Starting | Started | Gone thread_end

record startup =
  meeting :: barrier
  positions :: "wait_pos list"   \<comment> \<open>the thread in \<^verbatim>\<open>ptrace_run\<close>, and the worker\<close>
  phase_of :: worker_phase

definition startup_init :: startup where
  "startup_init = \<lparr>meeting = barrier_new 2, positions = [Outside, Outside], phase_of = Starting\<rparr>"

text \<open>The simulator still runs.\<close>

definition alive_process :: "startup \<Rightarrow> bool" where
  "alive_process s \<longleftrightarrow> (\<forall>t. phase_of s \<noteq> Gone (Process_terminated t))"

text \<open>\<^verbatim>\<open>b.wait()\<close> has returned, and with it \<^verbatim>\<open>ptrace_run\<close>.\<close>

definition handle_returned :: "startup \<Rightarrow> bool" where
  "handle_returned s \<longleftrightarrow> positions s ! 0 = Through"

text \<open>The forked child goes its own way and is none of the two threads.\<close>

inductive startup_step :: "bool \<Rightarrow> (fork_side, 's) outcome \<Rightarrow> startup \<Rightarrow> startup \<Rightarrow> bool" for nd out where
  Child_ready: "phase_of s = Starting \<Longrightarrow> out = Done Parent c \<Longrightarrow> startup_step nd out s (s\<lparr>phase_of := Started\<rparr>)"
| Worker_throws: "phase_of s = Starting \<Longrightarrow> out = Trapped t \<Longrightarrow>
    startup_step nd out s (s\<lparr>phase_of := Gone (thread_outcome out)\<rparr>)"
| Meet: "alive_process s \<Longrightarrow> barrier_step nd (meeting s, positions s) (b, ps) \<Longrightarrow>
    positions s ! 1 = ps ! 1 \<or> phase_of s = Started \<Longrightarrow>
    startup_step nd out s (s\<lparr>meeting := b, positions := ps\<rparr>)"

inductive_cases startup_stepE: "startup_step nd out s s'"

abbreviation startup_runs :: "bool \<Rightarrow> (fork_side, 's) outcome \<Rightarrow> startup \<Rightarrow> startup \<Rightarrow> bool" where
  "startup_runs nd out \<equiv> (startup_step nd out)\<^sup>*\<^sup>*"

section \<open>Invariants\<close>

text \<open>The meeting is a run of the barrier, and the worker arrives only with its child.\<close>

definition startup_inv :: "(fork_side, 's) outcome \<Rightarrow> startup \<Rightarrow> bool" where
  "startup_inv out s \<longleftrightarrow> barrier_inv 2 (meeting s, positions s) \<and>
     (positions s ! 1 \<noteq> Outside \<longrightarrow> phase_of s = Started) \<and>
     (case phase_of s of Starting \<Rightarrow> True | Started \<Rightarrow> (\<exists>c. out = Done Parent c)
      | Gone e \<Rightarrow> \<exists>t. out = Trapped t \<and> e = thread_outcome out)"

lemma two_positions: "barrier_inv 2 (b, ps) \<Longrightarrow> \<exists>p q. ps = [p, q]"
  by (auto simp: barrier_inv_def length_Suc_conv numeral_2_eq_2)

lemma startup_step_inv:
  assumes "startup_step nd out s s'" and "startup_inv out s"
  shows "startup_inv out s'"
  using assms(1)
proof cases
  case (Meet b ps)
  have "barrier_inv 2 (b, ps)" using barrier_step_inv [OF Meet(3)] assms(2) by (simp add: startup_inv_def)
  then show ?thesis using Meet assms(2) by (auto simp: startup_inv_def)
qed (use assms(2) in \<open>auto simp: startup_inv_def\<close>)

lemma startup_runs_inv: "startup_runs nd out startup_init s \<Longrightarrow> startup_inv out s"
proof (induction rule: rtranclp_induct)
  case base
  show ?case by (simp add: startup_inv_def startup_init_def barrier_inv_def barrier_new_def arrived_def)
next
  case (step s s')
  show ?case by (rule startup_step_inv [OF step(2,3)])
qed

lemma returned_all_arrived:
  assumes "startup_inv out s" and "handle_returned s"
  shows "phase_of s = Started \<and> (\<exists>c. out = Done Parent c)"
proof -
  have b: "barrier_inv 2 (meeting s, positions s)" using assms(1) by (simp add: startup_inv_def)
  then obtain p q where p: "positions s = [p, q]" using two_positions by blast
  then have "p = Through" using assms(2) by (simp add: handle_returned_def)
  with b p have "q \<noteq> Outside" by (auto simp: barrier_inv_def arrived_def split: if_splits)
  then have "phase_of s = Started" using assms(1) p by (simp add: startup_inv_def)
  then show ?thesis using assms(1) by (simp add: startup_inv_def)
qed

text \<open>A worker with its child keeps neither thread from going on.\<close>

lemma startup_goes_on:
  assumes inv: "startup_inv (Done Parent c) s" and "p \<in> set (positions s)" "p \<noteq> Through"
  shows "\<exists>s'. startup_step nd (Done Parent c) s s'"
proof (cases "phase_of s")
  case Starting
  then show ?thesis using startup_step.Child_ready [of s "Done Parent c" c nd] by auto
next
  case Started
  have b: "barrier_inv 2 (meeting s, positions s)" using inv by (simp add: startup_inv_def)
  then have "\<exists>c. barrier_step nd (meeting s, positions s) c" using assms(2,3) by (intro someone_steps [of 2 _ _ p]) simp_all
  then obtain b' ps where m: "barrier_step nd (meeting s, positions s) (b', ps)" by auto
  have "alive_process s" using Started by (simp add: alive_process_def)
  from startup_step.Meet [OF this m, of "Done Parent c"] Started show ?thesis by blast
next
  case (Gone e)
  then show ?thesis using inv by (simp add: startup_inv_def)
qed

text \<open>The run in which the worker comes first and sleeps until the other thread is through.\<close>

definition worker_asleep :: startup where
  "worker_asleep = \<lparr>meeting = \<lparr>count = 2, current = 1, epoch_now = 0\<rparr>,
     positions = [Outside, Asleep 0], phase_of = Started\<rparr>"

definition worker_late :: startup where
  "worker_late = \<lparr>meeting = \<lparr>count = 2, current = 2, epoch_now = 1\<rparr>,
     positions = [Through, Awake 0], phase_of = Started\<rparr>"

lemma first_sleeps:
  assumes "t < 2"
  shows "barrier_step nd (barrier_new 2, [Outside, Outside])
    (\<lparr>count = 2, current = 1, epoch_now = 0\<rparr>, [Outside, Outside][t := Asleep 0])"
  using barrier_step.Sleep [of t "[Outside, Outside]" nd "barrier_new 2" 0
      "\<lparr>count = 2, current = 1, epoch_now = 0\<rparr>"] assms
  by (auto simp: barrier_new_def barrier_arrive_def still_waits_def Let_def less_2_cases_iff)

lemma worker_late_runs: "startup_runs nd (Done Parent c) startup_init worker_late"
proof -
  let ?step = "startup_step nd (Done Parent c)"
  have "?step startup_init (startup_init\<lparr>phase_of := Started\<rparr>)"
    by (rule startup_step.Child_ready) (simp_all add: startup_init_def)
  moreover have "?step (startup_init\<lparr>phase_of := Started\<rparr>) worker_asleep"
    using startup_step.Meet [of "startup_init\<lparr>phase_of := Started\<rparr>" nd "\<lparr>count = 2, current = 1, epoch_now = 0\<rparr>"
        "[Outside, Asleep 0]" "Done Parent c"] first_sleeps [of 1 nd]
    by (simp add: startup_init_def worker_asleep_def alive_process_def)
  moreover have "barrier_step nd (meeting worker_asleep, positions worker_asleep)
      (meeting worker_late, positions worker_late)"
    using barrier_step.Last [of 0 "positions worker_asleep" nd "meeting worker_asleep" "meeting worker_late"]
    by (simp add: worker_asleep_def worker_late_def barrier_arrive_def Let_def)
  then have "?step worker_asleep worker_late"
    using startup_step.Meet [of worker_asleep nd "meeting worker_late" "positions worker_late" "Done Parent c"]
    by (simp add: worker_asleep_def worker_late_def alive_process_def)
  ultimately show ?thesis by (meson converse_rtranclp_into_rtranclp rtranclp.rtrancl_refl)
qed

section \<open>Properties\<close>


text \<open>C33: When the child is gone before its options are set, the error ESRCH is caught as a crashed
  child and the worker ends without arriving at the barrier: the thread that starts the machine
  never gets its handle, and it comes to sleep at the barrier for ever.\<close>

theorem startup_hangs_on_crash:
  assumes "fst (worker_start nd k fops opts fork m fs) = Trapped (System_error 3)"
  shows "(\<forall>s. startup_runs nd (fst (worker_start nd k fops opts fork m fs)) startup_init s \<longrightarrow> \<not> handle_returned s) \<and>
    (\<exists>s. startup_runs nd (fst (worker_start nd k fops opts fork m fs)) startup_init s \<and>
       phase_of s = Gone Child_crashed \<and> positions s = [Asleep 0, Outside])"
proof (intro conjI allI impI notI)
  fix s assume "startup_runs nd (fst (worker_start nd k fops opts fork m fs)) startup_init s" "handle_returned s"
  then show False using returned_all_arrived [OF startup_runs_inv] assms by force
next
  let ?b = "\<lparr>count = 2, current = 1, epoch_now = 0\<rparr>"
  let ?s1 = "startup_init\<lparr>phase_of := Gone Child_crashed\<rparr>"
  let ?s2 = "?s1\<lparr>meeting := ?b, positions := [Asleep 0, Outside]\<rparr>"
  have 1: "startup_step nd (Trapped (System_error 3)) startup_init ?s1"
    using startup_step.Worker_throws [of startup_init "Trapped (System_error 3)" "System_error 3" nd]
    by (simp add: startup_init_def thread_outcome_def)
  have 2: "startup_step nd (Trapped (System_error 3)) ?s1 ?s2"
    by (rule startup_step.Meet) (use first_sleeps [of 0 nd] in \<open>simp_all add: alive_process_def startup_init_def\<close>)
  have "startup_runs nd (Trapped (System_error 3)) startup_init ?s2"
    by (rule converse_rtranclp_into_rtranclp [of "startup_step nd (Trapped (System_error 3))", OF 1]) (rule r_into_rtranclp [of "startup_step nd (Trapped (System_error 3))", OF 2])
  moreover have "phase_of ?s2 = Gone Child_crashed" "positions ?s2 = [Asleep 0, Outside]" by simp_all
  ultimately show "\<exists>s. startup_runs nd (fst (worker_start nd k fops opts fork m fs)) startup_init s \<and>
       phase_of s = Gone Child_crashed \<and> positions s = [Asleep 0, Outside]"
    unfolding assms by blast
qed

section \<open>Witnesses\<close>

text \<open>A process that stops once, and that is still there, or gone, when its options are set.\<close>

definition stopped_ops :: "int + unit \<Rightarrow> unit tracer_ops" where
  "stopped_ops there =
     \<lparr>op_syscall = (\<lambda>p m. (Inr (), m)), op_wait = (\<lambda>p m. (Inr 0x57F, m)),
      op_getregs = (\<lambda>p m. (Inl 3, m)), op_setregs = (\<lambda>p r m. (Inl 3, m)),
      op_setoptions = (\<lambda>p opts m. (there, m)), op_info = (\<lambda>p m. (Inl 3, m)),
      op_peekuser = (\<lambda>p off m. 0), op_peekdata = (\<lambda>p a m. 0), op_pokedata = (\<lambda>p a w m. (0, m)),
      op_errno = (\<lambda>m. 0)\<rparr>"

definition opening_ops :: "unit file_ops" where
  "opening_ops = \<lparr>k_open = (\<lambda>n mode s. (Inr 5, s)), k_close = (\<lambda>fd s. s), k_lseek = (\<lambda>fd off s. (Inl 9, s)),
     k_read = (\<lambda>fd n s. (Inl 9, s)), k_pread = (\<lambda>fd off n s. (Inl 9, s)), k_pwrite = (\<lambda>fd off buf s. (Inl 9, s))\<rparr>"

definition true_options :: runner_options where
  "true_options = \<lparr>run_path = ''/bin/true'', run_args = [''/bin/true''], run_env = []\<rparr>"

lemma start_example:
  "fst (worker_start False (stopped_ops there) opening_ops true_options (Inr 7) () ()) =
   (case there of Inl e \<Rightarrow> Trapped (System_error e)
    | Inr u \<Rightarrow> Done Parent (\<lparr>pid = 7, state = Some (Stopped 5)\<rparr>, ()))"
  by (simp add: worker_start_def stopped_ops_def opening_ops_def true_options_def spawn_def proc_wait_def
      child_wait_def proc_mem_def set_options_def ptrace_child_def bind_act_def asserts_def file_valid_def child_valid_def
      wifcontinued_def wifstopped_def wexitstatus_def Let_def split: sum.split)


theorem startup_hangs_on_crash_witness:
  "\<not> (\<exists>s. startup_runs False (fst (worker_start False (stopped_ops (Inl 3)) opening_ops true_options (Inr 7) () ()))
      startup_init s \<and> handle_returned s)"
proof -
  have "fst (worker_start False (stopped_ops (Inl 3)) opening_ops true_options (Inr 7) () ()) = Trapped (System_error 3)"
    by (simp add: start_example)
  from startup_hangs_on_crash [OF this] show ?thesis by blast
qed

end
