(* ===== verification/Tracee.thy ===== *)
theory Tracee
  imports Tracer System
begin

text \<open>
  A traced process, as ptrace(2), signal(7) and waitpid(2) have it: its program sees the results
  of its calls, its memory and how often it was stopped by the way, and makes a call, is sent a
  signal, executes a program or ends. The kernel makes the calls the tracer lets through; a
  signal that stopped the process is dropped when it is resumed without it, which is how the
  tracer resumes. The theory interprets the locale of the tracer on it and states what the
  runner does to a guest.
\<close>

datatype phase = In_user | At_entry args | At_exit | Gone

datatype guest_action = Call u64 args | Signalled u32 | Executes | Ends u8 | Dies u32

type_synonym program = "u64 list \<Rightarrow> nat \<Rightarrow> flat \<Rightarrow> flat \<times> guest_action"

type_synonym host = "u64 \<Rightarrow> args \<Rightarrow> flat \<Rightarrow> u64 \<times> flat"

record tracee =
  memory :: flat
  regs :: user_regs
  phase :: phase
  results :: "u64 list"
  stops :: nat
  pending :: "wait_event option"

definition signal_number :: "u32 \<Rightarrow> u32" where
  "signal_number sig = (if 0 < sig \<and> sig < 65 then sig else 15)"

definition kernel_call :: "host \<Rightarrow> u64 \<Rightarrow> args \<Rightarrow> flat \<Rightarrow> u64 \<times> flat" where
  "kernel_call host nr a b = (if nr = 186 then (1000, b) else host nr a b)"

definition act :: "tracee \<Rightarrow> flat \<times> guest_action \<Rightarrow> wait_event \<times> tracee" where
  "act m = (\<lambda>(b', action).
     let m' = m\<lparr>memory := b'\<rparr>
     in case action of
          Call nr a \<Rightarrow> (Stop 0x85, m'\<lparr>regs := (regs m')\<lparr>orig_rax := nr, rax := - 38\<rparr>, phase := At_entry a\<rparr>)
        | Signalled sig \<Rightarrow> (Stop (signal_number sig), m'\<lparr>phase := In_user, stops := stops m' + 1\<rparr>)
        | Executes \<Rightarrow> (Event_stop 5 4, m'\<lparr>phase := In_user, stops := stops m' + 1\<rparr>)
        | Ends code \<Rightarrow> (Exit code, m'\<lparr>phase := Gone\<rparr>)
        | Dies sig \<Rightarrow> (Killed (signal_number sig) False, m'\<lparr>phase := Gone\<rparr>))"

definition tr_go :: "program \<Rightarrow> host \<Rightarrow> tracee \<Rightarrow> (wait_event \<times> tracee) option" where
  "tr_go prog host m0 =
     (let m = m0\<lparr>pending := None\<rparr>
      in case phase m of
           In_user \<Rightarrow> Some (act m (prog (results m) (stops m) (memory m)))
         | At_exit \<Rightarrow>
             (let m' = m\<lparr>results := results m @ [rax (regs m)]\<rparr>
              in Some (act m' (prog (results m') (stops m') (memory m'))))
         | At_entry a \<Rightarrow>
             (let (v, b') = kernel_call host (orig_rax (regs m)) a (memory m)
              in Some (Stop 0x85, m\<lparr>memory := b', regs := (regs m)\<lparr>rax := v\<rparr>, phase := At_exit\<rparr>))
         | Gone \<Rightarrow> None)"

definition tr_entered :: "tracee \<Rightarrow> (u64 \<times> args) option" where
  "tr_entered m = (case phase m of At_entry a \<Rightarrow> Some (orig_rax (regs m), a) | _ \<Rightarrow> None)"

definition tr_left :: "tracee \<Rightarrow> u64 option" where
  "tr_left m = (if phase m = At_exit then Some (rax (regs m)) else None)"

definition tr_with_regs :: "user_regs \<Rightarrow> tracee \<Rightarrow> tracee" where
  "tr_with_regs r m = m\<lparr>regs := r\<rparr>"

definition tr_finish :: "tracee \<Rightarrow> tracee" where
  "tr_finish m = m\<lparr>phase := At_exit, pending := None\<rparr>"

definition tr_answer :: "u64 \<Rightarrow> tracee \<Rightarrow> tracee" where
  "tr_answer v m = tr_with_regs ((regs m)\<lparr>orig_rax := v, rax := v\<rparr>) (tr_finish m)"

definition tr_stop :: "tracee \<Rightarrow> syscall_stop" where
  "tr_stop m = (case phase m of
     At_entry a \<Rightarrow> Entry (orig_rax (regs m)) a | At_exit \<Rightarrow> Exit_stop (rax (regs m)) False | _ \<Rightarrow> No_stop)"

text \<open>Words of memory as ptrace reads and writes them; the stack pointer is a register.\<close>

definition tracee_kernel :: "tracee ptrace_ops" where
  "tracee_kernel =
     \<lparr>peek = (\<lambda>p m. flat_peek p (memory m)), poke = (\<lambda>p w m. m\<lparr>memory := flat_poke p w (memory m)\<rparr>)\<rparr>"

definition stack_pointer_of :: "tracee \<Rightarrow> u64" where
  "stack_pointer_of m = (case other_regs (regs m) of [] \<Rightarrow> 0 | sp # _ \<Rightarrow> sp)"

definition tracee_ops :: "program \<Rightarrow> host \<Rightarrow> tracee tracer_ops" where
  "tracee_ops prog host =
     \<lparr>op_syscall = (\<lambda>p m. case tr_go prog host m of
         None \<Rightarrow> (Inl 3, m) | Some (ev, m') \<Rightarrow> (Inr (), m'\<lparr>pending := Some ev\<rparr>)),
      op_wait = (\<lambda>p m. case pending m of
         None \<Rightarrow> (Inl 10, m) | Some ev \<Rightarrow> (Inr (encode_status ev), m\<lparr>pending := None\<rparr>)),
      op_getregs = (\<lambda>p m. (Inr (regs m), m)),
      op_setregs = (\<lambda>p r m. (Inr (), tr_with_regs r m)),
      op_setoptions = (\<lambda>p opts m. (Inr (), m)),
      op_info = (\<lambda>p m. (Inr \<lparr>arch = 0xC000003E, instruction_pointer = 0, stack_pointer = stack_pointer_of m,
         stop = tr_stop m\<rparr>, m)),
      op_peekuser = (\<lambda>p off m. if off = 8 * 19 then stack_pointer_of m else 0),
      op_peekdata = (\<lambda>p a m. flat_peek a (memory m)),
      op_pokedata = (\<lambda>p a w m.
         (if word_mapped (memory m) a then 0 else - 1, m\<lparr>memory := flat_poke a w (memory m)\<rparr>)),
      op_errno = (\<lambda>m. 5)\<rparr>"

lemma signal_number_bounds: "0 < signal_number sig" "signal_number sig < 65"
  by (auto simp: signal_number_def)

lemma signal_number_less: "signal_number sig < 0x7F" "signal_number sig < 0x100" "signal_number sig \<noteq> 0x85"
  using less_trans [OF signal_number_bounds(2) [of sig], of "0x7F"]
    less_trans [OF signal_number_bounds(2) [of sig], of "0x100"] signal_number_bounds(2) [of sig]
  by auto

lemma act_event_ok: "act m x = (ev, m') \<Longrightarrow> event_ok ev \<and> pending m' = pending m"
  by (auto simp: act_def Let_def signal_number_bounds signal_number_less split: prod.splits guest_action.splits)

lemma tr_go_ok: "tr_go prog host m = Some (ev, m') \<Longrightarrow> event_ok ev \<and> pending m' = None"
  by (auto simp: tr_go_def Let_def split: phase.splits prod.splits dest!: act_event_ok)

interpretation guest: traced_process "tracee_ops prog host" tracee_kernel p tr_entered tr_left regs
  tr_with_regs "tr_go prog host" tr_finish
  for prog host p
proof unfold_locales
  fix m ev m' assume "tr_go prog host m = Some (ev, m')"
  with tr_go_ok [OF this] show "event_ok ev \<and>
    (\<exists>m1. op_syscall (tracee_ops prog host) p m = (Inr (), m1) \<and>
      op_wait (tracee_ops prog host) p m1 = (Inr (encode_status ev), m'))"
    by (intro conjI exI [of _ "m'\<lparr>pending := Some ev\<rparr>"])
      (simp_all add: tracee_ops_def del: encode_status.simps)
next
  fix m a assume "tr_entered m = Some (186, a)"
  then show "\<exists>r. tr_go prog host m = Some (Stop 0x85, tr_with_regs r (tr_finish m))"
    by (intro exI [of _ "(regs m)\<lparr>rax := 1000\<rparr>"])
      (auto simp: tr_entered_def tr_go_def kernel_call_def tr_with_regs_def tr_finish_def Let_def
        split: phase.splits)
qed (auto simp: tracee_ops_def tr_entered_def tr_left_def tr_with_regs_def tr_finish_def tr_stop_def
      tracee_kernel_def split: phase.splits if_splits)

lemma tr_go_answer:
  "tr_go prog host (tr_answer v m) =
     (let m' = (tr_answer v m)\<lparr>results := results m @ [v]\<rparr>
      in Some (act m' (prog (results m') (stops m') (memory m))))"
  by (cases m) (simp add: tr_answer_def tr_go_def tr_with_regs_def tr_finish_def Let_def)

section \<open>Properties of the runner\<close>

text \<open>How a guest is served, over the views of this process.\<close>

abbreviation guest_served ::
  "program \<Rightarrow> host \<Rightarrow> Hook_Table.hook option list \<Rightarrow> (nat \<Rightarrow> tracee env) \<Rightarrow> nat \<Rightarrow> nat \<Rightarrow>
   tracee sim \<Rightarrow> tracee sim \<Rightarrow> bool" where
  "guest_served prog host \<equiv> served (tr_go prog host) tr_entered tr_left tr_answer"


text \<open>C12: A call with a hook is answered by the hook: after one round the process is as the hook left
  it, stopped at the exit of its call, and goes on with the hook's value appended to the results
  it has seen; its call is not made.\<close>

theorem hooked_call_answered:
  assumes "tr_go prog host (mem (rep (r_sim r) i)) = Some (Stop 0x85, m1)"
    and "tr_entered m1 = Some (nr, a)" and "lookup tbl (unat nr) = Some h"
    and "run_hook h e i a (set_mem i m1 (r_sim r)) = Done (Handled v) s2"
    and "kernel e = tracee_kernel" and "0 \<le> pid (r_child r)" and "i < length (replicas (r_sim r))"
  shows "\<exists>r'. worker_round nd (tracee_ops prog host) tbl e i r = Done False r' \<and>
    r_sim r' = set_mem i (tr_answer v (mem (rep s2 i))) s2 \<and>
    tr_go prog host (mem (rep (r_sim r') i)) =
      (let m = mem (rep s2 i); m' = (tr_answer v m)\<lparr>results := results m @ [v]\<rparr>
       in Some (act m' (prog (results m') (stops m') (memory m))))"
proof -
  have "traces (pid (r_child r)) (r_child r)" using assms(6) by (simp add: traces_def)
  from guest.answered_round [OF this assms(7,1,2,3,4,5), of nd]
  show ?thesis by (auto simp: tr_go_answer Let_def tr_answer_def [symmetric])
qed


text \<open>Once a guest has ended, and its worker with it, killing it from outside ends the
  simulator: the handle's kill throws.\<close>

theorem kill_of_ended_guest_throws:
  assumes "guest_served prog host tbl es i 0 (r_sim r) s'" and "\<And>n. kernel (es n) = tracee_kernel"
    and "0 \<le> pid (r_child r)" and "i < length (replicas (r_sim r))"
  shows "\<exists>r'. ptrace_worker nd (tracee_ops prog host) tbl es i r = Done () r' \<and>
    handle_kill kill sig r' = Inl Invalid_argument"
proof -
  have "served (tr_go prog host) tr_entered tr_left
      (\<lambda>v m. tr_with_regs ((regs m)\<lparr>orig_rax := v, rax := v\<rparr>) (tr_finish m)) tbl es i 0 (r_sim r) s'"
    using assms(1) by (simp add: tr_answer_def [abs_def])
  from guest.worker_loop_serves [where p = "pid (r_child r)", OF this assms(2) _ refl assms(4), of nd]
  show ?thesis using assms(3,4)
    by (auto simp: traces_def ptrace_worker_def run_loop_def handle_kill_def child_terminate_def)
qed

section \<open>Attaching\<close>

lemma exec_status: "drop_bit 8 (encode_status (Event_stop 5 4)) = 0x405"
  by simp

lemma other_status:
  assumes "event_ok ev" and "\<And>sig event. ev \<noteq> Event_stop sig event"
  shows "drop_bit 8 (encode_status ev) \<noteq> 0x405"
proof
  assume "drop_bit 8 (encode_status ev) = 0x405"
  moreover have "bit (0x405 :: u32) 10" by simp
  ultimately have "bit (drop_bit 8 (encode_status ev)) 10" by (simp only:)
  then have b: "bit (encode_status ev) 18" by (simp add: bit_drop_bit_eq del: encode_status.simps)
  show False
  proof (cases ev)
    case (Exit code)
    with b show False by (auto simp: bit_simps dest: bit_imp_le_length)
  next
    case (Killed sig core)
    with assms(1) have "sig < 0x100" by (auto intro: less_trans [of sig "0x7F"])
    with b Killed show False by (auto simp: bit_simps split: if_splits dest: bit_less_256)
  next
    case (Stop sig)
    with assms(1) have "sig < 0x100" by simp
    with b Stop show False by (auto simp: bit_simps dest: bit_less_256)
  qed (use b assms(2) in simp_all)
qed

text \<open>The stops of a process before it executes its program.\<close>

inductive before_exec :: "program \<Rightarrow> host \<Rightarrow> tracee \<Rightarrow> tracee \<Rightarrow> bool" for prog host where
  Here: "before_exec prog host m m"
| Stops: "tr_go prog host m = Some (Stop sig, m1) \<Longrightarrow> before_exec prog host m1 m' \<Longrightarrow>
    before_exec prog host m m'"

lemma wait_until_execve_step:
  assumes "traces p c" and "tr_go prog host m = Some (ev, m')"
  shows "wait_until_execve nd (tracee_ops prog host) (c, m) =
    (if drop_bit 8 (encode_status ev) = 0x405
     then Some (Done () (snd (child_wait (Inr (encode_status ev)) c), m'))
     else wait_until_execve nd (tracee_ops prog host) (snd (child_wait (Inr (encode_status ev)) c), m'))"
  by (subst wait_until_execve.simps) (simp add: guest.resume_and_wait [OF assms])

lemma wait_until_execve_stops:
  assumes "before_exec prog host m m'" and "traces p c"
  shows "\<exists>c'. traces p c' \<and> wait_until_execve nd (tracee_ops prog host) (c, m) =
    wait_until_execve nd (tracee_ops prog host) (c', m')"
  using assms
proof (induction arbitrary: c rule: before_exec.induct)
  case (Here m)
  then show ?case by blast
next
  case (Stops m sig m1 m')
  have ok: "event_ok (Stop sig)" using tr_go_ok [OF Stops(1)] by simp
  have "drop_bit 8 (encode_status (Stop sig)) \<noteq> 0x405" using ok by (intro other_status) simp_all
  with wait_until_execve_step [OF Stops.prems Stops(1), of nd]
    guest.stopped_child [OF Stops.prems, of "Stop sig" sig] ok Stops.IH
  show ?case by (simp del: encode_status.simps event_ok.simps)
qed

text \<open>C31: The worker waits through every stop of the child before it executes its program and goes on
  exactly at the stop after the execution.\<close>

theorem execve_is_awaited:
  assumes "before_exec prog host m m1" and "tr_go prog host m1 = Some (Event_stop 5 4, m2)"
    and "0 \<le> pid c"
  shows "\<exists>c'. wait_until_execve nd (tracee_ops prog host) (c, m) = Some (Done () (c', m2)) \<and>
    pid c' = pid c \<and> state c' = Some (Stopped 5)"
proof -
  have "traces (pid c) c" using assms(3) by (simp add: traces_def)
  from wait_until_execve_stops [OF assms(1) this, of nd] obtain c' where c': "traces (pid c) c'"
    "wait_until_execve nd (tracee_ops prog host) (c, m) = wait_until_execve nd (tracee_ops prog host) (c', m1)"
    by blast
  have ok: "event_ok (Event_stop 5 4)" by simp
  show ?thesis
    using c' wait_until_execve_step [OF c'(1) assms(2), of nd] child_wait_status [OF ok, of c']
    unfolding exec_status by (simp add: traces_def del: encode_status.simps)
qed

text \<open>A child that ends before it executes its program ends the worker: its next request is on
  no process, so a debug build fails an assertion and the simulator with it, and a build with
  NDEBUG takes it for a crashed child.\<close>

theorem early_end_of_child:
  assumes "before_exec prog host m m1" and "tr_go prog host m1 = Some (ev, m2)"
    and "(\<exists>code. ev = Exit code) \<or> (\<exists>sig core. ev = Killed sig core)" and "0 \<le> pid c"
    and "phase m2 = Gone"
  shows "thread_outcome (run_loop (wait_until_execve nd (tracee_ops prog host) (c, m))) =
    (if nd then Child_crashed else Process_terminated Assert_failed)"
proof -
  have "traces (pid c) c" using assms(4) by (simp add: traces_def)
  from wait_until_execve_stops [OF assms(1) this, of nd] obtain c' where c': "traces (pid c) c'"
    "wait_until_execve nd (tracee_ops prog host) (c, m) = wait_until_execve nd (tracee_ops prog host) (c', m1)"
    by blast
  have ok: "event_ok ev" using tr_go_ok [OF assms(2)] by simp
  have "drop_bit 8 (encode_status ev) \<noteq> 0x405" using ok assms(3) by (intro other_status) auto
  with wait_until_execve_step [OF c'(1) assms(2), of nd]
  have "wait_until_execve nd (tracee_ops prog host) (c, m) =
      wait_until_execve nd (tracee_ops prog host) (snd (child_wait (Inr (encode_status ev)) c'), m2)"
    using c'(2) by simp
  moreover have "pid (snd (child_wait (Inr (encode_status ev)) c')) = - 1"
    using assms(3) child_wait_status [OF ok, of c'] by auto
  moreover have "op_syscall (tracee_ops prog host) (- 1) m2 = (Inl 3, m2)"
    using assms(5) by (simp add: tracee_ops_def tr_go_def)
  ultimately show ?thesis
    by (subst (asm) (2) wait_until_execve.simps)
      (simp add: bind_act_def ptrace_syscall_def ptrace_child_def child_valid_def run_loop_def
        thread_outcome_def asserts_def split: prod.splits)
qed

section \<open>Hiding the vdso\<close>

text \<open>The words that follow a position.\<close>

primrec words_after :: "flat \<Rightarrow> u64 \<Rightarrow> u64 list \<Rightarrow> bool" where
  "words_after b pos [] \<longleftrightarrow> True"
| "words_after b pos (w # ws) \<longleftrightarrow>
     word_mapped b (pos + 8) \<and> flat_peek (pos + 8) b = w \<and> 0 \<le> sint w \<and> words_after b (pos + 8) ws"

definition skip_words :: "u64 \<Rightarrow> 'a list \<Rightarrow> u64" where
  "skip_words pos ws = pos + 8 * of_nat (length ws)"

lemma words_after_append [simp]:
  "words_after b pos (ws @ vs) \<longleftrightarrow> words_after b pos ws \<and> words_after b (skip_words pos ws) vs"
  by (induction ws arbitrary: pos) (simp_all add: skip_words_def algebra_simps)

lemma skip_words_simps [simp]: "skip_words pos [] = pos" "skip_words pos (w # ws) = skip_words (pos + 8) ws"
  by (simp_all add: skip_words_def algebra_simps)

lemma peek_data_word:
  "flat_peek a (memory m) = w \<Longrightarrow> 0 \<le> sint w \<Longrightarrow> peek_data (tracee_ops prog host) a (c, m) = Done w (c, m)"
  by (simp add: peek_data_def child_ptrace_def tracee_ops_def)

lemma poke_data_word:
  "word_mapped (memory m) a \<Longrightarrow>
   poke_data (tracee_ops prog host) a w (c, m) = Done 0 (c, m\<lparr>memory := flat_poke a w (memory m)\<rparr>)"
  by (simp add: poke_data_def child_ptrace_def tracee_ops_def)

lemma skip_nulls_to_null:
  assumes "words_after (memory m) pos (ws @ [0])" and "0 \<notin> set ws" and "i < 2"
  shows "skip_nulls (tracee_ops prog host) i pos (c, m) =
    skip_nulls (tracee_ops prog host) (i + 1) (skip_words pos ws + 8) (c, m)"
  using assms
proof (induction ws arbitrary: pos)
  case Nil
  then show ?case by (subst skip_nulls.simps) (simp add: peek_data_word)
next
  case (Cons w ws)
  then show ?case by (subst skip_nulls.simps) (simp add: peek_data_word)
qed

lemma hide_sysinfo_finds:
  assumes "words_after (memory m) pos (pre @ [w])" and "0 \<notin> set pre" and "33 \<notin> set pre" and "w = 0 \<or> w = 33"
  shows "hide_sysinfo (tracee_ops prog host) pos (c, m) =
    Some (Done () (c, if w = 33 then m\<lparr>memory := flat_poke (skip_words pos pre + 8) 1 (memory m)\<rparr> else m))"
  using assms
proof (induction pre arbitrary: pos)
  case Nil
  then show ?case
    by (subst hide_sysinfo.simps)
      (auto simp: peek_data_word poke_data_word bind_Done)
next
  case (Cons v pre)
  then show ?case by (subst hide_sysinfo.simps) (simp add: peek_data_word)
qed


section \<open>A guest\<close>

text \<open>It is sent SIGTERM, asks for a socket of an unknown domain, asks the kernel for its id, ends.\<close>

definition example_program :: program where
  "example_program rs n b =
     (b, if n = 0 then Signalled 15
         else if rs = [] then Call 41 (99, 1, 0, 0, 0, 0)
         else if length rs = 1 then Call 39 (0, 0, 0, 0, 0, 0) else Ends 7)"

definition example_host :: host where
  "example_host nr a b = (4242, b)"

definition guest_state :: "phase \<Rightarrow> u64 \<Rightarrow> u64 \<Rightarrow> u64 list \<Rightarrow> nat \<Rightarrow> tracee" where
  "guest_state ph orig ax rs n = \<lparr>memory = Map.empty, regs = \<lparr>orig_rax = orig, rax = ax, other_regs = []\<rparr>,
     phase = ph, results = rs, stops = n, pending = None\<rparr>"

definition example_table :: "Hook_Table.hook option list" where
  "example_table = (case build_hook_table 0 of Inl _ \<Rightarrow> [] | Inr tbl \<Rightarrow> tbl)"

definition example_env :: "tracee env" where
  "example_env = \<lparr>kernel = tracee_kernel, bern = (\<lambda>p r. (False, r)), clock = 0, called_at = 0,
     stack = (\<lambda>_. 0), ndebug = False\<rparr>"

definition example_runner :: "tracee \<Rightarrow> tracee runner" where
  "example_runner m = \<lparr>r_child = \<lparr>pid = 12, state = Some (Stopped 5)\<rparr>, r_saved = None, r_stats = stats_init,
     r_sim = machine_start m 0 (sim_init (default_options 1))\<rparr>"

lemma example_lookup: "lookup example_table 41 = Some Sys_socket" "lookup example_table 39 = None"
proof -
  obtain tbl where b: "build_hook_table 0 = Inr tbl"
    by (simp add: build_hook_table_def max_sysno_def max_hooks_def hook_map_def implemented_hooks_def)
  then have "lookup example_table n = hook_for n" for n
    using build_hook_table_lookup [OF b] by (simp add: example_table_def)
  then show "lookup example_table 41 = Some Sys_socket" "lookup example_table 39 = None"
    by (simp_all add: hook_for_def hook_map_def implemented_hooks_def passthroughs_def)
qed

lemma example_runner_simps [simp]:
  "replicas (r_sim (example_runner m)) = [replica_new m 0]" "pid (r_child (example_runner m)) = 12"
  "mem (replica_new m 0) = m" "kernel example_env = tracee_kernel"
  by (simp_all add: example_runner_def machine_start_def sim_init_def replica_new_def example_env_def)

lemma example_go:
  "tr_go example_program example_host (guest_state In_user 0 0 [] 0) = Some (Stop 15, guest_state In_user 0 0 [] (Suc 0))"
  "tr_go example_program example_host (guest_state In_user 0 0 [] (Suc 0)) =
     Some (Stop 0x85, guest_state (At_entry (99, 1, 0, 0, 0, 0)) 41 (- 38) [] (Suc 0))"
  "tr_go example_program example_host (guest_state At_exit v v [] (Suc 0)) =
     Some (Stop 0x85, guest_state (At_entry (0, 0, 0, 0, 0, 0)) 39 (- 38) [v] (Suc 0))"
  "tr_go example_program example_host (guest_state (At_entry (0, 0, 0, 0, 0, 0)) 39 (- 38) [v] (Suc 0)) =
     Some (Stop 0x85, guest_state At_exit 39 4242 [v] (Suc 0))"
  "tr_go example_program example_host (guest_state At_exit 39 4242 [v] (Suc 0)) =
     Some (Exit 7, guest_state Gone 39 4242 [v, 4242] (Suc 0))"
  by (simp_all add: tr_go_def act_def example_program_def example_host_def kernel_call_def guest_state_def
      signal_number_def)

lemma example_views:
  "tr_entered (guest_state (At_entry a) nr ax rs n) = Some (nr, a)"
  "tr_left (guest_state At_exit nr ax rs n) = Some ax"
  "tr_answer v (guest_state (At_entry a) nr ax rs n) = guest_state At_exit v v rs n"
  by (simp_all add: tr_entered_def tr_left_def tr_answer_def tr_with_regs_def tr_finish_def guest_state_def)

lemma example_socket: "run_hook Sys_socket e i (99, 1, 0, 0, 0, 0) s = Done (Handled (- 22)) s"
  by (simp add: run_hook_def sys_socket_def socket_domain_def hook_error_def of_i64_def)

lemma mem_set_mem [simp]: "i < length (replicas s) \<Longrightarrow> mem (rep (set_mem i m s) i) = m"
  by simp

lemma set_mem_again [simp]: "set_mem i m (set_mem i m' s) = set_mem i m s"
  by simp

lemma example_served:
  assumes len: "0 < length (replicas s)" and "mem (rep s 0) = guest_state In_user 0 0 [] 0"
  shows "guest_served example_program example_host example_table (\<lambda>_. example_env) 0 0 s
    (set_mem 0 (guest_state Gone 39 4242 [- 22, 4242] 1) s)"
proof -
  define X1 where "X1 = guest_state In_user 0 0 [] (Suc 0)"
  define X2 where "X2 = guest_state (At_entry (99, 1, 0, 0, 0, 0)) 41 (- 38) [] (Suc 0)"
  define X3 where "X3 = guest_state At_exit (- 22) (- 22) [] (Suc 0)"
  define X4 where "X4 = guest_state (At_entry (0, 0, 0, 0, 0, 0)) 39 (- 38) [- 22] (Suc 0)"
  define X5 where "X5 = guest_state At_exit 39 4242 [- 22] (Suc 0)"
  define X6 where "X6 = guest_state Gone 39 4242 [- 22, 4242] (Suc 0)"
  let ?go = "tr_go example_program example_host"
  let ?S = "guest_served example_program example_host example_table (\<lambda>_. example_env) 0"
  have memory: "mem (rep (set_mem 0 x s) 0) = x" for x using len by simp
  have go: "?go (mem (rep (set_mem 0 X1 s) 0)) = Some (Stop 0x85, X2)"
    "?go (mem (rep (set_mem 0 X3 s) 0)) = Some (Stop 0x85, X4)"
    "?go (mem (rep (set_mem 0 X4 s) 0)) = Some (Stop 0x85, X5)"
    "?go (mem (rep (set_mem 0 X5 s) 0)) = Some (Exit 7, X6)"
    unfolding memory X1_def X2_def X3_def X4_def X5_def X6_def by (rule example_go)+
  have entered: "tr_entered X2 = Some (41, (99, 1, 0, 0, 0, 0))" "tr_entered X4 = Some (39, (0, 0, 0, 0, 0, 0))"
    "tr_left X5 \<noteq> None"
    by (simp_all add: X2_def X4_def X5_def example_views)
  have lookups: "lookup example_table (unat (41 :: u64)) = Some Sys_socket"
    "lookup example_table (unat (39 :: u64)) = None"
    by (simp_all add: example_lookup)
  have answer: "set_mem 0 (tr_answer (- 22) (mem (rep (set_mem 0 X2 s) 0))) (set_mem 0 X2 s) = set_mem 0 X3 s"
    unfolding memory by (simp add: X2_def X3_def example_views)
  have s4: "?S n (set_mem 0 X5 s) (set_mem 0 X6 s)" for n
    using served.Ended [where go = ?go and i = 0 and n = n, OF go(4)] by simp
  have s3: "?S n (set_mem 0 X3 s) (set_mem 0 X6 s)" for n
  proof (rule served.Passed [where ?m1.0 = X4 and ?m2.0 = X5 and ?s2.0 = "set_mem 0 X4 s"])
    show "case lookup example_table (unat (39 :: u64)) of None \<Rightarrow> set_mem 0 X4 s = set_mem 0 X4 (set_mem 0 X3 s)
        | Some h \<Rightarrow> run_hook h example_env 0 (0, 0, 0, 0, 0, 0) (set_mem 0 X4 (set_mem 0 X3 s)) =
            Done Passthrough (set_mem 0 X4 s)"
      using lookups(2) by simp
    show "?S (Suc (Suc n)) (set_mem 0 X5 (set_mem 0 X4 s)) (set_mem 0 X6 s)" using s4 by simp
  qed (rule go(2) entered(2) go(3) entered(3))+
  have s2: "?S n (set_mem 0 X1 s) (set_mem 0 X6 s)" for n
  proof (rule served.Answered [where ?m1.0 = X2 and h = Sys_socket and ?s2.0 = "set_mem 0 X2 s"])
    show "run_hook Sys_socket example_env 0 (99, 1, 0, 0, 0, 0) (set_mem 0 X2 (set_mem 0 X1 s)) =
        Done (Handled (- 22)) (set_mem 0 X2 s)"
      using example_socket by simp
    show "?S (Suc n) (set_mem 0 (tr_answer (- 22) (mem (rep (set_mem 0 X2 s) 0))) (set_mem 0 X2 s)) (set_mem 0 X6 s)"
      using s3 by (simp only: answer)
  qed (rule go(1) entered(1) lookups(1))+
  have "?go (mem (rep s 0)) = Some (Stop 15, X1)" unfolding assms(2) X1_def using example_go(1) by simp
  then have "?S 0 s (set_mem 0 X6 s)"
    by (rule served.Other) (use s2 in simp_all)
  then show ?thesis by (simp add: X6_def)
qed


theorem hooked_call_answered_witness:
  "\<exists>r'. worker_round False (tracee_ops example_program example_host) example_table example_env 0
     (example_runner (guest_state In_user 0 0 [] 1)) = Done False r' \<and>
     mem (rep (r_sim r') 0) = guest_state At_exit (- 22) (- 22) [] 1"
proof -
  let ?r = "example_runner (guest_state In_user 0 0 [] 1)"
  let ?m = "guest_state (At_entry (99, 1, 0, 0, 0, 0)) 41 (- 38) [] 1"
  have "tr_go example_program example_host (mem (rep (r_sim ?r) 0)) = Some (Stop 0x85, ?m)"
    by (simp add: example_go)
  from hooked_call_answered [OF this example_views(1), of example_table Sys_socket example_env "- 22"
      "set_mem 0 ?m (r_sim ?r)" False]
  show ?thesis by (auto simp: example_lookup example_socket example_views)
qed


theorem kill_of_ended_guest_throws_witness:
  "\<exists>r'. ptrace_worker False (tracee_ops example_program example_host) example_table (\<lambda>_. example_env) 0
     (example_runner (guest_state In_user 0 0 [] 0)) = Done () r' \<and>
     handle_kill (\<lambda>_ _. None) 15 r' = Inl Invalid_argument"
proof -
  let ?r = "example_runner (guest_state In_user 0 0 [] 0)"
  have "guest_served example_program example_host example_table (\<lambda>_. example_env) 0 0 (r_sim ?r)
      (set_mem 0 (guest_state Gone 39 4242 [- 22, 4242] 1) (r_sim ?r))"
    by (rule example_served) simp_all
  from kill_of_ended_guest_throws [OF this, of False "\<lambda>_ _. None" 15] show ?thesis by simp
qed

text \<open>A child that stops for SIGSTOP, then executes its program or fails to.\<close>

definition launch :: "bool \<Rightarrow> program" where
  "launch ok rs n b = (b, if n = 0 then Signalled 19 else if ok then Executes else Ends 1)"

lemma launch_before: "before_exec (launch ok) example_host (guest_state In_user 0 0 [] 0) (guest_state In_user 0 0 [] 1)"
  by (rule before_exec.Stops [OF _ before_exec.Here, of _ _ _ 19])
    (simp add: tr_go_def act_def launch_def guest_state_def signal_number_def)

theorem execve_is_awaited_witness:
  "\<exists>c'. wait_until_execve False (tracee_ops (launch True) example_host)
     (\<lparr>pid = 12, state = None\<rparr>, guest_state In_user 0 0 [] 0) = Some (Done () (c', guest_state In_user 0 0 [] 2))"
proof -
  have "tr_go (launch True) example_host (guest_state In_user 0 0 [] 1) = Some (Event_stop 5 4, guest_state In_user 0 0 [] 2)"
    by (simp add: tr_go_def act_def launch_def guest_state_def)
  from execve_is_awaited [OF launch_before this, of "\<lparr>pid = 12, state = None\<rparr>" False] show ?thesis by auto
qed

theorem early_end_of_child_witness:
  "thread_outcome (run_loop (wait_until_execve False (tracee_ops (launch False) example_host)
     (\<lparr>pid = 12, state = None\<rparr>, guest_state In_user 0 0 [] 0))) = Process_terminated Assert_failed"
proof -
  have "tr_go (launch False) example_host (guest_state In_user 0 0 [] 1) = Some (Exit 1, guest_state Gone 0 0 [] 1)"
    by (simp add: tr_go_def act_def launch_def guest_state_def)
  from early_end_of_child [OF launch_before this, of "\<lparr>pid = 12, state = None\<rparr>" False] show ?thesis
    by (simp add: guest_state_def)
qed

text \<open>A stack at 64: no argument, no environment, the vdso entry first in the vector.\<close>

definition example_stack :: tracee where
  "example_stack = (guest_state In_user 0 0 [] 0)\<lparr>
     memory := (\<lambda>a. Some (if a = 88 then 33 else 0)),
     regs := \<lparr>orig_rax = 0, rax = 0, other_regs = [64]\<rparr>\<rparr>"


end
