(* ===== verification/Config.thy ===== *)
theory Config
  imports Tracee
begin

text \<open>
  The program itself, src/main.cpp: the configuration it reads and the order in which it starts,
  awaits and kills its machines; and the timing of src/metrics.hpp and metrics.cpp. The parser
  toml++ is a library: a parsed document is a value of any type with the views the code takes of
  it, an argument of the definitions.
\<close>

section \<open>The configuration\<close>

record 'n toml_view =
  child_of :: "'n \<Rightarrow> string \<Rightarrow> 'n"
  int_value :: "'n \<Rightarrow> int option"     \<comment> \<open>\<^verbatim>\<open>value<int>\<close>\<close>
  u64_value :: "'n \<Rightarrow> u64 option"     \<comment> \<open>\<^verbatim>\<open>value<uint64_t>\<close>\<close>
  double_value :: "'n \<Rightarrow> rat option"
  bool_value :: "'n \<Rightarrow> bool option"
  string_node :: "'n \<Rightarrow> string option" \<comment> \<open>\<^verbatim>\<open>as_string\<close>\<close>
  array_node :: "'n \<Rightarrow> 'n list option" \<comment> \<open>\<^verbatim>\<open>as_array\<close>\<close>
  table_node :: "'n \<Rightarrow> 'n option"      \<comment> \<open>\<^verbatim>\<open>as_table\<close>\<close>

definition value_or :: "'a option \<Rightarrow> 'a \<Rightarrow> 'a" where
  "value_or v d = (case v of None \<Rightarrow> d | Some x \<Rightarrow> x)"

record config_replica =
  cfg_path :: string
  cfg_args :: "string list"
  cfg_env :: "(string \<times> string) list"
  prime :: bool

record parsed_config =
  cfg_options :: options
  cfg_replicas :: "config_replica list"

text \<open>An element that is no table makes the list empty; one without a path is dereferenced.\<close>

fun parse_elems :: "'n toml_view \<Rightarrow> 'n list \<Rightarrow> config_replica list \<Rightarrow> trap + config_replica list" where
  "parse_elems v [] result = Inr result"
| "parse_elems v (elem # rest) result =
     (case table_node v elem of
        None \<Rightarrow> Inr []
      | Some tbl \<Rightarrow>
         (case string_node v (child_of v tbl ''path'') of
            None \<Rightarrow> Inl Null_deref
          | Some p \<Rightarrow>
              parse_elems v rest (result @
                [\<lparr>cfg_path = p, cfg_args = [p], cfg_env = [],
                  prime = value_or (bool_value v (child_of v tbl ''prime'')) False\<rparr>])))"

definition parse_replicas :: "'n toml_view \<Rightarrow> 'n list option \<Rightarrow> trap + config_replica list" where
  "parse_replicas v arr = (case arr of None \<Rightarrow> Inr [] | Some elems \<Rightarrow> parse_elems v elems [])"

definition parse_config :: "'n toml_view \<Rightarrow> u64 \<Rightarrow> 'n \<Rightarrow> trap + parsed_config" where
  "parse_config v random_seed config =
     (let net = child_of v config ''net'';
          min_latency_ns = value_or (int_value v (child_of v net ''min_latency_ns'')) 0;
          max_latency_ns = value_or (int_value v (child_of v net ''max_latency_ns'')) 0;
          replay_chance = value_or (double_value v (child_of v net ''replay_chance'')) 0;
          drop_chance = value_or (double_value v (child_of v net ''drop_chance'')) 0
      in case parse_replicas v (array_node v (child_of v config ''replica'')) of
           Inl t \<Rightarrow> Inl t
         | Inr rs \<Rightarrow> Inr
             \<lparr>cfg_options =
                \<lparr>net_faults = \<lparr>min_latency = min_latency_ns, max_latency = max_latency_ns,
                   p_drop = drop_chance, p_replay = replay_chance\<rparr>,
                 time_scale = value_or (double_value v (child_of v (child_of v config ''time'') ''scale'')) 1,
                 seed = value_or (u64_value v (child_of v config ''seed'')) random_seed\<rparr>,
              cfg_replicas = rs\<rparr>)"

section \<open>The main program\<close>

text \<open>What main does to the machines, known by their positions.\<close>

datatype main_step = Start nat | Pause | Join nat | Kill nat

definition options_of :: "config_replica \<Rightarrow> runner_options" where
  "options_of r = \<lparr>run_path = cfg_path r, run_args = cfg_args r, run_env = []\<rparr>"

fun find_prime :: "nat \<Rightarrow> config_replica list \<Rightarrow> nat option \<Rightarrow> nat option" where
  "find_prime i [] p = p"
| "find_prime i (r # rs) p = find_prime (i + 1) rs (if prime r then Some i else p)"

text \<open>A kill that throws ends the program.\<close>

fun kill_others :: "(nat \<Rightarrow> trap + unit) \<Rightarrow> nat \<Rightarrow> nat list \<Rightarrow> main_step list \<Rightarrow> main_step list \<times> trap option" where
  "kill_others kill p [] steps = (steps, None)"
| "kill_others kill p (i # is) steps =
     (if i = p then kill_others kill p is steps
      else
       (case kill i of
          Inl t \<Rightarrow> (steps @ [Kill i], Some t)
        | Inr _ \<Rightarrow> kill_others kill p is (steps @ [Kill i])))"

text \<open>
  \<open>argc\<close> counts the program's name; \<open>config\<close> is the parsed configuration of the first argument
  and \<open>kill\<close> what the kill of a machine's runner does.
\<close>

definition main ::
  "nat \<Rightarrow> trap + parsed_config \<Rightarrow> (nat \<Rightarrow> trap + unit) \<Rightarrow> main_step list \<times> trap option" where
  "main argc config kill =
     (if argc < 2 then ([], None)
      else
       (case config of
          Inl t \<Rightarrow> ([], Some t)
        | Inr c \<Rightarrow>
           (let rs = cfg_replicas c; started = concat (map (\<lambda>i. [Start i, Pause]) [0..<length rs])
            in case find_prime 0 rs None of
                 None \<Rightarrow> (started @ map Join [0..<length rs], None)
               | Some p \<Rightarrow> kill_others kill p [0..<length rs] (started @ [Join p]))))"

section \<open>Timing\<close>

record metric =
  total_time :: u64
  sample_count :: u64

definition metric_init :: metric where
  "metric_init = \<lparr>total_time = 0, sample_count = 0\<rparr>"

record timed =
  timed_metric :: "nat option"
  timed_start :: int

definition metric_start :: "nat \<Rightarrow> int \<Rightarrow> timed" where
  "metric_start i now = \<lparr>timed_metric = Some i, timed_start = now\<rparr>"

definition add_sample :: "int \<Rightarrow> metric \<Rightarrow> metric" where
  "add_sample sample x =
     x\<lparr>total_time := total_time x + of_i64 sample, sample_count := sample_count x + 1\<rparr>"

text \<open>\<^verbatim>\<open>stop\<close> subtracts the end from the start.\<close>

definition timed_stop :: "int \<Rightarrow> timed \<Rightarrow> metric \<Rightarrow> timed \<times> metric" where
  "timed_stop now t x =
     (let sample = timed_start t - now
      in (t\<lparr>timed_metric := None\<rparr>, if timed_metric t \<noteq> None then add_sample sample x else x))"

definition average :: "metric \<Rightarrow> trap + int" where
  "average x =
     (if sample_count x = 0 then Inl Div_by_zero else Inr (to_i64 (total_time x div sample_count x)))"

definition metrics_dump :: "metric \<Rightarrow> metric \<Rightarrow> trap + (string \<times> int) list" where
  "metrics_dump s c =
     (case average s of
        Inl t \<Rightarrow> Inl t
      | Inr a \<Rightarrow>
         (case average c of
            Inl t \<Rightarrow> Inl t
          | Inr b \<Rightarrow> Inr [(''sys_socket: average '', a), (''sys_close: average '', b)]))"

section \<open>The replicas of a configuration\<close>

definition replica_elem :: "'n toml_view \<Rightarrow> 'n \<Rightarrow> bool" where
  "replica_elem v elem =
     (case table_node v elem of
        None \<Rightarrow> False | Some tbl \<Rightarrow> string_node v (child_of v tbl ''path'') \<noteq> None)"

definition replica_of_elem :: "'n toml_view \<Rightarrow> 'n \<Rightarrow> config_replica" where
  "replica_of_elem v elem =
     (let tbl = the (table_node v elem); p = the (string_node v (child_of v tbl ''path''))
      in \<lparr>cfg_path = p, cfg_args = [p], cfg_env = [],
          prime = value_or (bool_value v (child_of v tbl ''prime'')) False\<rparr>)"

lemma parse_elems_eq:
  "parse_elems v elems result =
     (case dropWhile (replica_elem v) elems of
        [] \<Rightarrow> Inr (result @ map (replica_of_elem v) elems)
      | elem # _ \<Rightarrow> if table_node v elem = None then Inr [] else Inl Null_deref)"
proof (induction elems arbitrary: result)
  case (Cons a elems)
  show ?case
  proof (cases "replica_elem v a")
    case True
    then have "parse_elems v (a # elems) result = parse_elems v elems (result @ [replica_of_elem v a])"
      by (auto simp: replica_elem_def replica_of_elem_def Let_def split: option.splits)
    then show ?thesis using True Cons.IH
      by (simp del: parse_elems.simps dropWhile_eq_Nil_conv split: list.split)
  next
    case False
    then show ?thesis by (simp add: replica_elem_def split: option.splits)
  qed
qed simp

lemma find_prime_eq:
  "find_prime i rs p =
     (case filter (\<lambda>j. prime (rs ! j)) [0..<length rs] of
        [] \<Rightarrow> p | js \<Rightarrow> Some (i + last js))"
proof (induction rs arbitrary: i p)
  case (Cons r rs)
  have "filter (\<lambda>j. prime ((r # rs) ! j)) [0..<length (r # rs)] =
      (if prime r then [0] else []) @ map Suc (filter (\<lambda>j. prime (rs ! j)) [0..<length rs])"
    by (simp add: upt_conv_Cons filter_map comp_def del: upt_Suc flip: map_Suc_upt)
  then show ?case using Cons.IH by (auto split: list.splits simp: last_map)
qed simp

lemma kill_others_eq:
  "kill_others kill p is steps =
     (let js = filter (\<lambda>i. i \<noteq> p) is; ok = takeWhile (\<lambda>i. kill i = Inr ()) js
      in case dropWhile (\<lambda>i. kill i = Inr ()) js of
           [] \<Rightarrow> (steps @ map Kill js, None)
         | i # _ \<Rightarrow> (steps @ map Kill ok @ [Kill i], Some (projl (kill i))))"
proof (induction "is" arbitrary: steps)
  case (Cons a "is")
  show ?case
  proof (cases "a = p \<or> kill a = Inr ()")
    case True
    then show ?thesis using Cons.IH
      by (auto simp: Let_def simp del: dropWhile_eq_Nil_conv split: list.split)
  next
    case False
    then obtain t where "kill a = Inl t" by (metis old.sum.exhaust old.unit.exhaust)
    with False show ?thesis by simp
  qed
qed simp

section \<open>Properties\<close>

text \<open>The replicas of a configuration are those of its elements, in order, when all are tables
  with a path; the first that is not decides otherwise: no table makes the whole list empty,
  a table without a path is an access through a null pointer.\<close>

theorem replicas_of_config:
  "parse_replicas v (Some elems) =
     (case dropWhile (replica_elem v) elems of
        [] \<Rightarrow> Inr (map (replica_of_elem v) elems)
      | elem # _ \<Rightarrow> if table_node v elem = None then Inr [] else Inl Null_deref)"
  by (simp add: parse_replicas_def parse_elems_eq del: dropWhile_eq_Nil_conv split: list.split)

text \<open>A replica that comes out of a configuration passes the argument check of its runner, which
  forks and waits; but its arguments are the path alone, and no environment.\<close>

theorem configured_replica_spawns:
  assumes "parse_replicas v arr = Inr rs" and "r \<in> set rs" and "0 < p"
  shows "spawn k (options_of r) (Inr p) m =
      bind_act (proc_wait k) (\<lambda>_. Done Parent) (\<lparr>pid = p, state = Some Running\<rparr>, m) \<and>
    spawn k (options_of r) (Inr 0) m = Done (Becomes (cfg_path r) [cfg_path r]) (child_init, m)"
proof -
  have "cfg_args r = [cfg_path r]"
    using assms(1,2)
    by (auto simp: parse_replicas_def parse_elems_eq replica_of_elem_def Let_def
        split: option.splits list.splits if_splits)
  then show ?thesis using assms(3) by (simp add: spawn_def options_of_def)
qed


text \<open>Calls timed one after another, all started at time 0.\<close>

definition after_durations :: "int list \<Rightarrow> metric" where
  "after_durations ds = foldl (\<lambda>x d. snd (timed_stop d (metric_start 0 0) x)) metric_init ds"

lemma after_durations_eq:
  "total_time (after_durations ds) = of_i64 (- sum_list ds) \<and>
   sample_count (after_durations ds) = of_nat (length ds)"
proof -
  have "foldl (\<lambda>x d. snd (timed_stop d (metric_start 0 0) x)) x ds =
      \<lparr>total_time = total_time x + of_i64 (- sum_list ds),
       sample_count = sample_count x + of_nat (length ds)\<rparr>" for x
    by (induction ds arbitrary: x)
      (simp_all add: timed_stop_def metric_start_def add_sample_def of_i64_def)
  then show ?thesis by (simp add: after_durations_def metric_init_def)
qed

text \<open>The average of a metric is not the mean of its durations: each is added with the wrong
  sign, and the sum is divided as an unsigned number, so the average of one duration is its
  negative and that of more the huge positive number here.\<close>

theorem average_of_durations:
  assumes "0 < length ds" and "length ds < 2 ^ 63" and "0 < sum_list ds" and "sum_list ds < 2 ^ 63"
  shows "average (after_durations ds) =
    Inr (if length ds = 1 then - sum_list ds else (2 ^ 64 - sum_list ds) div int (length ds))"
proof -
  let ?n = "length ds" and ?s = "sum_list ds"
  have n: "unat (of_nat ?n :: u64) = ?n"
    using assms(2) by (simp add: unat_of_nat take_bit_nat_eq_self)
  then have nz: "(of_nat ?n :: u64) \<noteq> 0" using assms(1) by (metis less_numeral_extra(3) unat_0)
  have avg: "average (after_durations ds) = Inr (to_i64 (of_i64 (- ?s) div of_nat ?n))"
    using nz by (simp add: average_def after_durations_eq)
  show ?thesis
  proof (cases "?n = 1")
    case True
    then show ?thesis using avg assms(3,4) by (simp add: to_i64_of_i64)
  next
    case False
    have "uint (word_of_int x :: u64) = x mod 2 ^ 64" for x by (simp add: uint_word_of_int)
    then have "uint (of_i64 (- ?s)) = (- ?s) mod 2 ^ 64" by (simp only: of_i64_def)
    also have "\<dots> = 2 ^ 64 - ?s" using assms(3,4) by (simp add: zmod_zminus1_eq_if)
    finally have s: "uint (of_i64 (- ?s)) = 2 ^ 64 - ?s" .
    have un: "uint (of_nat ?n :: u64) = int ?n" using n by (metis uint_nat)
    have q: "uint (of_i64 (- ?s) div of_nat ?n) = (2 ^ 64 - ?s) div int ?n"
      by (simp only: uint_div_distrib s un)
    have "(2 ^ 64 - ?s) div int ?n < 2 ^ 63"
    proof -
      have "2 \<le> int ?n" using False assms(1) by linarith
      then have "2 ^ 63 * 2 \<le> 2 ^ 63 * int ?n" by (intro mult_left_mono) simp_all
      then have "2 ^ 64 - ?s < 2 ^ 63 * int ?n" using assms(3) by simp
      moreover have "(2 ^ 64 - ?s) div int ?n * int ?n \<le> 2 ^ 64 - ?s"
        using assms(1) by (subst minus_mod_eq_div_mult [symmetric]) simp
      ultimately have "(2 ^ 64 - ?s) div int ?n * int ?n < 2 ^ 63 * int ?n"
        by (simp only: le_less_trans)
      then show ?thesis by (simp add: mult_less_cancel_right)
    qed
    then have "uint (of_i64 (- ?s) div of_nat ?n) < 2 ^ 63" by (simp only: q)
    then have small: "unat (of_i64 (- ?s) div of_nat ?n) < 2 ^ 63"
      unfolding unat_eq_nat_uint by (subst nat_less_iff) (rule uint_ge_0, simp only: of_nat_power of_nat_numeral)
    have "to_i64 (of_i64 (- ?s) div of_nat ?n) = (2 ^ 64 - ?s) div int ?n"
      unfolding to_i64_def sint_unat [OF small] by (simp only: uint_nat [symmetric] q)
    with avg False show ?thesis by simp
  qed
qed

theorem average_of_durations_witness:
  "average (after_durations [100, 300]) = Inr 9223372036854775608"
  using average_of_durations [of "[100, 300]"] by simp

text \<open>A document as a tree, with the views the documentation of toml++ gives.\<close>

datatype toml = Missing | Tbl "(string \<times> toml) list" | Arr "toml list" | Num int | Flo rat | Bln bool | Str string

definition tree_view :: "toml toml_view" where
  "tree_view =
     \<lparr>child_of = (\<lambda>n key. case n of Tbl kvs \<Rightarrow> value_or (map_of kvs key) Missing | _ \<Rightarrow> Missing),
      int_value = (\<lambda>n. case n of Num i \<Rightarrow> if - (2 ^ 31) \<le> i \<and> i < 2 ^ 31 then Some i else None | _ \<Rightarrow> None),
      u64_value = (\<lambda>n. case n of Num i \<Rightarrow> if 0 \<le> i then Some (word_of_int i) else None | _ \<Rightarrow> None),
      double_value = (\<lambda>n. case n of Flo x \<Rightarrow> Some x | Num i \<Rightarrow> Some (of_int i) | _ \<Rightarrow> None),
      bool_value = (\<lambda>n. case n of Bln b \<Rightarrow> Some b | _ \<Rightarrow> None),
      string_node = (\<lambda>n. case n of Str x \<Rightarrow> Some x | _ \<Rightarrow> None),
      array_node = (\<lambda>n. case n of Arr xs \<Rightarrow> Some xs | _ \<Rightarrow> None),
      table_node = (\<lambda>n. case n of Tbl kvs \<Rightarrow> Some n | _ \<Rightarrow> None)\<rparr>"

lemma tree_view_example:
  "parse_replicas tree_view (Some [Tbl [(''path'', Str ''./echo''), (''args'', Arr [Str ''-v'']), (''prime'', Bln True)]]) =
     Inr [\<lparr>cfg_path = ''./echo'', cfg_args = [''./echo''], cfg_env = [], prime = True\<rparr>]"
  by (simp add: parse_replicas_def tree_view_def value_or_def)

theorem configured_replica_spawns_witness:
  "spawn (tracee_ops example_program example_host)
     (options_of \<lparr>cfg_path = ''./echo'', cfg_args = [''./echo''], cfg_env = [], prime = True\<rparr>) (Inr 0) (guest_state In_user 0 0 [] 0) =
     Done (Becomes ''./echo'' [''./echo'']) (child_init, guest_state In_user 0 0 [] 0)"
  using configured_replica_spawns [OF tree_view_example, of _ 1 "tracee_ops example_program example_host"
      "guest_state In_user 0 0 [] 0"]
  by simp

text \<open>A latency beyond the range of an int, a little over two seconds, is not the value the
  document gives but 0, since the default's type, int, is the type that is asked for.\<close>

theorem large_latency_ignored:
  assumes "2 ^ 31 \<le> ns"
  shows "(case parse_config tree_view sd (Tbl [(''net'', Tbl [(''max_latency_ns'', Num ns)])]) of
      Inl t \<Rightarrow> False | Inr c \<Rightarrow> cfg_options c = default_options sd)"
  using assms
  by (simp add: parse_config_def parse_replicas_def tree_view_def value_or_def default_options_def
      default_faults_def)

theorem large_latency_ignored_witness:
  "(case parse_config tree_view 7 (Tbl [(''net'', Tbl [(''max_latency_ns'', Num 3000000000)])]) of
      Inl t \<Rightarrow> False | Inr c \<Rightarrow> cfg_options c = default_options 7)"
  using large_latency_ignored [of 3000000000 7] by simp

end
