(* ===== verification/Guests.thy ===== *)
theory Guests
  imports Config
begin

text \<open>
  The programs that come with the simulator to be run under it: the demo pair of demo/, in which
  squawk sends numbered messages to echo, and the benchmarks of benches/. Their system calls are
  arguments, or the hooks of the simulation where a property is about the two together.
\<close>

section \<open>The demo\<close>

definition demo_path :: string where
  "demo_path = ''echo-file''"

definition demo_iters :: nat where
  "demo_iters = 512"

text \<open>The address: the family AF\_UNIX, and the path padded with zeros to 108 bytes by \<^verbatim>\<open>strncpy\<close>.\<close>

definition get_addr :: bytes where
  "get_addr = [1, 0] @ map of_char demo_path @ replicate (108 - length demo_path) 0"

text \<open>A negative result is an exception with errno.\<close>

definition check_return_value :: "int \<Rightarrow> int \<Rightarrow> trap option" where
  "check_return_value errno v = (if v < 0 then Some (System_error errno) else None)"

definition squawk_msg :: "nat \<Rightarrow> string" where
  "squawk_msg i = ''hello from message '' @ format_int (int i) @ ''!''"

text \<open>squawk sends until a send fails or sends nothing; \<open>send\<close> answers the \<open>i\<close>-th one.\<close>

partial_function (option) squawk_loop :: "(nat \<Rightarrow> int) \<Rightarrow> nat \<Rightarrow> string list \<Rightarrow> string list option" where
  "squawk_loop send i sent =
     (if send i < 0 then Some (sent @ [squawk_msg i])
      else if send i = 0 then Some (sent @ [squawk_msg i])
      else squawk_loop send (i + 1) (sent @ [squawk_msg i]))"

definition squawk :: "int \<Rightarrow> int \<Rightarrow> (nat \<Rightarrow> int) \<Rightarrow> trap + string list option" where
  "squawk errno s send =
     (case check_return_value errno s of Some t \<Rightarrow> Inl t | None \<Rightarrow> Inr (squawk_loop send 0 []))"

definition c_str :: "string \<Rightarrow> string" where
  "c_str s = takeWhile (\<lambda>c. c \<noteq> CHR 0x00) s"

definition echo_line :: "string \<Rightarrow> string" where
  "echo_line buf = ''received datagram: '' @ [CHR 0x27] @ c_str buf @ [CHR 0x27]"

text \<open>
  \<open>recv\<close> answers the \<open>i\<close>-th receive with its result and the bytes it stored; \<open>n\<close> rounds are left.
\<close>

fun echo_loop :: "(nat \<Rightarrow> int \<times> string) \<Rightarrow> int \<Rightarrow> nat \<Rightarrow> nat \<Rightarrow> string list \<Rightarrow> trap option \<times> string list" where
  "echo_loop recv errno i 0 out = (None, out)"
| "echo_loop recv errno i (Suc n) out =
     (let (ret, data) = recv i
      in case check_return_value errno ret of
           Some t \<Rightarrow> (Some t, out)
         | None \<Rightarrow>
            (let buf = take (nat ret) data; out' = out @ [echo_line buf]
             in if buf = ''done'' then (None, out') else echo_loop recv errno (i + 1) n out'))"

definition echo :: "int \<Rightarrow> int \<Rightarrow> int \<Rightarrow> (nat \<Rightarrow> int \<times> string) \<Rightarrow> trap option \<times> string list" where
  "echo errno s rc recv =
     (case check_return_value errno s of
        Some t \<Rightarrow> (Some t, [])
      | None \<Rightarrow>
         (case check_return_value errno rc of
            Some t \<Rightarrow> (Some t, [])
          | None \<Rightarrow> echo_loop recv errno 0 demo_iters []))"

lemma decimal_chars: "c \<in> set (decimal n) \<Longrightarrow> 48 \<le> (of_char c :: nat) \<and> (of_char c :: nat) < 58"
proof (induction n rule: decimal.induct)
  case (1 n)
  show ?case
  proof (cases "n < 10")
    case True
    then have "c = char_of (48 + n)" using "1.prems" by (subst (asm) decimal.simps) simp
    then show ?thesis using True by simp
  next
    case False
    then have "c \<in> set (decimal (n div 10)) \<or> c = char_of (48 + n mod 10)"
      using "1.prems" by (subst (asm) decimal.simps) auto
    then show ?thesis
    proof
      assume "c = char_of (48 + n mod 10)"
      then have "(of_char c :: nat) = (48 + n mod 10) mod 256" by (simp only: of_char_of)
      moreover have "n mod 10 < 10" by simp
      ultimately show ?thesis by simp
    qed (use "1.IH" False in simp)
  qed
qed

lemma c_str_squawk: "c_str (squawk_msg i) = squawk_msg i"
proof -
  have "CHR 0x00 \<notin> set (decimal i)" using decimal_chars [of "CHR 0x00" i] by auto
  then have "\<forall>c \<in> set (squawk_msg i). c \<noteq> CHR 0x00" by (auto simp: squawk_msg_def format_int_def)
  then show ?thesis unfolding c_str_def takeWhile_eq_all_conv .
qed

lemma squawk_not_done: "squawk_msg i \<noteq> ''done''"
  by (simp add: squawk_msg_def)

lemma echo_loop_squawk:
  "echo_loop (\<lambda>i. (int (length (squawk_msg i)), squawk_msg i)) errno i n out =
     (None, out @ map (\<lambda>j. echo_line (squawk_msg j)) [i..<i + n])"
proof (induction n arbitrary: i out)
  case (Suc n)
  have "[i..<i + Suc n] = i # [Suc i..<Suc i + n]" by (simp add: upt_rec)
  then show ?case using Suc.IH [of "Suc i"] by (simp add: check_return_value_def squawk_not_done Let_def)
qed simp

lemma squawk_loop_sends:
  assumes "\<And>j. i \<le> j \<Longrightarrow> j < i + k \<Longrightarrow> 0 < send j" and "send (i + k) \<le> 0"
  shows "squawk_loop send i sent = Some (sent @ map squawk_msg [i..<Suc (i + k)])"
  using assms
proof (induction k arbitrary: i sent)
  case 0
  then show ?case by (subst squawk_loop.simps) auto
next
  case (Suc k)
  have "squawk_loop send (Suc i) (sent @ [squawk_msg i]) =
      Some ((sent @ [squawk_msg i]) @ map squawk_msg [Suc i..<Suc (Suc i + k)])"
    using Suc.prems by (intro Suc.IH) simp_all
  moreover have "[i..<Suc (i + Suc k)] = i # [Suc i..<Suc (Suc i + k)]" by (subst upt_rec) simp
  moreover have "0 < send i" using Suc.prems(1) [of i] by simp
  ultimately show ?case by (subst squawk_loop.simps) simp
qed

section \<open>The benchmarks\<close>

text \<open>benches/fib.cpp: \<open>iters\<close> additions on 64-bit words.\<close>

fun fib_loop :: "nat \<Rightarrow> u64 \<Rightarrow> u64 \<Rightarrow> u64 \<times> u64" where
  "fib_loop 0 a b = (a, b)"
| "fib_loop (Suc n) a b = (let c = a + b in fib_loop n b c)"

definition fib_iters :: nat where
  "fib_iters = 5000000000"

definition fib_main :: u64 where
  "fib_main = snd (fib_loop fib_iters 1 1)"

fun fib :: "nat \<Rightarrow> nat" where
  "fib 0 = 0"
| "fib (Suc 0) = 1"
| "fib (Suc (Suc n)) = fib (Suc n) + fib n"

lemma fib_loop_fib: "fib_loop n (of_nat (fib k)) (of_nat (fib (Suc k))) =
    (of_nat (fib (n + k)), of_nat (fib (Suc (n + k))))"
proof (induction n arbitrary: k)
  case (Suc n)
  have "of_nat (fib k) + of_nat (fib (Suc k)) = (of_nat (fib (Suc (Suc k))) :: u64)" by simp
  then show ?case using Suc.IH [of "Suc k"] by (simp only: fib_loop.simps Let_def) simp
qed simp

text \<open>benches/socket.cpp under the simulator: a socket is made and closed \<open>n\<close> times. The C library
  turns an error result into -1.\<close>

definition libc_result :: "u64 \<Rightarrow> int" where
  "libc_result v = (let r = to_i64 v in if - 4096 < r \<and> r < 0 then - 1 else r)"

fun socket_bench :: "nat \<Rightarrow> (nat \<Rightarrow> 'm env) \<Rightarrow> nat \<Rightarrow> 'm sim \<Rightarrow> 'm sim option" where
  "socket_bench 0 es i s = Some s"
| "socket_bench (Suc n) es i s =
     (case run_hook Sys_socket (es n) i (2, 2, 0, 0, 0, 0) s of
        Done (Handled v) s1 \<Rightarrow>
          (case run_hook Sys_close (es n) i (of_i64 (libc_result v), 0, 0, 0, 0, 0) s1 of
             Done (Handled _) s2 \<Rightarrow> socket_bench n es i s2
           | _ \<Rightarrow> None)
      | _ \<Rightarrow> None)"

definition fresh_or_reused :: "'o fd_table \<Rightarrow> bool" where
  "fresh_or_reused t \<longleftrightarrow> table t = fmempty \<and> (unused t = [] \<or> unused t = [simulated])"

text \<open>
  benches/dgram.cpp: thread 1 binds and receives, thread 2 waits for it and sends once. With
  NDEBUG the call in \<^verbatim>\<open>assert(0 > bind(...))\<close> is not made.
\<close>

datatype receiver_pos = R_bind | R_recv | R_check | R_done | R_aborted
datatype sender_pos = S_wait | S_send | S_decrement | S_check | S_done

record dgram_bench =
  ready :: bool
  remain :: int
  bound :: bool
  queued :: nat
  receiver :: receiver_pos
  sender :: sender_pos

definition dgram_init :: dgram_bench where
  "dgram_init = \<lparr>ready = False, remain = 1, bound = False, queued = 0, receiver = R_bind, sender = S_wait\<rparr>"

inductive dgram_step :: "bool \<Rightarrow> dgram_bench \<Rightarrow> dgram_bench \<Rightarrow> bool" for nd where
  Skip_bind: "nd \<Longrightarrow> receiver b = R_bind \<Longrightarrow> dgram_step nd b (b\<lparr>ready := True, receiver := R_recv\<rparr>)"
| Bind_ok: "\<not> nd \<Longrightarrow> receiver b = R_bind \<Longrightarrow> dgram_step nd b (b\<lparr>bound := True, receiver := R_aborted\<rparr>)"
| Bind_fails: "\<not> nd \<Longrightarrow> receiver b = R_bind \<Longrightarrow> dgram_step nd b (b\<lparr>ready := True, receiver := R_recv\<rparr>)"
| Receive: "receiver b = R_recv \<Longrightarrow> 0 < queued b \<Longrightarrow>
    dgram_step nd b (b\<lparr>queued := queued b - 1, receiver := R_check\<rparr>)"
| Receiver_check: "receiver b = R_check \<Longrightarrow>
    dgram_step nd b (b\<lparr>receiver := (if remain b = 0 then R_done else R_recv)\<rparr>)"
| Sender_ready: "sender b = S_wait \<Longrightarrow> ready b \<Longrightarrow> dgram_step nd b (b\<lparr>sender := S_send\<rparr>)"
| Send: "sender b = S_send \<Longrightarrow>
    dgram_step nd b (b\<lparr>queued := queued b + (if bound b then 1 else 0), sender := S_decrement\<rparr>)"
| Decrement: "sender b = S_decrement \<Longrightarrow> dgram_step nd b (b\<lparr>remain := remain b - 1, sender := S_check\<rparr>)"
| Sender_check: "sender b = S_check \<Longrightarrow>
    dgram_step nd b (b\<lparr>sender := (if remain b = 0 then S_done else S_send)\<rparr>)"

lemma socket_round:
  assumes "i < length (replicas s)" and "fresh_or_reused (fds (rep s i))"
  shows "\<exists>s1 s2. run_hook Sys_socket e i (2, 2, 0, 0, 0, 0) s = Done (Handled (of_i64 (sint simulated))) s1 \<and>
    run_hook Sys_close e i (of_i64 (libc_result (of_i64 (sint simulated))), 0, 0, 0, 0, 0) s1 =
      Done (Handled 0) s2 \<and>
    fresh_or_reused (fds (rep s2 i)) \<and> length (replicas s2) = length (replicas s) \<and>
    next_object s2 = Suc (next_object s)"
proof -
  obtain x s1 where mk: "make_socket Ipv4 2 s = Some (x, s1)" "next_object s1 = Suc (next_object s)"
    by (auto simp: make_socket_def new_object_def datagram_socket_new_def case_prod_beta Let_def)
  note ms = make_socket_simps [OF mk(1)]
  have sim: "sint simulated = 2 ^ 30" "as_int (of_i64 (2 ^ 30)) = simulated" "is_simulated simulated"
    using sint_fd_of [of 0] by (simp_all add: fd_of_def simulated_def of_i64_def is_simulated_def)
  have lib: "libc_result (of_i64 (2 ^ 30)) = 2 ^ 30"
  proof -
    have "to_i64 (of_i64 (2 ^ 30)) = 2 ^ 30" by (rule to_i64_of_i64) simp_all
    then show ?thesis by (simp add: libc_result_def Let_def)
  qed
  let ?t = "\<lparr>table = fmupd simulated (Some x) fmempty, unused = []\<rparr>"
  have ins: "fd_insert (ndebug e) x (fds (rep s i)) = Inr (simulated, ?t)"
  proof -
    have f: "table (fds (rep s i)) = fmempty" "unused (fds (rep s i)) = [] \<or> unused (fds (rep s i)) = [simulated]"
      using assms(2) by (simp_all add: fresh_or_reused_def)
    have alloc: "fd_alloc (ndebug e) (fds (rep s i)) = Inr (Some (simulated, \<lparr>table = fmempty, unused = []\<rparr>))"
      using f(2)
    proof
      assume u: "unused (fds (rep s i)) = []"
      then have "fds (rep s i) = \<lparr>table = fmempty, unused = []\<rparr>" using f(1) by simp
      then show ?thesis
        using not_simulated_small [of 0] by (simp add: fd_alloc_def table_size_def capacity_def fcard_fempty Let_def)
    next
      assume "unused (fds (rep s i)) = [simulated]"
      then show ?thesis using f(1) by (simp add: fd_alloc_def)
    qed
    show ?thesis unfolding fd_insert_def alloc using sim by (simp add: Let_def)
  qed
  let ?t2 = "\<lparr>table = fmempty, unused = [simulated]\<rparr>"
  have cl: "fd_close (ndebug e) simulated ?t = Inr (0, ?t2)"
  proof -
    have "fmdrop simulated (fmupd simulated (Some x) fmempty) = fmempty" by (rule fmap_ext) simp
    then show ?thesis using sim by (simp add: fd_close_def asserts_def)
  qed
  have "run_hook Sys_socket e i (2, 2, 0, 0, 0, 0) s = Done (Handled (of_i64 (sint simulated))) (set_fds i ?t s1)"
    using mk(1) ins ms(1) sim by (simp add: run_hook_def sys_socket_def socket_domain_def handled_def)
  moreover have "run_hook Sys_close e i (of_i64 (libc_result (of_i64 (sint simulated))), 0, 0, 0, 0, 0) (set_fds i ?t s1) =
      Done (Handled 0) (set_fds i ?t2 (set_fds i ?t s1))"
    unfolding sim(1) lib run_hook_def sys_close_def
    using assms(1) ms(1) cl sim by (simp add: handled_def of_i64_def [of 0])
  ultimately show ?thesis
    using assms(1) ms(1) mk(2) by (auto simp: fresh_or_reused_def)
qed

lemma dgram_never_bound:
  assumes "(dgram_step nd)\<^sup>*\<^sup>* dgram_init b"
  shows "queued b = 0 \<and> receiver b \<in> {R_bind, R_recv, R_aborted} \<and>
    (receiver b \<noteq> R_aborted \<longrightarrow> \<not> bound b) \<and> (receiver b = R_aborted \<longrightarrow> \<not> nd \<and> \<not> ready b \<and> sender b = S_wait) \<and>
    (receiver b = R_bind \<longrightarrow> \<not> ready b \<and> sender b = S_wait)"
  using assms
proof (induction rule: rtranclp_induct)
  case base
  show ?case by (simp add: dgram_init_def)
next
  case (step b b')
  from step(2,3) show ?case by (induction rule: dgram_step.induct) auto
qed

section \<open>Properties\<close>

text \<open>squawk sends the messages numbered from 0, in order and without a gap, up to the first
  whose send fails or sends nothing; echo, receiving just these, never sees its end marker: it
  prints the first 512 in order and stops.\<close>

theorem demo_conversation:
  assumes "\<And>j. j < k \<Longrightarrow> 0 < send j" and "send k \<le> 0" and "0 \<le> s" and "0 \<le> rc"
  shows "squawk errno s send = Inr (Some (map squawk_msg [0..<Suc k])) \<and>
    echo errno s rc (\<lambda>i. (int (length (squawk_msg i)), squawk_msg i)) =
      (None, map (\<lambda>i. ''received datagram: '' @ [CHR 0x27] @ squawk_msg i @ [CHR 0x27]) [0..<512])"
  using assms squawk_loop_sends [of 0 k send "[]"]
  by (simp add: squawk_def echo_def check_return_value_def echo_loop_squawk demo_iters_def echo_line_def
      c_str_squawk del: upt_Suc)

text \<open>The benchmark computes a Fibonacci number modulo 2^64.\<close>

theorem fib_benchmark:
  "fib_loop n 1 1 = (of_nat (fib (n + 1)), of_nat (fib (n + 2)))"
  using fib_loop_fib [of n 1] by simp

text \<open>A guest can make and close a socket any number of times: no call fails, descriptors do not
  run out since a closed one is used again, and the table ends as empty as it was; only the
  numbers of objects grow.\<close>

theorem socket_benchmark_runs:
  assumes "i < length (replicas s)" and "fresh_or_reused (fds (rep s i))"
  shows "\<exists>s'. socket_bench n es i s = Some s' \<and> fresh_or_reused (fds (rep s' i)) \<and>
    next_object s' = next_object s + n"
  using assms
proof (induction n arbitrary: s)
  case (Suc n)
  from socket_round [OF Suc.prems, of "es n"] obtain s1 s2 where
    r: "run_hook Sys_socket (es n) i (2, 2, 0, 0, 0, 0) s = Done (Handled (of_i64 (sint simulated))) s1"
    "run_hook Sys_close (es n) i (of_i64 (libc_result (of_i64 (sint simulated))), 0, 0, 0, 0, 0) s1 = Done (Handled 0) s2"
    "fresh_or_reused (fds (rep s2 i))" "length (replicas s2) = length (replicas s)"
    "next_object s2 = Suc (next_object s)"
    by blast
  with Suc.IH [of s2] Suc.prems(1) show ?case by auto
qed simp

text \<open>The datagram benchmark never finishes: its assertion has the wrong sign, so a debug build
  ends when the bind succeeds, and otherwise nobody is bound, no datagram arrives, and the
  receiving thread, which main joins, waits for ever.\<close>

theorem dgram_benchmark_never_finishes:
  assumes "(dgram_step nd)\<^sup>*\<^sup>* dgram_init b"
  shows "receiver b \<noteq> R_done \<and> queued b = 0 \<and> (nd \<longrightarrow> receiver b \<noteq> R_aborted)"
  using dgram_never_bound [OF assms] by auto

theorem demo_conversation_witness:
  "squawk 11 3 (\<lambda>j. if j < 2 then 21 else - 1) =
     Inr (Some [''hello from message 0!'', ''hello from message 1!'', ''hello from message 2!''])"
proof -
  have "squawk 11 3 (\<lambda>j. if j < 2 then 21 else - 1) = Inr (Some (map squawk_msg [0..<Suc 2]))"
    using demo_conversation [of 2 "\<lambda>j. if j < 2 then 21 else - 1" 3 0 11] by simp
  moreover have "char_of (48 :: nat) = CHR ''0''" "char_of (49 :: nat) = CHR ''1''" "char_of (50 :: nat) = CHR ''2''"
    by code_simp+
  ultimately show ?thesis
    by (simp add: upt_rec squawk_msg_def format_int_def decimal.simps)
qed

theorem socket_benchmark_runs_witness:
  "\<exists>s'. socket_bench 1000000 (\<lambda>_. example_env) 0 (r_sim (example_runner (guest_state In_user 0 0 [] 0))) = Some s' \<and>
     fresh_or_reused (fds (rep s' 0))"
  using socket_benchmark_runs [of 0 "r_sim (example_runner (guest_state In_user 0 0 [] 0))" 1000000 "\<lambda>_. example_env"]
  by (auto simp: replica_new_def fd_table_init_def fresh_or_reused_def)

theorem dgram_benchmark_never_finishes_witness:
  "\<exists>b. (dgram_step True)\<^sup>*\<^sup>* dgram_init b \<and> receiver b = R_recv \<and> queued b = 0"
proof -
  have "dgram_step True dgram_init (dgram_init\<lparr>ready := True, receiver := R_recv\<rparr>)"
    by (rule dgram_step.Skip_bind) (simp_all add: dgram_init_def)
  then have r: "(dgram_step True)\<^sup>*\<^sup>* dgram_init (dgram_init\<lparr>ready := True, receiver := R_recv\<rparr>)" by blast
  from dgram_benchmark_never_finishes [OF r] r show ?thesis
    by (intro exI [of _ "dgram_init\<lparr>ready := True, receiver := R_recv\<rparr>"]) simp
qed

end
