(* ===== verification/Cond_Wait.thy ===== *)
theory Cond_Wait
  imports Prelude
begin

text \<open>
  Threads that wait on a condition variable for a state that a mutex protects, as the receivers of
  src/net/datagram_socket.cpp and stream_socket.cpp do. What a receiver does under the mutex, from
  the top of its loop to its sleep or its return, is one step, \<open>look\<close>; what other threads do to the
  state is the relation \<open>change\<close>, which says whether they notify. A sleeping thread is woken by a
  notification, by its deadline, or spuriously, and then looks again.
\<close>

section \<open>The machine\<close>

datatype ('r, 's) look = Wait "int option" | Take 'r 's

datatype waiter = Looking | Sleeping "int option" | Returned

text \<open>\<open>taken\<close> lists the results of the receptions so far, with the index of the receiver.\<close>

record ('r, 's) monitor =
  mon_clock :: int
  shared :: 's
  waiters :: "waiter list"
  taken :: "(nat \<times> 'r) list"

fun asleep :: "waiter \<Rightarrow> bool" where
  "asleep (Sleeping d) \<longleftrightarrow> True"
| "asleep w \<longleftrightarrow> False"

definition woken :: "waiter \<Rightarrow> waiter" where
  "woken w = (if asleep w then Looking else w)"

text \<open>\<^verbatim>\<open>notify_all\<close>; or \<^verbatim>\<open>notify_one\<close>, which wakes one of the sleeping threads, if there is one.\<close>

definition wakes :: "bool \<Rightarrow> waiter list \<Rightarrow> waiter list \<Rightarrow> bool" where
  "wakes broadcast ws ws' \<longleftrightarrow>
     (if broadcast then ws' = map woken ws
      else if list_ex asleep ws then \<exists>i < length ws. asleep (ws ! i) \<and> ws' = ws[i := Looking]
      else ws' = ws)"

inductive mon_step ::
  "(nat \<Rightarrow> int \<Rightarrow> 's \<Rightarrow> ('r, 's) look) \<Rightarrow> (int \<Rightarrow> 's \<Rightarrow> bool \<Rightarrow> 's \<Rightarrow> bool) \<Rightarrow> bool \<Rightarrow>
   ('r, 's) monitor \<Rightarrow> ('r, 's) monitor \<Rightarrow> bool" for look change broadcast where
  Sleep: "i < length (waiters M) \<Longrightarrow> waiters M ! i = Looking \<Longrightarrow> look i (mon_clock M) (shared M) = Wait d \<Longrightarrow>
    mon_step look change broadcast M (M\<lparr>waiters := (waiters M)[i := Sleeping d]\<rparr>)"
| Return: "i < length (waiters M) \<Longrightarrow> waiters M ! i = Looking \<Longrightarrow> look i (mon_clock M) (shared M) = Take r s \<Longrightarrow>
    mon_step look change broadcast M
      (M\<lparr>shared := s, waiters := (waiters M)[i := Returned], taken := taken M @ [(i, r)]\<rparr>)"
| Call: "i < length (waiters M) \<Longrightarrow> waiters M ! i = Returned \<Longrightarrow>
    mon_step look change broadcast M (M\<lparr>waiters := (waiters M)[i := Looking]\<rparr>)"
| Timeout: "i < length (waiters M) \<Longrightarrow> waiters M ! i = Sleeping (Some a) \<Longrightarrow> a \<le> mon_clock M \<Longrightarrow>
    mon_step look change broadcast M (M\<lparr>waiters := (waiters M)[i := Looking]\<rparr>)"
| Tick: "mon_clock M \<le> t \<Longrightarrow> mon_step look change broadcast M (M\<lparr>mon_clock := t\<rparr>)"
| Other: "change (mon_clock M) (shared M) notify s \<Longrightarrow>
    (if notify then wakes broadcast (waiters M) ws else ws = waiters M) \<Longrightarrow>
    mon_step look change broadcast M (M\<lparr>shared := s, waiters := ws\<rparr>)"

text \<open>A wake-up that nobody asked for may come at any time.\<close>

inductive spurious_step :: "('r, 's) monitor \<Rightarrow> ('r, 's) monitor \<Rightarrow> bool" where
  "i < length (waiters M) \<Longrightarrow> asleep (waiters M ! i) \<Longrightarrow>
    spurious_step M (M\<lparr>waiters := (waiters M)[i := Looking]\<rparr>)"

abbreviation mon_runs where
  "mon_runs look change broadcast \<equiv> (\<lambda>M M'. mon_step look change broadcast M M' \<or> spurious_step M M')\<^sup>*\<^sup>*"

text \<open>Steps of the waiting threads alone: nobody changes the state, and nobody wakes for no reason.\<close>

abbreviation own_runs where
  "own_runs look broadcast \<equiv> (mon_step look (\<lambda>t s n s'. False) broadcast)\<^sup>*\<^sup>*"

definition mon_start :: "int \<Rightarrow> 's \<Rightarrow> nat \<Rightarrow> ('r, 's) monitor" where
  "mon_start t s n = \<lparr>mon_clock = t, shared = s, waiters = replicate n Looking, taken = []\<rparr>"

section \<open>The contract, and that no wake-up is missed\<close>

text \<open>
  A sleep is justified when the thread would go to sleep again, with the same deadline, or when its
  deadline has passed.
\<close>

definition sleep_justified ::
  "(nat \<Rightarrow> int \<Rightarrow> 's \<Rightarrow> ('r, 's) look) \<Rightarrow> int \<Rightarrow> 's \<Rightarrow> nat \<Rightarrow> int option \<Rightarrow> bool" where
  "sleep_justified look t s i d \<longleftrightarrow> look i t s = Wait d \<or> (\<exists>a. d = Some a \<and> a \<le> t)"

definition none_missed :: "(nat \<Rightarrow> int \<Rightarrow> 's \<Rightarrow> ('r, 's) look) \<Rightarrow> ('r, 's) monitor \<Rightarrow> bool" where
  "none_missed look M \<longleftrightarrow> (\<forall>i < length (waiters M). \<forall>d. waiters M ! i = Sleeping d \<longrightarrow>
     sleep_justified look (mon_clock M) (shared M) i d)"

lemma asleep_iff: "asleep w \<longleftrightarrow> (\<exists>d. w = Sleeping d)"
  by (cases w) simp_all

lemma woken_not_asleep: "woken w \<noteq> Sleeping d"
  by (cases w) (simp_all add: woken_def)

lemma wakes_length: "wakes broadcast ws ws' \<Longrightarrow> length ws' = length ws"
  by (auto simp: wakes_def split: if_splits)

lemma mon_step_length: "mon_step look change broadcast M M' \<Longrightarrow> length (waiters M') = length (waiters M)"
  by (induction rule: mon_step.induct) (auto simp: wakes_length split: if_splits)

lemma spurious_length: "spurious_step M M' \<Longrightarrow> length (waiters M') = length (waiters M)"
  by (induction rule: spurious_step.induct) simp

text \<open>After a notification that reaches everybody, nobody sleeps.\<close>

lemma wakes_everybody:
  assumes "wakes broadcast ws ws'" and "broadcast \<or> length ws \<le> 1" and "i < length ws'"
  shows "ws' ! i \<noteq> Sleeping d"
proof (cases broadcast)
  case True
  then show ?thesis using assms by (simp add: wakes_def woken_not_asleep)
next
  case False
  then have i: "i = 0" "length ws = 1" using assms wakes_length [OF assms(1)] by auto
  then obtain w where "ws = [w]" by (auto simp: length_Suc_conv)
  then show ?thesis using assms(1) False i by (auto simp: wakes_def split: if_splits)
qed

locale waiting_protocol =
  fixes look :: "nat \<Rightarrow> int \<Rightarrow> 's \<Rightarrow> ('r, 's) look"
    and change :: "int \<Rightarrow> 's \<Rightarrow> bool \<Rightarrow> 's \<Rightarrow> bool"
  assumes same_wait: "look i t s = Wait d \<Longrightarrow> look j t s = Wait d"
    and later: "look i t s = Wait d \<Longrightarrow> t \<le> t' \<Longrightarrow> look i t' s = Wait d \<or> (\<exists>a. d = Some a \<and> a \<le> t')"
    and quiet: "change u s False s' \<Longrightarrow> look i t s = Wait d \<Longrightarrow> look i t s' = Wait d"
begin

lemma justified_later:
  "sleep_justified look t s i d \<Longrightarrow> t \<le> t' \<Longrightarrow> sleep_justified look t' s i d"
  using later [of i t s d t'] by (auto simp: sleep_justified_def)

lemma step_none_missed:
  assumes "mon_step look change broadcast M M'" and "broadcast \<or> length (waiters M) \<le> 1"
    and inv: "none_missed look M"
  shows "none_missed look M'"
  using assms(1)
proof cases
  case (Return i r s)
  have "sleep_justified look (mon_clock M) s j d" if j: "j < length (waiters M)" "j \<noteq> i" "waiters M ! j = Sleeping d" for j d
  proof -
    have "sleep_justified look (mon_clock M) (shared M) j d" using inv j by (simp add: none_missed_def)
    moreover have "look j (mon_clock M) (shared M) \<noteq> Wait d" using same_wait [of j _ _ d i] Return(4) by auto
    ultimately show ?thesis by (auto simp: sleep_justified_def)
  qed
  then show ?thesis using Return(1,2) by (auto simp: none_missed_def nth_list_update split: if_splits)
next
  case (Other notify s ws)
  show ?thesis
  proof (cases notify)
    case True
    then show ?thesis
      using wakes_everybody [of broadcast "waiters M" ws] assms(2) Other by (auto simp: none_missed_def)
  next
    case False
    have keep: "sleep_justified look (mon_clock M) s i d" if "sleep_justified look (mon_clock M) (shared M) i d" for i d
      using that quiet [of "mon_clock M" "shared M" s i "mon_clock M" d] Other(2) False by (auto simp: sleep_justified_def)
    then show ?thesis using Other(1,3) False inv by (simp add: none_missed_def)
  qed
next
  case (Tick t)
  then show ?thesis using inv justified_later by (auto simp: none_missed_def)
qed (use inv in \<open>auto simp: none_missed_def sleep_justified_def nth_list_update split: if_splits\<close>)

lemma spurious_none_missed: "spurious_step M M' \<Longrightarrow> none_missed look M \<Longrightarrow> none_missed look M'"
  by (induction rule: spurious_step.induct) (auto simp: none_missed_def nth_list_update split: if_splits)

lemma runs_none_missed:
  assumes "mon_runs look change broadcast (mon_start t s n) M" and "broadcast \<or> n \<le> 1"
  shows "none_missed look M \<and> length (waiters M) = n"
  using assms(1)
proof (induction rule: rtranclp_induct)
  case base
  show ?case by (simp add: none_missed_def mon_start_def)
next
  case (step M M')
  then show ?case
    using step_none_missed [of broadcast M M'] spurious_none_missed [of M M'] mon_step_length [of look change broadcast M M']
      spurious_length [of M M'] assms(2) by auto
qed

text \<open>A thread that is in its call, when there is something for it, gets it by its own steps.\<close>

lemma ready_returns:
  assumes inv: "none_missed look M" and i: "i < length (waiters M)" "waiters M ! i \<noteq> Returned"
    and take: "look i (mon_clock M) (shared M) = Take r s"
  shows "\<exists>M'. own_runs look broadcast M M' \<and> taken M' = taken M @ [(i, r)] \<and> shared M' = s \<and> waiters M' ! i = Returned"
proof -
  let ?step = "mon_step look (\<lambda>t s n s'. False) broadcast"
  have get: "\<exists>M'. ?step N M' \<and> taken M' = taken N @ [(i, r)] \<and> shared M' = s \<and> waiters M' ! i = Returned"
    if "i < length (waiters N)" "waiters N ! i = Looking" "mon_clock N = mon_clock M" "shared N = shared M" for N
    using mon_step.Return [of i N look r s] that take by (intro exI conjI) auto
  show ?thesis
  proof (cases "waiters M ! i")
    case Looking
    then show ?thesis using get [of M] i(1) by blast
  next
    case (Sleeping d)
    then have "sleep_justified look (mon_clock M) (shared M) i d" using inv i(1) by (simp add: none_missed_def)
    then obtain a where "d = Some a" "a \<le> mon_clock M" using take by (auto simp: sleep_justified_def)
    then have wake: "?step M (M\<lparr>waiters := (waiters M)[i := Looking]\<rparr>)"
      using mon_step.Timeout [of i M a] Sleeping i(1) by simp
    obtain M' where "?step (M\<lparr>waiters := (waiters M)[i := Looking]\<rparr>) M'" "taken M' = taken M @ [(i, r)]"
      "shared M' = s" "waiters M' ! i = Returned"
      using get [of "M\<lparr>waiters := (waiters M)[i := Looking]\<rparr>"] i(1) by auto
    then show ?thesis using rtranclp_trans [OF r_into_rtranclp [of ?step, OF wake] r_into_rtranclp [of ?step]] by blast
  qed (use i(2) in simp)
qed

end

end
