(* ===== verification/Pipe_Threads.thy ===== *)
theory Pipe_Threads
  imports Cond_Wait Datagram Stream_Sock
begin

text \<open>
  The receivers of a datagram pipe and of a stream socket as threads. \<^verbatim>\<open>datagram_pipe::recv\<close> waits
  without a deadline while the queue is empty and else until the arrival of the first packet;
  \<^verbatim>\<open>send\<close> notifies one thread. \<^verbatim>\<open>stream_socket::recv\<close> waits without a deadline, and \<^verbatim>\<open>send\<close> notifies all.
  The atomic receptions of theories Datagram and Stream\_Sock are the steps that return.
\<close>

section \<open>The datagram pipe\<close>

definition pipe_look :: "nat \<Rightarrow> int \<Rightarrow> datagram_pipe \<Rightarrow> (bytes \<times> socket_addr, datagram_pipe) look" where
  "pipe_look i now pipe =
     (if packets pipe = [] then Wait None
      else let p = pq_top (packets pipe)
           in if arrival p > now then Wait (Some (arrival p))
              else Take (payload p, sender p) (pipe\<lparr>packets := pq_pop arrival (packets pipe)\<rparr>))"

text \<open>A transmission reads the clock before it has the mutex; a dropped packet notifies nobody.\<close>

definition pipe_change ::
  "(rat \<Rightarrow> xoshiro \<Rightarrow> bool \<times> xoshiro) \<Rightarrow> int \<Rightarrow> datagram_pipe \<Rightarrow> bool \<Rightarrow> datagram_pipe \<Rightarrow> bool" where
  "pipe_change bern now pipe notify pipe' \<longleftrightarrow>
     (\<exists>t data addr. valid_time t \<and> t \<le> now \<and> pipe_send bern t data addr pipe = Some (Inr pipe') \<and>
        notify = (\<not> fst (should_drop bern (faults pipe) (pipe_rng pipe))))"

lemma pipe_recv_look:
  "pipe_recv now pipe = (case pipe_look i now pipe of Wait d \<Rightarrow> Blocked | Take r pipe' \<Rightarrow> Done r pipe')"
  by (simp add: pipe_recv_def pipe_look_def Let_def)

lemma pipe_change_silent: "pipe_change bern u pipe False pipe' \<Longrightarrow> packets pipe' = packets pipe"
  by (cases "should_drop bern (faults pipe) (pipe_rng pipe)") (auto simp: pipe_change_def pipe_send_def Let_def)

interpretation dgram: waiting_protocol pipe_look "pipe_change bern"
proof (unfold_locales, goal_cases)
  case (2 i t s d t')
  then show ?case by (auto simp: pipe_look_def Let_def split: if_splits)
next
  case (3 u s s' i t d)
  then show ?case using pipe_change_silent [of bern u s s'] by (auto simp: pipe_look_def Let_def split: if_splits)
qed (simp add: pipe_look_def)

abbreviation pipe_runs where
  "pipe_runs bern \<equiv> mon_runs pipe_look (pipe_change bern) False"

definition receptions :: "pipe_event list \<Rightarrow> (bytes \<times> socket_addr) list" where
  "receptions es = concat (map (\<lambda>e. case e of Received t d a \<Rightarrow> [(d, a)] | Sent t d a \<Rightarrow> []) es)"

lemma receptions_simps [simp]:
  "receptions [] = []" "receptions (es @ [Sent t d a]) = receptions es"
  "receptions (es @ [Received t d a]) = receptions es @ [(d, a)]"
  by (simp_all add: receptions_def)

lemma pipe_runs_trace:
  assumes "pipe_runs bern (mon_start t pipe n) M"
  shows "\<exists>es. pipe_trace bern pipe es (shared M) \<and> receptions es = map snd (taken M)"
  using assms
proof (induction rule: rtranclp_induct)
  case base
  show ?case using pipe_trace.start [of bern pipe] by (intro exI [of _ "[]"]) (simp add: mon_start_def)
next
  case (step M M')
  obtain es where es: "pipe_trace bern pipe es (shared M)" "receptions es = map snd (taken M)" using step.IH by blast
  from step.hyps(2) show ?case
  proof
    assume "mon_step pipe_look (pipe_change bern) False M M'"
    then show ?thesis
    proof cases
      case (Return i r s)
      obtain data addr where r: "r = (data, addr)" by (cases r)
      have "pipe_recv (mon_clock M) (shared M) = Done (data, addr) s"
        using Return(4) r by (simp add: pipe_recv_look [of _ _ i])
      from pipe_trace.recv [OF es(1) this] show ?thesis
        using es(2) Return(1) r by (intro exI [of _ "es @ [Received (mon_clock M) data addr]"]) simp
    next
      case (Other notify s ws)
      then obtain u data addr where "valid_time u" "pipe_send bern u data addr (shared M) = Some (Inr s)"
        by (auto simp: pipe_change_def)
      from pipe_trace.send [OF es(1) this] show ?thesis
        using es(2) Other(1) by (intro exI [of _ "es @ [Sent u data addr]"]) simp
    qed (use es in auto)
  next
    assume "spurious_step M M'"
    then show ?thesis by cases (use es in auto)
  qed
qed

lemma pipe_runs_ok:
  assumes "pipe_runs bern (mon_start t pipe n) M" and "pipe_ok pipe"
  shows "pipe_ok (shared M)"
  using pipe_runs_trace [OF assms(1)] trace_keeps [OF _ assms(2)] by blast

lemma pipe_look_top:
  assumes "pipe_ok pipe" and "pipe_look i now pipe = Wait d"
  shows "case d of None \<Rightarrow> packets pipe = []
    | Some a \<Rightarrow> (\<exists>p \<in> set (packets pipe). arrival p = a) \<and> (\<forall>p \<in> set (packets pipe). a \<le> arrival p)"
proof (cases "packets pipe = []")
  case True
  then show ?thesis using assms(2) by (auto simp: pipe_look_def)
next
  case False
  have h: "heap arrival (packets pipe)" using assms(1) by (simp add: pipe_ok_def)
  have "pq_top (packets pipe) \<in> set (packets pipe)" using pq.top_in [OF h] False by simp
  moreover have "arrival (pq_top (packets pipe)) \<le> arrival p" if "p \<in> set (packets pipe)" for p
    using pq.top_least [OF h] that by simp
  ultimately show ?thesis using assms(2) False by (auto simp: pipe_look_def Let_def split: if_splits)
qed

lemma pipe_look_due:
  assumes "pipe_ok pipe" and "p \<in> set (packets pipe)" and "arrival p \<le> now"
  shows "\<exists>q pipe'. pipe_look i now pipe = Take (payload q, sender q) pipe' \<and> q \<in> set (packets pipe) \<and> arrival q \<le> now"
proof (cases "pipe_look i now pipe")
  case (Wait d)
  have "pipe_recv now pipe = Blocked" using Wait by (simp add: pipe_recv_look [of _ _ i])
  then show ?thesis using pipe_recv_Blocked_iff [OF assms(1)] assms(2,3) by force
next
  case (Take r pipe')
  have h: "heap arrival (packets pipe)" using assms(1) by (simp add: pipe_ok_def)
  have ne: "packets pipe \<noteq> []" using assms(2) by auto
  then have "pq_top (packets pipe) \<in> set (packets pipe)" using pq.top_in [OF h] by simp
  then show ?thesis using Take ne by (auto simp: pipe_look_def Let_def split: if_splits)
qed

section \<open>The stream socket\<close>

definition stream_look ::
  "(bytes \<Rightarrow> 'm \<Rightarrow> int \<times> 'm) \<Rightarrow> (nat \<Rightarrow> nat) \<Rightarrow> nat \<Rightarrow> int \<Rightarrow> stream_socket \<times> 'm \<Rightarrow> (int, stream_socket \<times> 'm) look" where
  "stream_look write_data size_of i now = (\<lambda>(s, m).
     if buffer s = [] then Wait None
     else (case stream_recv write_data (size_of i) s m of Done r sm \<Rightarrow> Take r sm | _ \<Rightarrow> Wait None))"

text \<open>A send whose memory access fails notifies nobody. The memory of the guests may change.\<close>

definition stream_change :: "int \<Rightarrow> stream_socket \<times> 'm \<Rightarrow> bool \<Rightarrow> stream_socket \<times> 'm \<Rightarrow> bool" where
  "stream_change now = (\<lambda>(s, m) notify (s', m').
     \<exists>rd n res. stream_send rd n (Some s) = Inr (res, s') \<and> notify = (0 \<le> res))"

lemma stream_recv_ready: "buffer s \<noteq> [] \<Longrightarrow> \<exists>r sm. stream_recv write_data n s m = Done r sm"
  by (auto simp: stream_recv_def Let_def split: prod.split)

lemma stream_change_silent: "stream_change u s False s' \<Longrightarrow> fst s' = fst s"
proof -
  assume "stream_change u s False s'"
  then obtain rd n res where r: "stream_send rd n (Some (fst s)) = Inr (res, fst s')" "\<not> 0 \<le> res"
    by (auto simp: stream_change_def split_beta)
  then show ?thesis by (cases "rd n") (auto simp: stream_send_def split: if_splits)
qed

interpretation stream: waiting_protocol "stream_look write_data size_of" stream_change
proof (unfold_locales, goal_cases)
  case (1 i t s d j)
  then show ?case by (auto simp: stream_look_def stream_recv_def Let_def split: prod.splits if_splits)
next
  case (2 i t s d t')
  then show ?case by (auto simp: stream_look_def)
next
  case (3 u s s' i t d)
  have "fst s' = fst s" by (rule stream_change_silent [OF 3(1)])
  then show ?case using 3(2) stream_recv_ready [of "fst s" write_data "size_of i" "snd s"]
    by (auto simp: stream_look_def split_beta split: if_splits)
qed

text \<open>No receiver of a stream has a deadline.\<close>

definition no_deadline :: "('r, 's) monitor \<Rightarrow> bool" where
  "no_deadline M \<longleftrightarrow> (\<forall>i < length (waiters M). \<forall>d. waiters M ! i = Sleeping d \<longrightarrow> d = None)"

lemma stream_look_wait: "stream_look write_data size_of i t sm = Wait d \<Longrightarrow> d = None"
  by (auto simp: stream_look_def split: prod.splits if_splits outcome.splits)

lemma stream_step_no_deadline:
  assumes "mon_step (stream_look write_data size_of) stream_change True M M'" and "no_deadline M"
  shows "no_deadline M'"
  using assms(1)
proof cases
  case (Sleep i d)
  have "d = None" by (rule stream_look_wait [OF Sleep(4)])
  then show ?thesis using assms(2) Sleep(1,2) by (auto simp: no_deadline_def nth_list_update split: if_splits)
next
  case (Other notify s ws)
  then show ?thesis using assms(2) by (auto simp: no_deadline_def wakes_def woken_not_asleep split: if_splits)
qed (use assms(2) in \<open>auto simp: no_deadline_def nth_list_update split: if_splits\<close>)

lemma stream_no_deadline:
  "mon_runs (stream_look write_data size_of) stream_change True (mon_start t (s, m) n) M \<Longrightarrow> no_deadline M"
proof (induction rule: rtranclp_induct)
  case base
  show ?case by (simp add: no_deadline_def mon_start_def)
next
  case (step M M')
  have "no_deadline M'" if "spurious_step M M'" using that step.IH
    by (induction rule: spurious_step.induct) (auto simp: no_deadline_def nth_list_update split: if_splits)
  then show ?case using step stream_step_no_deadline by blast
qed

section \<open>Properties\<close>


text \<open>C16: A single receiver misses no wake-up. While it sleeps without a deadline the queue is empty,
  while it sleeps with one nothing queued arrives earlier; and once a queued packet is due, the
  receiver's own steps return a due packet, without further transmissions or spurious wake-ups.\<close>

theorem pipe_wakeups:
  assumes "pipe_ok pipe" and "pipe_runs bern (mon_start t pipe 1) M"
  shows "(\<forall>d. waiters M = [Sleeping d] \<longrightarrow>
      (case d of None \<Rightarrow> packets (shared M) = []
       | Some a \<Rightarrow> a \<le> mon_clock M \<or> (\<forall>p \<in> set (packets (shared M)). a \<le> arrival p))) \<and>
    ((\<exists>p \<in> set (packets (shared M)). arrival p \<le> mon_clock M) \<and> waiters M \<noteq> [Returned] \<longrightarrow>
      (\<exists>M' p. own_runs pipe_look False M M' \<and> p \<in> set (packets (shared M)) \<and> arrival p \<le> mon_clock M \<and>
         taken M' = taken M @ [(0, payload p, sender p)]))"
proof -
  have ok: "pipe_ok (shared M)" by (rule pipe_runs_ok [OF assms(2,1)])
  have inv: "none_missed pipe_look M" "length (waiters M) = 1"
    using dgram.runs_none_missed [OF assms(2)] by simp_all
  obtain w where w: "waiters M = [w]" using inv(2) by (auto simp: length_Suc_conv)
  have "case d of None \<Rightarrow> packets (shared M) = []
      | Some a \<Rightarrow> a \<le> mon_clock M \<or> (\<forall>p \<in> set (packets (shared M)). a \<le> arrival p)"
    if "waiters M = [Sleeping d]" for d
  proof -
    have "sleep_justified pipe_look (mon_clock M) (shared M) 0 d" using inv(1) that by (simp add: none_missed_def)
    then show ?thesis
      using pipe_look_top [OF ok, of 0 "mon_clock M" d] by (auto simp: sleep_justified_def split: option.splits)
  qed
  moreover have "\<exists>M' p. own_runs pipe_look False M M' \<and> p \<in> set (packets (shared M)) \<and> arrival p \<le> mon_clock M \<and>
      taken M' = taken M @ [(0, payload p, sender p)]"
    if "q \<in> set (packets (shared M))" "arrival q \<le> mon_clock M" "waiters M \<noteq> [Returned]" for q
  proof -
    from pipe_look_due [OF ok that(1,2), of 0] obtain p pipe' where p: "p \<in> set (packets (shared M))" "arrival p \<le> mon_clock M"
      "pipe_look 0 (mon_clock M) (shared M) = Take (payload p, sender p) pipe'" by blast
    from dgram.ready_returns [OF inv(1) _ _ p(3), of False] show ?thesis using w that(3) p(1,2) by auto
  qed
  ultimately show ?thesis by blast
qed

text \<open>C17: Any number of receivers of a stream miss no wake-up: a receiver sleeps only while the buffer
  is empty, and when it is not every receiver in its call can return by its own steps.\<close>

theorem stream_wakeups:
  assumes "mon_runs (stream_look write_data size_of) stream_change True (mon_start t (s, m) n) M" and "i < n"
  shows "(\<forall>d. waiters M ! i = Sleeping d \<longrightarrow> d = None \<and> buffer (fst (shared M)) = []) \<and>
    (buffer (fst (shared M)) \<noteq> [] \<and> waiters M ! i \<noteq> Returned \<longrightarrow>
      (\<exists>M' r. own_runs (stream_look write_data size_of) True M M' \<and> taken M' = taken M @ [(i, r)] \<and>
         stream_recv write_data (size_of i) (fst (shared M)) (snd (shared M)) = Done r (shared M')))"
proof -
  let ?look = "stream_look write_data size_of"
  have inv: "none_missed ?look M" "length (waiters M) = n" using stream.runs_none_missed [OF assms(1)] by simp_all
  have never: "d = None \<and> buffer (fst (shared M)) = []" if "?look i (mon_clock M) (shared M) = Wait d" for d
    using that by (auto simp: stream_look_def stream_recv_def Let_def split: prod.splits if_splits)
  have "d = None \<and> buffer (fst (shared M)) = []" if "waiters M ! i = Sleeping d" for d
  proof -
    have "no_deadline M" using stream_no_deadline [OF assms(1)] .
    then have "d = None" using that inv(2) assms(2) by (simp add: no_deadline_def)
    moreover have "sleep_justified ?look (mon_clock M) (shared M) i d" using inv assms(2) that by (simp add: none_missed_def)
    ultimately show ?thesis using never by (auto simp: sleep_justified_def)
  qed
  moreover have "\<exists>M' r. own_runs ?look True M M' \<and> taken M' = taken M @ [(i, r)] \<and>
      stream_recv write_data (size_of i) (fst (shared M)) (snd (shared M)) = Done r (shared M')"
    if "buffer (fst (shared M)) \<noteq> []" "waiters M ! i \<noteq> Returned"
  proof -
    note ready = that
    obtain r sm where r: "stream_recv write_data (size_of i) (fst (shared M)) (snd (shared M)) = Done r sm"
      "?look i (mon_clock M) (shared M) = Take r sm"
      using stream_recv_ready [OF ready(1), of write_data "size_of i" "snd (shared M)"] ready(1)
      by (auto simp: stream_look_def split_beta)
    from stream.ready_returns [OF inv(1) _ _ r(2), of True] r(1) show ?thesis using inv(2) assms(2) that(2) by auto
  qed
  ultimately show ?thesis by blast
qed

section \<open>Two receivers\<close>

text \<open>A link on which every packet takes ten nanoseconds.\<close>

definition slow_link :: net_fault_options where
  "slow_link = default_faults\<lparr>min_latency := 10, max_latency := 10\<rparr>"

lemma slow_link_ok: "valid_faults slow_link" "pipe_ok (pipe_init slow_link)"
proof -
  show "valid_faults slow_link" by (simp add: slow_link_def valid_faults_def default_faults_def)
  then show "pipe_ok (pipe_init slow_link)" by (simp add: pipe_ok_def pipe_init_def)
qed

lemma slow_send:
  assumes "pipe_ok pipe" and "faults pipe = slow_link" and "valid_time t"
  shows "\<exists>p pipe'. pipe_change (canonical_bernoulli xo_next) t pipe True pipe' \<and> arrival p = t + 10 \<and>
    packets pipe' = pq_push arrival p (packets pipe) \<and> pipe_ok pipe' \<and> faults pipe' = slow_link"
proof -
  let ?bern = "canonical_bernoulli xo_next"
  have keep: "\<not> fst (?bern (p_drop (faults pipe)) (pipe_rng pipe))"
    using no_drop_default by (simp add: assms(2) slow_link_def)
  have "p_replay (faults pipe) = 0" by (simp add: assms(2) slow_link_def default_faults_def)
  then obtain res where res: "pipe_send ?bern t [] null_addr pipe = Some res"
    using pipe_send_returns [OF assms(1,3)] by blast
  from pipe_send_keeps [OF assms(1,3) res] obtain pipe' where ok: "res = Inr pipe'" "pipe_ok pipe'" "faults pipe' = slow_link"
    using assms(2) by auto
  from assms(1,3) res show ?thesis
  proof (cases rule: pipe_send_cases)
    case (queued p ps r)
    have "arrival p = t + 10" using queued(3) by (simp add: original_def assms(2) slow_link_def)
    moreover have "packets pipe' = pq_push arrival p (packets pipe)"
      using queued(1,5) ok(1) \<open>p_replay (faults pipe) = 0\<close> by (simp add: push_all_def)
    moreover have "pipe_change ?bern t pipe True pipe'"
      using res ok(1) assms(3) keep unfolding pipe_change_def should_drop_def by (intro exI conjI) simp_all
    ultimately show ?thesis using ok by blast
  qed (use keep in simp)
qed

lemma left_asleep:
  assumes "own_runs look broadcast M M'" and "i < length (waiters M)" "waiters M ! i = Sleeping None"
  shows "i < length (waiters M') \<and> waiters M' ! i = Sleeping None"
  using assms
proof (induction rule: rtranclp_induct)
  case (step M1 M2)
  then have inv: "i < length (waiters M1)" "waiters M1 ! i = Sleeping None" by simp_all
  from step.hyps(2) show ?case
    by cases (use inv in \<open>auto simp: nth_list_update split: if_splits\<close>)
qed simp

lemma wakes_first: "asleep w \<Longrightarrow> wakes False (w # ws) (Looking # ws)"
  unfolding wakes_def by (simp, intro exI [of _ 0]) simp

text \<open>With two receivers a wake-up can be missed: \<^verbatim>\<open>send\<close> notifies one thread, and it may be one that
  sleeps until the arrival of a packet. Then a packet is queued and due while the other thread
  sleeps with no deadline, and nothing but another transmission or a spurious wake-up ends that.\<close>

theorem pipe_lost_wakeup:
  "\<exists>M. pipe_runs (canonical_bernoulli xo_next) (mon_start 0 (pipe_init slow_link) 2) M \<and>
     waiters M = [Returned, Sleeping None] \<and> (\<exists>p \<in> set (packets (shared M)). arrival p \<le> mon_clock M) \<and>
     (\<forall>M'. own_runs pipe_look False M M' \<longrightarrow> waiters M' ! 1 = Sleeping None)"
proof -
  let ?bern = "canonical_bernoulli xo_next"
  let ?step = "mon_step pipe_look (pipe_change ?bern) False"
  have t: "valid_time 0" by (simp add: valid_time_def)
  obtain p1 q1 where q1: "pipe_change ?bern 0 (pipe_init slow_link) True q1" "arrival p1 = 10"
    "packets q1 = [p1]" "pipe_ok q1" "faults q1 = slow_link"
    using slow_send [OF slow_link_ok(2) _ t] by (auto simp: pipe_init_def pq_push_def sift_up.simps)
  obtain p2 q2 where q2: "pipe_change ?bern 0 q1 True q2" "arrival p2 = 10" "packets q2 = [p1, p2]"
    using slow_send [OF q1(4,5) t] q1(2,3) by (auto simp: pq_push_def sift_up.simps parent_def)
  let ?M = "\<lambda>t q ws tk. \<lparr>mon_clock = t, shared = q, waiters = ws, taken = tk\<rparr>"
  have s1: "?step (?M 0 (pipe_init slow_link) [Looking, Looking] []) (?M 0 (pipe_init slow_link) [Sleeping None, Looking] [])"
    using mon_step.Sleep [of 0 "?M 0 (pipe_init slow_link) [Looking, Looking] []" pipe_look None "pipe_change ?bern" False]
    by (simp add: pipe_look_def pipe_init_def)
  have s2: "?step (?M 0 (pipe_init slow_link) [Sleeping None, Looking] []) (?M 0 (pipe_init slow_link) [Sleeping None, Sleeping None] [])"
    using mon_step.Sleep [of 1 "?M 0 (pipe_init slow_link) [Sleeping None, Looking] []" pipe_look None "pipe_change ?bern" False]
    by (simp add: pipe_look_def pipe_init_def)
  have s3: "?step (?M 0 (pipe_init slow_link) [Sleeping None, Sleeping None] []) (?M 0 q1 [Looking, Sleeping None] [])"
    using mon_step.Other [of "pipe_change ?bern" "?M 0 (pipe_init slow_link) [Sleeping None, Sleeping None] []" True q1 False
        "[Looking, Sleeping None]" pipe_look] q1(1) by (simp add: wakes_first)
  have s4: "?step (?M 0 q1 [Looking, Sleeping None] []) (?M 0 q1 [Sleeping (Some 10), Sleeping None] [])"
    using mon_step.Sleep [of 0 "?M 0 q1 [Looking, Sleeping None] []" pipe_look "Some 10" "pipe_change ?bern" False] q1(2,3)
    by (simp add: pipe_look_def pq_top_def)
  have s5: "?step (?M 0 q1 [Sleeping (Some 10), Sleeping None] []) (?M 0 q2 [Looking, Sleeping None] [])"
    using mon_step.Other [of "pipe_change ?bern" "?M 0 q1 [Sleeping (Some 10), Sleeping None] []" True q2 False
        "[Looking, Sleeping None]" pipe_look] q2(1) by (simp add: wakes_first)
  have s6: "?step (?M 0 q2 [Looking, Sleeping None] []) (?M 10 q2 [Looking, Sleeping None] [])"
    using mon_step.Tick [of "?M 0 q2 [Looking, Sleeping None] []" 10 pipe_look "pipe_change ?bern" False] by simp
  let ?q = "q2\<lparr>packets := pq_pop arrival (packets q2)\<rparr>"
  let ?r = "(payload p1, sender p1)"
  have s7: "?step (?M 10 q2 [Looking, Sleeping None] []) (?M 10 ?q [Returned, Sleeping None] [(0, ?r)])"
    using mon_step.Return [of 0 "?M 10 q2 [Looking, Sleeping None] []" pipe_look ?r ?q "pipe_change ?bern" False] q1(2) q2(3)
    by (simp add: pipe_look_def pq_top_def)
  let ?runs = "pipe_runs ?bern" and ?E = "?M 10 ?q [Returned, Sleeping None] [(0, ?r)]"
  have one: "?step a b \<Longrightarrow> ?runs b c \<Longrightarrow> ?runs a c" for a b c by (rule converse_rtranclp_into_rtranclp) blast+
  have "?runs (mon_start 0 (pipe_init slow_link) 2) ?E"
    using one [OF s1 one [OF s2 one [OF s3 one [OF s4 one [OF s5 one [OF s6 one [OF s7 rtranclp.rtrancl_refl]]]]]]]
    by (simp add: mon_start_def numeral_2_eq_2)
  moreover have "packets ?q = [p2]"
    using q2(3) by (simp add: pq_pop_def sift_down.simps sift_up.simps)
  moreover have "waiters M' ! 1 = Sleeping None" if "own_runs pipe_look False ?E M'" for M'
    using left_asleep [OF that, of 1] by simp
  ultimately show ?thesis using q2(2) by (intro exI [of _ ?E]) simp
qed

section \<open>Witnesses\<close>


definition due_pipe :: datagram_pipe where
  "due_pipe = (pipe_init default_faults)\<lparr>packets :=
     [\<lparr>arrival = 5, payload = [1], consumed = 0, sender = null_addr\<rparr>]\<rparr>"

theorem pipe_wakeups_witness:
  "\<exists>M'. own_runs pipe_look False (mon_start 5 due_pipe 1) M' \<and> taken M' = [(0, [1], null_addr)]"
proof -
  have ok: "pipe_ok due_pipe" by (simp add: due_pipe_def pipe_ok_def pipe_init_def valid_faults_def default_faults_def heap_def)
  have start: "pipe_runs (canonical_bernoulli xo_next) (mon_start 5 due_pipe 1) (mon_start 5 due_pipe 1)" by simp
  from pipe_wakeups [OF ok start] show ?thesis by (auto simp: mon_start_def due_pipe_def)
qed

definition full_stream :: stream_socket where
  "full_stream = (stream_socket_new Unix_family)\<lparr>buffer := [1, 2, 3]\<rparr>"

theorem stream_wakeups_witness:
  "\<exists>M' r. own_runs (stream_look store_chunk (\<lambda>i. 2)) True (mon_start 0 (full_stream, []) 2) M' \<and> taken M' = [(1, r)]"
  using stream_wakeups [of store_chunk "\<lambda>i. 2" 0 full_stream "[]" 2 "mon_start 0 (full_stream, []) 2" 1]
  by (auto simp: mon_start_def full_stream_def numeral_2_eq_2)

end
