(* ===== verification/Delivery.thy ===== *)
theory Delivery
  imports System
begin

text \<open>
  Whole runs of a simulation, with the calls that the guests make: what is received through a
  datagram socket, by whichever guest has it, against what the guests sent to the names the
  socket is bound to. For each socket the run is a history of its pipe.
\<close>

section \<open>Runs with their calls\<close>

record 'm call =
  call_env :: "'m env"
  caller :: nat
  call_hook :: hook
  call_args :: args
  before :: "'m sim"
  after :: "'m sim"

text \<open>
  Between calls machines are started, and a guest computes: it changes its own memory in any way.
  A call that waits is in the list when it returns, with the clock of that moment.
\<close>

inductive sim_run ::
  "(rat \<Rightarrow> xoshiro \<Rightarrow> bool \<times> xoshiro) \<Rightarrow> options \<Rightarrow> 'm call list \<Rightarrow> 'm sim \<Rightarrow> bool" for b opts where
  boot: "sim_run b opts [] (sim_init opts)"
| start: "sim_run b opts cs s \<Longrightarrow> sim_run b opts cs (machine_start m now s)"
| compute: "sim_run b opts cs s \<Longrightarrow> i < length (replicas s) \<Longrightarrow> sim_run b opts cs (set_mem i m s)"
| call: "sim_run b opts cs s \<Longrightarrow> i < length (replicas s) \<Longrightarrow> valid_time (clock e) \<Longrightarrow> bern e = b \<Longrightarrow>
    run_hook h e i a s = Done r s' \<Longrightarrow>
    sim_run b opts (cs @ [\<lparr>call_env = e, caller = i, call_hook = h, call_args = a, before = s, after = s'\<rparr>]) s'"

text \<open>The datagram socket a descriptor of a guest refers to.\<close>

definition dgram_of :: "'m sim \<Rightarrow> nat \<Rightarrow> u64 \<Rightarrow> (nat \<times> datagram_socket) option" where
  "dgram_of s i fd =
     (if is_simulated (as_int fd) then
        (case live (fds (rep s i)) (as_int fd) of
           Some x \<Rightarrow> (case objects s x of Some (Dgram_obj d) \<Rightarrow> Some (x, d) | _ \<Rightarrow> None)
         | None \<Rightarrow> None)
      else None)"

text \<open>The socket a sendto transmits to, the one that exists and has the name of the destination,
  and the bytes, which are in the memory of the caller.\<close>

definition transmitted :: "'m env \<Rightarrow> nat \<Rightarrow> args \<Rightarrow> 'm sim \<Rightarrow> (nat \<times> bytes) option" where
  "transmitted e i = (\<lambda>(fd, buf, len, _, p, plen) s.
     case (dgram_of s i fd, parse_addr e (mem (rep s i)) p plen) of
       (Some _, Inr dst) \<Rightarrow>
         (case binding (alive s) (sim_net s) dst of
            Some y \<Rightarrow>
              (case objects s y of
                 Some (Dgram_obj _) \<Rightarrow> Some (y, snd (read_memory (kernel e) buf (unat len) (mem (rep s i))))
               | _ \<Rightarrow> None)
          | None \<Rightarrow> None)
     | _ \<Rightarrow> None)"

text \<open>The socket a recvfrom takes a datagram from, and the whole datagram.\<close>

definition received :: "'m env \<Rightarrow> nat \<Rightarrow> args \<Rightarrow> 'm sim \<Rightarrow> (nat \<times> bytes \<times> socket_addr) option" where
  "received e i = (\<lambda>(fd, _) s.
     case dgram_of s i fd of
       Some (y, d) \<Rightarrow>
         (case pipe_recv (clock e) (inbound d) of Done (data, addr) _ \<Rightarrow> Some (y, data, addr) | _ \<Rightarrow> None)
     | None \<Rightarrow> None)"

definition sent_in :: "'m call \<Rightarrow> (nat \<times> bytes) option" where
  "sent_in c = (if call_hook c = Sys_sendto
     then transmitted (call_env c) (caller c) (call_args c) (before c) else None)"

definition received_in :: "'m call \<Rightarrow> (nat \<times> bytes \<times> socket_addr) option" where
  "received_in c = (if call_hook c = Sys_recvfrom
     then received (call_env c) (caller c) (call_args c) (before c) else None)"

text \<open>The events of socket \<open>y\<close> in a list of calls.\<close>

definition call_event :: "nat \<Rightarrow> 'm call \<Rightarrow> pipe_event list" where
  "call_event y c =
     (case sent_in c of Some (x, data) \<Rightarrow> if x = y then [Sent (clock (call_env c)) data null_addr] else []
      | None \<Rightarrow>
         (case received_in c of
            Some (x, data, addr) \<Rightarrow> if x = y then [Received (clock (call_env c)) data addr] else []
          | None \<Rightarrow> []))"

definition socket_events :: "nat \<Rightarrow> 'm call list \<Rightarrow> pipe_event list" where
  "socket_events y cs = concat (map (call_event y) cs)"

lemma socket_events_simps [simp]:
  "socket_events y [] = []" "socket_events y (cs @ cs') = socket_events y cs @ socket_events y cs'"
  "socket_events y (c # cs) = call_event y c @ socket_events y cs"
  by (simp_all add: socket_events_def)

section \<open>What a call does to the sockets\<close>

lemma dgram_of_Some:
  "dgram_of s i fd = Some (x, d) \<longleftrightarrow> is_simulated (as_int fd) \<and>
     live (fds (rep s i)) (as_int fd) = Some x \<and> objects s x = Some (Dgram_obj d)"
  by (auto simp: dgram_of_def split: option.splits object.splits)

lemma get_fd_objects: "get_fd i fd s = (x, s1) \<Longrightarrow> objects s1 = objects s"
  by (auto simp: get_fd_def case_prod_beta Let_def)

lemma send_to_effect:
  assumes "send_to e rd len dst s = Done r s'" and "rd (unat len) = (0, data)"
  shows "case binding (alive s) (sim_net s) dst of
      None \<Rightarrow> objects s' = objects s
    | Some y \<Rightarrow>
       (case objects s y of
          Some (Dgram_obj d) \<Rightarrow> \<exists>d'. deliver e data null_addr d = Some (Inr d') \<and>
            objects s' = (objects s)(y \<mapsto> Dgram_obj d')
        | _ \<Rightarrow> objects s' = objects s)"
proof -
  obtain net' where n: "net_get (alive s) dst (sim_net s) = (binding (alive s) (sim_net s) dst, net')"
    using net.get_lookup by blast
  show ?thesis
  proof (cases "binding (alive s) (sim_net s) dst")
    case None
    then show ?thesis using assms n by (auto simp: send_to_def Let_def)
  next
    case (Some y)
    then show ?thesis using assms n
      by (auto simp: send_to_def Let_def split: option.splits object.splits sum.splits if_splits)
  qed
qed

lemma sendto_effect:
  assumes "run_hook Sys_sendto e i a s = Done r s'"
  shows "case transmitted e i a s of
      None \<Rightarrow> objects s' = objects s
    | Some (y, data) \<Rightarrow> \<exists>d d'. objects s y = Some (Dgram_obj d) \<and> deliver e data null_addr d = Some (Inr d') \<and>
        objects s' = (objects s)(y \<mapsto> Dgram_obj d')"
proof -
  obtain fd buf len fl p plen where a: "a = (fd, buf, len, fl, p, plen)" by (cases a)
  have run: "sys_sendto e i (fd, buf, len, fl, p, plen) s = Done r s'"
    using assms a by (simp add: run_hook_def)
  show ?thesis
  proof (cases "dgram_of s i fd")
    case None
    then have "objects s' = objects s"
      using run get_fd_live [of s i "as_int fd"] get_fd_dead [of s i "as_int fd"]
      by (auto simp: sys_sendto_def dgram_of_def split: if_splits sum.splits option.splits object.splits)
    then show ?thesis by (simp add: a transmitted_def None)
  next
    case (Some xd)
    obtain x d where x: "is_simulated (as_int fd)" "live (fds (rep s i)) (as_int fd) = Some x"
      "objects s x = Some (Dgram_obj d)"
      using Some by (cases xd) (auto simp: dgram_of_Some)
    show ?thesis
    proof (cases "parse_addr e (mem (rep s i)) p plen")
      case (Inl err)
      then have "objects s' = objects s" "transmitted e i a s = None"
        using run x by (auto simp: sys_sendto_def a transmitted_def split: option.splits)
      then show ?thesis by simp
    next
      case (Inr dst)
      let ?rd = "\<lambda>n. let (res, data, _) = store_fragment e (mem (rep s i)) buf n in (res, data)"
      obtain r' where send: "send_to e ?rd len dst s = Done r' s'"
        using run x Inr by (auto simp: sys_sendto_def get_fd_live split: outcome.splits)
      have "?rd (unat len) = (0, snd (read_memory (kernel e) buf (unat len) (mem (rep s i))))"
        by (simp add: store_fragment_def read_memory_def)
      from send_to_effect [OF send this] show ?thesis
        using Some Inr by (auto simp: a transmitted_def split: option.splits object.splits)
    qed
  qed
qed

lemma recvfrom_effect:
  assumes "run_hook Sys_recvfrom e i (fd, buf, n, rest) s = Done r s'"
  shows "case received e i (fd, buf, n, rest) s of
      None \<Rightarrow> objects s' = objects s
    | Some (y, data, addr) \<Rightarrow> \<exists>d p. objects s y = Some (Dgram_obj d) \<and>
        pipe_recv (clock e) (inbound d) = Done (data, addr) p \<and>
        objects s' = (objects s)(y \<mapsto> Dgram_obj (d\<lparr>inbound := p\<rparr>)) \<and>
        r = handled (int (length (take (unat n) data))) \<and>
        (i < length (replicas s) \<longrightarrow>
           mem (rep s' i) = snd (write_memory (kernel e) buf (take (unat n) data) (mem (rep s i))))"
proof -
  have run: "sys_recvfrom e i (fd, buf, n, rest) s = Done r s'"
    using assms by (simp add: run_hook_def)
  show ?thesis
  proof (cases "dgram_of s i fd")
    case None
    then have "objects s' = objects s"
      using run get_fd_live [of s i "as_int fd"] get_fd_dead [of s i "as_int fd"]
      by (cases rest) (auto simp: sys_recvfrom_def dgram_of_def split: if_splits sum.splits option.splits object.splits)
    then show ?thesis by (simp add: received_def None)
  next
    case (Some xd)
    obtain x d where x: "is_simulated (as_int fd)" "live (fds (rep s i)) (as_int fd) = Some x"
      "objects s x = Some (Dgram_obj d)" "dgram_of s i fd = Some (x, d)"
      using Some by (cases xd) (auto simp: dgram_of_Some)
    show ?thesis
      using run x
      by (cases rest) (auto simp: sys_recvfrom_def received_def get_fd_live recv_from_def load_fragment_def Let_def nth_update
          case_prod_beta split: outcome.splits if_splits)
  qed
qed

text \<open>The other calls touch no queue; a new datagram socket has an empty one.\<close>

definition quiet_change :: "'m sim \<Rightarrow> 'm sim \<Rightarrow> bool" where
  "quiet_change s s' \<longleftrightarrow> (\<forall>y d. objects s' y = Some (Dgram_obj d) \<longrightarrow> objects s y = Some (Dgram_obj d) \<or>
     y = next_object s \<and> inbound d = pipe_init (net_faults (sim_options s))\<lparr>pipe_rng := pipe_rng (inbound d)\<rparr>)"

lemma quiet_objects: "objects s' = objects s \<Longrightarrow> quiet_change s s'"
  by (simp add: quiet_change_def)

lemma make_socket_quiet: "make_socket af ty s = Some (x, s1) \<Longrightarrow> objects s' = objects s1 \<Longrightarrow> quiet_change s s'"
  by (auto simp: make_socket_def quiet_change_def new_object_def datagram_socket_new_def pipe_seed_def
      case_prod_beta Let_def split: if_splits)

lemma connect_quiet:
  assumes "objects t = objects s"
  shows "quiet_change s (set_object x (Stream_obj ss) (t\<lparr>sim_net := n\<rparr>))"
  using assms by (simp add: quiet_change_def)

lemma other_calls_quiet:
  assumes "run_hook h e i a s = Done r s'" and "h \<noteq> Sys_sendto" and "h \<noteq> Sys_recvfrom"
  shows "quiet_change s s'"
proof (cases h)
  case Sys_socket
  then show ?thesis using assms(1)
    by (auto simp: run_hook_def sys_socket_def quiet_objects split: prod.splits sum.splits option.splits if_splits
        intro: make_socket_quiet)
next
  case Sys_connect
  then show ?thesis using assms(1) unfolding sys_connect_def
    by (auto simp: run_hook_def sys_connect_def Let_def case_prod_beta
        split: prod.splits option.splits object.splits sum.splits if_splits
        dest!: get_fd_objects intro: connect_quiet quiet_objects)
next
  case Sys_write
  then have "objects s' = objects s" using assms(1)
    by (auto simp: run_hook_def sys_write_def fd_write_def Let_def case_prod_beta
        split: prod.splits option.splits object.splits if_splits dest!: get_fd_objects)
  then show ?thesis by (rule quiet_objects)
next
  case Sys_bind
  then have "objects s' = objects s" using assms(1)
    by (auto simp: run_hook_def sys_bind_def Let_def case_prod_beta
        split: prod.splits option.splits sum.splits if_splits dest!: get_fd_objects)
  then show ?thesis by (rule quiet_objects)
qed (use assms in \<open>auto simp: run_hook_def sys_read_def fd_read_def sys_close_def sys_clock_gettime_def
      sys_clock_nanosleep_def Let_def intro!: quiet_objects dest!: get_fd_objects
      split: prod.splits option.splits sum.splits if_splits\<close>)

lemma micro_next: "micro e i s s' \<Longrightarrow> next_object s \<le> next_object s'"
  by (induction rule: micro.induct) (auto simp: make_socket_simps)

lemma run_hook_next:
  assumes "run_hook h e i a s = Done r s'"
  shows "next_object s \<le> next_object s'"
  using run_hook_evolves [OF assms]
proof (induction rule: rtranclp_induct)
  case (step t u)
  then show ?case using micro_next [of e i t u] by simp
qed simp

section \<open>The history of a socket\<close>

abbreviation new_pipe :: "options \<Rightarrow> xoshiro \<Rightarrow> datagram_pipe" where
  "new_pipe opts r \<equiv> pipe_init (net_faults opts)\<lparr>pipe_rng := r\<rparr>"

text \<open>Every datagram socket has the history of its events, and no event is of a socket to come.\<close>

definition histories :: "(rat \<Rightarrow> xoshiro \<Rightarrow> bool \<times> xoshiro) \<Rightarrow> options \<Rightarrow> 'm call list \<Rightarrow> 'm sim \<Rightarrow> bool" where
  "histories b opts cs s \<longleftrightarrow>
     (\<forall>y d. objects s y = Some (Dgram_obj d) \<longrightarrow>
        (\<exists>r. pipe_trace b (new_pipe opts r) (socket_events y cs) (inbound d))) \<and>
     (\<forall>y \<ge> next_object s. socket_events y cs = [])"

lemma histories_dgram:
  assumes "histories b opts cs s" and "objects s y = Some (Dgram_obj d)"
  obtains r where "pipe_trace b (new_pipe opts r) (socket_events y cs) (inbound d)"
  using assms unfolding histories_def by blast

lemma histories_cong:
  "histories b opts cs s \<Longrightarrow> objects s' = objects s \<Longrightarrow> next_object s' = next_object s \<Longrightarrow> histories b opts cs s'"
  by (simp add: histories_def)

lemma transmitted_object:
  "transmitted e i a s = Some (y, data) \<Longrightarrow> \<exists>d. objects s y = Some (Dgram_obj d)"
  by (cases a) (auto simp: transmitted_def split: option.splits sum.splits object.splits)

lemma received_object:
  "received e i a s = Some (y, data, addr) \<Longrightarrow> \<exists>d. objects s y = Some (Dgram_obj d)"
  by (cases a) (auto simp: received_def dgram_of_Some split: option.splits outcome.splits)

lemma call_event_object:
  assumes "call_event y c \<noteq> []"
  shows "\<exists>d. objects (before c) y = Some (Dgram_obj d)"
  using assms by (auto simp: call_event_def sent_in_def received_in_def
      dest: transmitted_object received_object split: option.splits if_splits)

lemma deliver_pipe_send:
  "deliver e data addr d = Some (Inr d') \<Longrightarrow>
   pipe_send (bern e) (clock e) data addr (inbound d) = Some (Inr (inbound d'))"
  by (auto simp: deliver_def split: option.splits sum.splits)

text \<open>A call extends the history of each socket that stays by the events of the call.\<close>

lemma call_extends:
  assumes "run_hook h e i a s = Done r s'" and "valid_time (clock e)"
    and c: "c = \<lparr>call_env = e, caller = i, call_hook = h, call_args = a, before = s, after = s'\<rparr>"
    and tr: "\<And>d. objects s y = Some (Dgram_obj d) \<Longrightarrow> pipe_trace (bern e) p0 es (inbound d)"
    and ob: "objects s y = Some (Dgram_obj d)" "objects s' y = Some (Dgram_obj d')" "y < next_object s"
  shows "pipe_trace (bern e) p0 (es @ call_event y c) (inbound d')"
proof -
  consider "h = Sys_sendto" | "h = Sys_recvfrom" | "h \<noteq> Sys_sendto" "h \<noteq> Sys_recvfrom" by blast
  then show ?thesis
  proof cases
    case 1
    then have ev: "call_event y c = (case transmitted e i a s of
        Some (x, data) \<Rightarrow> if x = y then [Sent (clock e) data null_addr] else [] | None \<Rightarrow> [])"
      by (auto simp: call_event_def sent_in_def received_in_def c split: option.splits)
    have eff: "case transmitted e i a s of None \<Rightarrow> objects s' = objects s
      | Some (y, data) \<Rightarrow> \<exists>d d'. objects s y = Some (Dgram_obj d) \<and> deliver e data null_addr d = Some (Inr d') \<and>
          objects s' = (objects s)(y \<mapsto> Dgram_obj d')"
      using sendto_effect [of e i a s r s'] assms(1) 1 by simp
    show ?thesis
    proof (cases "transmitted e i a s")
      case None
      then show ?thesis using ev eff tr ob by simp
    next
      case (Some xd)
      obtain x data where xd: "xd = (x, data)" by (cases xd)
      show ?thesis
      proof (cases "x = y")
        case True
        then have "pipe_send (bern e) (clock e) data null_addr (inbound d) = Some (Inr (inbound d'))"
          using eff Some xd ob by (auto dest: deliver_pipe_send)
        from pipe_trace.send [OF tr [OF ob(1)] assms(2) this] show ?thesis using ev Some xd True by simp
      next
        case False
        then show ?thesis using ev eff Some xd tr ob by auto
      qed
    qed
  next
    case 2
    obtain fd buf n rest where a: "a = (fd, buf, n, rest)" by (cases a)
    from 2 have ev: "call_event y c = (case received e i a s of
        Some (x, data, addr) \<Rightarrow> if x = y then [Received (clock e) data addr] else [] | None \<Rightarrow> [])"
      by (auto simp: call_event_def sent_in_def received_in_def c split: option.splits)
    note eff = recvfrom_effect [of e i fd buf n rest s r s', folded a, OF assms(1) [unfolded 2]]
    show ?thesis
    proof (cases "received e i a s")
      case None
      then show ?thesis using ev eff tr ob by simp
    next
      case (Some xd)
      obtain x data addr where xd: "xd = (x, data, addr)" by (cases xd) auto
      show ?thesis
      proof (cases "x = y")
        case True
        then have "pipe_recv (clock e) (inbound d) = Done (data, addr) (inbound d')"
          using eff Some xd ob by auto
        from pipe_trace.recv [OF tr [OF ob(1)] this] show ?thesis using ev Some xd True by simp
      next
        case False
        then show ?thesis using ev eff Some xd tr ob by auto
      qed
    qed
  next
    case 3
    then have "call_event y c = []" by (simp add: call_event_def sent_in_def received_in_def c)
    moreover have "objects s y = Some (Dgram_obj d')"
      using other_calls_quiet [OF assms(1) 3] ob(2,3) unfolding quiet_change_def by fastforce
    ultimately show ?thesis using tr ob by simp
  qed
qed

lemma dgram_before:
  assumes "run_hook h e i a s = Done r s'" and "objects s' y = Some (Dgram_obj d')"
  shows "(\<exists>d. objects s y = Some (Dgram_obj d)) \<or>
    y = next_object s \<and> inbound d' = new_pipe (sim_options s) (pipe_rng (inbound d'))"
proof -
  consider "h = Sys_sendto" | "h = Sys_recvfrom" | "h \<noteq> Sys_sendto" "h \<noteq> Sys_recvfrom" by blast
  then show ?thesis
  proof cases
    case 1
    with sendto_effect [of e i a s r s'] assms show ?thesis by (auto split: option.splits if_splits)
  next
    case 2
    obtain fd buf n rest where "a = (fd, buf, n, rest)" by (cases a)
    with 2 recvfrom_effect [of e i fd buf n rest s r s'] assms show ?thesis
      by (auto split: option.splits if_splits)
  next
    case 3
    with other_calls_quiet [OF assms(1)] assms(2) show ?thesis unfolding quiet_change_def by blast
  qed
qed

lemma call_histories:
  assumes "histories b opts cs s" and "sim_ok s" and "sim_options s = opts"
    and "valid_time (clock e)" and "bern e = b" and run: "run_hook h e i a s = Done r s'"
    and c: "c = \<lparr>call_env = e, caller = i, call_hook = h, call_args = a, before = s, after = s'\<rparr>"
  shows "histories b opts (cs @ [c]) s'"
proof -
  have fresh: "objects s y = None" if "next_object s \<le> y" for y
  proof (cases "objects s y")
    case (Some ob)
    then have "y < next_object s" using assms(2) unfolding sim_ok_def by blast
    then show ?thesis using that by simp
  qed simp
  have none: "call_event y c = []" if "next_object s \<le> y" for y
    using call_event_object [of y c] fresh [OF that] by (auto simp: c)
  have "\<exists>r. pipe_trace b (new_pipe opts r) (socket_events y (cs @ [c])) (inbound d')"
    if d': "objects s' y = Some (Dgram_obj d')" for y d'
  proof (cases "\<exists>d. objects s y = Some (Dgram_obj d)")
    case True
    then obtain d where d: "objects s y = Some (Dgram_obj d)" ..
    obtain r0 where tr: "pipe_trace b (new_pipe opts r0) (socket_events y cs) (inbound d)"
      by (rule histories_dgram [OF assms(1) d])
    have "y < next_object s" using fresh [of y] d by (cases "y < next_object s") simp_all
    from call_extends [OF run assms(4) c _ d d' this] tr d assms(5) show ?thesis by auto
  next
    case False
    with dgram_before [OF run d'] have y: "y = next_object s" "inbound d' = new_pipe opts (pipe_rng (inbound d'))"
      using assms(3) by auto
    then have "socket_events y (cs @ [c]) = []" using assms(1) none [of y] by (simp add: histories_def)
    then show ?thesis using y(2) pipe_trace.start [of b "inbound d'"] by (intro exI [of _ "pipe_rng (inbound d')"]) simp
  qed
  moreover have "socket_events y (cs @ [c]) = []" if "next_object s' \<le> y" for y
  proof -
    have "next_object s \<le> y" using run_hook_next [OF run] that by simp
    then show ?thesis using assms(1) none [of y] by (simp add: histories_def)
  qed
  ultimately show ?thesis by (simp add: histories_def)
qed

lemma run_reachable: "sim_run b opts cs s \<Longrightarrow> reachable opts s"
  by (induction rule: sim_run.induct) (auto intro: reachable.intros)

lemma run_histories:
  assumes "sim_run b opts cs s" and "valid_faults (net_faults opts)"
  shows "histories b opts cs s"
  using assms(1)
proof (induction rule: sim_run.induct)
  case boot
  show ?case by (simp add: histories_def sim_init_def)
next
  case (start cs s m now)
  then show ?case by (elim histories_cong) (simp_all add: machine_start_def)
next
  case (compute cs s i m)
  show ?case by (rule histories_cong [OF compute.IH]) simp_all
next
  case (call cs s i e h a r s')
  have "sim_ok s \<and> sim_options s = opts"
    using reachable_sim_ok [OF run_reachable [OF call.hyps(1)] assms(2)] .
  with call show ?case by (intro call_histories) auto
qed

lemma run_at_call:
  assumes "sim_run b opts cs s" and "cs = pre @ c # post"
  shows "sim_run b opts pre (before c) \<and> caller c < length (replicas (before c)) \<and>
    valid_time (clock (call_env c)) \<and> bern (call_env c) = b \<and>
    (\<exists>r. run_hook (call_hook c) (call_env c) (caller c) (call_args c) (before c) = Done r (after c))"
  using assms
proof (induction arbitrary: post rule: sim_run.induct)
  case (call cs s i e h a r s')
  then show ?case by (cases post rule: rev_cases) auto
qed auto

lemma sent_event:
  assumes "Sent t data addr \<in> set (socket_events y cs)"
  shows "\<exists>c \<in> set cs. sent_in c = Some (y, data) \<and> clock (call_env c) = t \<and> addr = null_addr"
  using assms by (auto simp: socket_events_def call_event_def split: option.splits if_splits)

section \<open>Properties\<close>

text \<open>C5: In every run of a simulation, whatever the guests compute and call and in whatever order, the
  calls that name a datagram socket form a history of its pipe: the sendto calls whose destination
  it has and the recvfrom calls on its descriptor are the transmissions and receptions, and no
  other call touches its queue.\<close>

theorem sockets_have_pipe_histories:
  assumes "valid_faults (net_faults opts)" and "sim_run b opts cs s" and "objects s y = Some (Dgram_obj d)"
  shows "\<exists>r. pipe_trace b (pipe_init (net_faults opts)\<lparr>pipe_rng := r\<rparr>) (socket_events y cs) (inbound d)"
  using run_histories [OF assms(2,1)] assms(3) by (simp add: histories_def)

text \<open>C4: What a guest receives another guest sent: every recvfrom that returns a datagram has an earlier
  sendto, at least the minimal latency before, whose destination was the name of the same socket
  and whose bytes, read from the memory of its caller at that time, are the datagram; recvfrom
  writes them, truncated to the buffer, to the memory of its caller, and reports no sender.\<close>

theorem guests_receive_what_was_sent:
  assumes "valid_faults (net_faults opts)" and "sim_run b opts cs s" and "cs = pre @ c # post"
    and "received_in c = Some (y, data, addr)" and "call_args c = (fd, buf, n, rest)"
  shows "addr = null_addr \<and> (\<exists>c0 \<in> set pre. sent_in c0 = Some (y, data) \<and>
      clock (call_env c0) + min_latency (net_faults opts) \<le> clock (call_env c)) \<and>
    mem (rep (after c) (caller c)) =
      snd (write_memory (kernel (call_env c)) buf (take (unat n) data) (mem (rep (before c) (caller c))))"
proof -
  note at = run_at_call [OF assms(2,3)]
  have hook: "call_hook c = Sys_recvfrom" "received (call_env c) (caller c) (fd, buf, n, rest) (before c) = Some (y, data, addr)"
    using assms(4,5) by (auto simp: received_in_def split: if_splits)
  from at hook(1) assms(5) obtain r where
    "run_hook Sys_recvfrom (call_env c) (caller c) (fd, buf, n, rest) (before c) = Done r (after c)" by auto
  from recvfrom_effect [OF this] hook(2) at obtain d p where
    d: "objects (before c) y = Some (Dgram_obj d)" "pipe_recv (clock (call_env c)) (inbound d) = Done (data, addr) p"
    and m: "mem (rep (after c) (caller c)) =
      snd (write_memory (kernel (call_env c)) buf (take (unat n) data) (mem (rep (before c) (caller c))))"
    by auto
  obtain r0 where tr: "pipe_trace b (new_pipe opts r0) (socket_events y pre) (inbound d)"
    by (rule histories_dgram [OF run_histories [OF conjunct1 [OF at] assms(1)] d(1)])
  have "traced (net_faults opts) [] (new_pipe opts r0)" using assms(1) by (simp add: traced_def pipe_ok_init)
  from trace_traced [OF pipe_trace.recv [OF tr d(2)] this] obtain t0 where
    "Sent t0 data addr \<in> set (socket_events y pre)" "t0 + min_latency (net_faults opts) \<le> clock (call_env c)"
    by (auto simp: traced_def)
  with sent_event [OF this(1)] m show ?thesis by auto
qed

text \<open>C6: On links without losses and replays every datagram is received exactly once or still queued:
  at any moment of any run, what was received through a socket and what is queued at it are
  together what was sent to its names.\<close>

theorem guests_exactly_once:
  assumes "valid_faults (net_faults opts)" and "sim_run b opts cs s" and "objects s y = Some (Dgram_obj d)"
    and "p_replay (net_faults opts) = 0" and "p_drop (net_faults opts) = 0" and "\<And>r. \<not> fst (b 0 r)"
  shows "received_msgs (socket_events y cs) + queued_msgs (inbound d) = sent_msgs (socket_events y cs)"
proof -
  obtain r0 where tr: "pipe_trace b (new_pipe opts r0) (socket_events y cs) (inbound d)"
    by (rule histories_dgram [OF run_histories [OF assms(2,1)] assms(3)])
  from trace_exact [OF tr pipe_ok_init [OF assms(1)]] assms(4-6) show ?thesis by simp
qed

section \<open>A guest that sends to itself\<close>

definition echo_start :: "flat sim" where
  "echo_start = machine_start example_memory 0 (sim_init (default_options 0))"

definition echo_fds :: "nat fd_table" where
  "echo_fds = \<lparr>table = fmupd 0x40000000 (Some 0) fmempty, unused = []\<rparr>"

text \<open>The guest has its socket at the first descriptor; \<open>d\<close> is the socket.\<close>

definition echo_host :: "flat sim \<Rightarrow> datagram_socket \<Rightarrow> bool" where
  "echo_host s d \<longleftrightarrow> length (replicas s) = 1 \<and> fds (rep s 0) = echo_fds \<and> mem (rep s 0) = example_memory \<and>
     objects s 0 = Some (Dgram_obj d) \<and> pipe_ok (inbound d) \<and> faults (inbound d) = default_faults \<and>
     packets (inbound d) = []"

lemma echo_live: "echo_host s d \<Longrightarrow> live (fds (rep s 0)) 0x40000000 = Some 0"
  by (simp add: echo_host_def echo_fds_def live_def)

lemma echo_alive: "echo_host s d \<Longrightarrow> alive s 0"
  using alive_held [of 0 s "0x40000000" 0] echo_live [of s d] by (simp add: echo_host_def)

lemma echo_socket:
  "\<exists>s1 d. run_hook Sys_socket test_env 0 (2, 2, 0, 0, 0, 0) echo_start = Done (handled 0x40000000) s1 \<and>
     echo_host s1 d \<and> sim_net s1 = network_init"
proof -
  let ?d = "fst (datagram_socket_new Ipv4 (default_options 0) (sim_rng echo_start))"
  have st: "sim_options echo_start = default_options 0" "next_object echo_start = 0" "sim_net echo_start = network_init"
    "replicas echo_start = [replica_new example_memory 0]"
    by (simp_all add: echo_start_def machine_start_def sim_init_def)
  obtain s1 where mk: "make_socket Ipv4 2 echo_start = Some (0, s1)" "objects s1 0 = Some (Dgram_obj ?d)"
    "replicas s1 = replicas echo_start" "sim_net s1 = network_init"
    using st by (auto simp: make_socket_def new_object_def case_prod_beta Let_def)
  have ins: "fd_insert True 0 fd_table_init = Inr (0x40000000, echo_fds)"
    by (simp add: fd_eval echo_fds_def)
  have run: "run_hook Sys_socket test_env 0 (2, 2, 0, 0, 0, 0) echo_start =
      Done (handled (sint (0x40000000 :: u32))) (set_fds 0 echo_fds s1)"
    using mk st ins by (simp add: run_hook_def sys_socket_def socket_domain_def replica_new_def)
  have "pipe_ok (inbound ?d)" "faults (inbound ?d) = default_faults" "packets (inbound ?d) = []"
    using pipe_ok_init [OF valid_default]
    by (simp_all add: datagram_socket_new_def pipe_seed_def case_prod_beta default_options_def)
  then have "echo_host (set_fds 0 echo_fds s1) ?d"
    using mk st by (simp add: echo_host_def replica_new_def)
  with run mk(4) show ?thesis by (intro exI [of _ "set_fds 0 echo_fds s1"] exI [of _ ?d]) simp
qed

lemma echo_bind:
  assumes "echo_host s d" and "sim_net s = network_init"
  shows "\<exists>s'. run_hook Sys_bind test_env 0 (0x40000000, 64, 8, 0, 0, 0) s = Done (handled 0) s' \<and>
    echo_host s' d \<and> fmlookup (addr_map (sim_net s')) example_addr = Some (Some 0)"
proof -
  let ?s = "s\<lparr>sim_net := snd (net_bind (alive s) example_addr 0 (sim_net s))\<rparr>"
  have "run_hook Sys_bind test_env 0 (0x40000000, 64, 8, 0, 0, 0) s = Done (handled 0) ?s"
    using assms echo_live [OF assms(1)] example_parse example_simulated
    by (simp add: run_hook_def sys_bind_def get_fd_live echo_host_def is_socket_def net_defs network_init_def
        Let_def)
  moreover have "echo_host ?s d" using assms(1) by (simp add: echo_host_def)
  moreover have "fmlookup (addr_map (sim_net ?s)) example_addr = Some (Some 0)"
    using assms(2) by (simp add: net_defs network_init_def)
  ultimately show ?thesis by blast
qed

lemma echo_send:
  assumes "echo_host s d" and "fmlookup (addr_map (sim_net s)) example_addr = Some (Some 0)"
  shows "\<exists>p pipe. run_hook Sys_sendto test_env 0 (0x40000000, 72, 2, 0, 64, 8) s =
      Done (handled 2) (set_object 0 (Dgram_obj (d\<lparr>inbound := pipe\<rparr>)) s) \<and>
    packets pipe = push_all [p] [] \<and> payload p = [104, 105] \<and> sender p = null_addr \<and> arrival p \<le> 0"
proof -
  have d: "pipe_ok (inbound d)" "faults (inbound d) = default_faults" "packets (inbound d) = []"
    using assms(1) by (simp_all add: echo_host_def)
  have t: "valid_time (clock test_env)" by (simp add: valid_time_def)
  have pre: "p_replay (faults (inbound d)) = 0" "\<not> fst (bern test_env (p_drop (faults (inbound d))) r)" for r
    using no_drop_default by (simp_all add: d(2)) (simp add: default_faults_def)
  obtain p r where del: "deliver test_env [104, 105] null_addr d = Some (Inr (d\<lparr>inbound := (inbound d)
       \<lparr>packets := push_all [p] (packets (inbound d)), pipe_rng := r\<rparr>\<rparr>))"
    and "original (clock test_env) (faults (inbound d)) [104, 105] null_addr p"
    by (rule deliver_no_faults [OF d(1) t pre])
  then have p: "original 0 default_faults [104, 105] null_addr p" by (simp add: d(2))
  have "guest_bytes example_memory 72 [104, 105]"
    by (simp add: guest_bytes_def example_memory_def memory_with_def mapped_def region_def upt_rec)
  moreover have two: "unat (2 :: u64) = length [104, 105 :: u8]" by simp
  ultimately have read: "read_memory flat_ops 72 (unat (2 :: u64)) example_memory = (0, [104, 105])"
    using read_guest_bytes [of example_memory 72 "[104, 105]"] unfolding two by simp
  have host: "live (fds (rep s 0)) (as_int 0x40000000) = Some 0" "alive s 0" "mem (rep s 0) = example_memory"
    "objects s 0 = Some (Dgram_obj d)"
    using echo_live [OF assms(1)] echo_alive [OF assms(1)] assms(1) by (simp_all add: echo_host_def)
  have "sys_sendto test_env 0 (0x40000000, 72, 2, 0, 64, 8) s = Done (handled (to_i64 2))
      (set_object 0 (Dgram_obj (d\<lparr>inbound := (inbound d)
         \<lparr>packets := push_all [p] (packets (inbound d)), pipe_rng := r\<rparr>\<rparr>)) s)"
    using host example_parse read
    by (intro sendto_step [OF example_simulated host(1,4) _ assms(2) host(2,4) _ _ del]) simp_all
  then show ?thesis
    using p d(3) by (intro exI [of _ p] exI [of _ "(inbound d)\<lparr>packets := push_all [p] (packets (inbound d)), pipe_rng := r\<rparr>"])
      (simp add: run_hook_def original_def default_faults_def to_i64_def)
qed

lemma echo_receive:
  assumes "echo_host s d" and "packets pipe = push_all [p] []" and "arrival p \<le> 0"
    and "s' = set_object 0 (Dgram_obj (d\<lparr>inbound := pipe\<rparr>)) s"
  shows "\<exists>s2 d2. run_hook Sys_recvfrom test_env 0 (0x40000000, 200, 1, 0, 0, 0) s' =
      Done (handled (int (length (take 1 (payload p))))) s2 \<and> objects s2 0 = Some (Dgram_obj d2) \<and>
    received test_env 0 (0x40000000, 200, 1, 0, 0, 0) s' = Some (0, payload p, sender p)"
proof -
  let ?d = "d\<lparr>inbound := pipe\<rparr>"
  have host: "live (fds (rep s' 0)) (as_int 0x40000000) = Some 0" "objects s' 0 = Some (Dgram_obj ?d)"
    "mem (rep s' 0) = example_memory"
    using echo_live [OF assms(1)] assms(1,4) by (simp_all add: echo_host_def)
  let ?m = "snd (write_memory flat_ops 200 (take 1 (payload p)) (mem (rep s' 0)))"
  let ?d2 = "?d\<lparr>inbound := (inbound ?d)\<lparr>packets := []\<rparr>\<rparr>"
  have "recv_from test_env (\<lambda>data m. write_memory (kernel test_env) 200 data m) (unat (1 :: u64)) ?d (mem (rep s' 0)) =
      Done (int (length (take 1 (payload p))), sender p) (?d2, ?m)"
    using recv_single [of ?d p test_env _ "unat (1 :: u64)" "mem (rep s' 0)"] assms(2,3) by simp
  from recvfrom_step [OF example_simulated host(1,2) this, of "(0, 0, 0)"]
  have run: "run_hook Sys_recvfrom test_env 0 (0x40000000, 200, 1, 0, 0, 0) s' =
      Done (handled (int (length (take 1 (payload p))))) (set_mem 0 ?m (set_object 0 (Dgram_obj ?d2) s'))"
    by (simp add: run_hook_def)
  have "packets pipe = [p]" using assms(2) by (simp add: push_all_def pq_push_def sift_up.simps)
  then have "pipe_recv 0 pipe = Done (payload p, sender p) (pipe\<lparr>packets := pq_pop arrival [p]\<rparr>)"
    using assms(3) by (simp add: pipe_recv_def pq_top_def)
  moreover have "dgram_of s' 0 0x40000000 = Some (0, ?d)"
    using host example_simulated by (simp add: dgram_of_Some)
  ultimately have "received test_env 0 (0x40000000, 200, 1, 0, 0, 0) s' = Some (0, payload p, sender p)"
    by (simp add: received_def)
  with run show ?thesis by auto
qed

text \<open>The guest makes a socket, binds it, sends two bytes to it and receives the first.\<close>

lemma echo_run:
  "\<exists>pre s d. \<exists>c :: flat call. sim_run (canonical_bernoulli xo_next) (default_options 0) (pre @ [c]) s \<and>
     received_in c = Some (0, [104, 105], null_addr) \<and> call_args c = (0x40000000, 200, 1, 0, 0, 0) \<and>
     objects s 0 = Some (Dgram_obj d)"
proof -
  let ?run = "sim_run (canonical_bernoulli xo_next) (default_options 0)"
  have step: "?run (cs @ [\<lparr>call_env = test_env, caller = 0, call_hook = h, call_args = a, before = s, after = s'\<rparr>]) s'"
    if "?run cs s" "length (replicas s) = 1" "run_hook h test_env 0 a s = Done r s'" for cs s h a r s'
    using sim_run.call [OF that(1) _ _ _ that(3)] that(2) by (simp add: valid_time_def)
  have r0: "?run [] echo_start" unfolding echo_start_def by (intro sim_run.start sim_run.boot)
  have len: "length (replicas echo_start) = 1" by (simp add: echo_start_def machine_start_def sim_init_def)
  obtain s1 d where s1: "run_hook Sys_socket test_env 0 (2, 2, 0, 0, 0, 0) echo_start = Done (handled 0x40000000) s1"
    "echo_host s1 d" "sim_net s1 = network_init"
    using echo_socket by blast
  obtain s2 where s2: "run_hook Sys_bind test_env 0 (0x40000000, 64, 8, 0, 0, 0) s1 = Done (handled 0) s2"
    "echo_host s2 d" "fmlookup (addr_map (sim_net s2)) example_addr = Some (Some 0)"
    using echo_bind [OF s1(2,3)] by blast
  obtain p pipe where s3: "run_hook Sys_sendto test_env 0 (0x40000000, 72, 2, 0, 64, 8) s2 =
      Done (handled 2) (set_object 0 (Dgram_obj (d\<lparr>inbound := pipe\<rparr>)) s2)"
    "packets pipe = push_all [p] []" "payload p = [104, 105]" "sender p = null_addr" "arrival p \<le> 0"
    using echo_send [OF s2(2,3)] by blast
  let ?s3 = "set_object 0 (Dgram_obj (d\<lparr>inbound := pipe\<rparr>)) s2"
  obtain s4 d4 where s4: "run_hook Sys_recvfrom test_env 0 (0x40000000, 200, 1, 0, 0, 0) ?s3 =
      Done (handled (int (length (take 1 (payload p))))) s4" "objects s4 0 = Some (Dgram_obj d4)"
    "received test_env 0 (0x40000000, 200, 1, 0, 0, 0) ?s3 = Some (0, payload p, sender p)"
    using echo_receive [OF s2(2) s3(2,5) refl] by blast
  have "length (replicas s1) = 1" "length (replicas s2) = 1" "length (replicas ?s3) = 1"
    using s1(2) s2(2) by (simp_all add: echo_host_def)
  note lens = this
  let ?c = "\<lparr>call_env = test_env, caller = 0, call_hook = Sys_recvfrom, call_args = (0x40000000, 200, 1, 0, 0, 0),
    before = ?s3, after = s4\<rparr>"
  obtain pre where "?run (pre @ [?c]) s4"
    using step [OF step [OF step [OF step [OF r0 len s1(1)] lens(1) s2(1)] lens(2) s3(1)] lens(3) s4(1)] by blast
  moreover have "received_in ?c = Some (0, [104, 105], null_addr)"
    using s4(3) s3(3,4) by (simp add: received_in_def)
  ultimately show ?thesis
    using s4(2) by (intro exI [of _ pre] exI [of _ s4] exI [of _ d4] exI [of _ ?c] conjI) simp_all
qed

section \<open>Witnesses\<close>

lemma echo_options:
  "valid_faults (net_faults (default_options 0))" "net_faults (default_options 0) = default_faults"
  "p_replay default_faults = 0" "p_drop default_faults = 0"
  using valid_default by (simp_all add: default_options_def default_faults_def)

theorem sockets_have_pipe_histories_witness:
  "\<exists>cs :: flat call list. \<exists>r pipe. cs \<noteq> [] \<and>
     pipe_trace (canonical_bernoulli xo_next) (new_pipe (default_options 0) r) (socket_events 0 cs) pipe"
  using echo_run sockets_have_pipe_histories [OF echo_options(1)] by (metis append_is_Nil_conv list.distinct(1))

theorem guests_receive_what_was_sent_witness:
  "\<exists>c0 :: flat call. \<exists>c :: flat call. received_in c = Some (0, [104, 105], null_addr) \<and> sent_in c0 = Some (0, [104, 105])"
proof -
  obtain pre and c :: "flat call" and s d where run: "sim_run (canonical_bernoulli xo_next) (default_options 0) (pre @ [c]) s"
    "received_in c = Some (0, [104, 105], null_addr)" "call_args c = (0x40000000, 200, 1, 0, 0, 0)"
    using echo_run by blast
  from guests_receive_what_was_sent [OF echo_options(1) run(1) refl run(2,3)] run(2) show ?thesis by blast
qed

theorem guests_exactly_once_witness:
  "\<exists>cs :: flat call list. \<exists>q. cs \<noteq> [] \<and> received_msgs (socket_events 0 cs) + q = sent_msgs (socket_events 0 cs)"
proof -
  obtain pre and c :: "flat call" and s d where run: "sim_run (canonical_bernoulli xo_next) (default_options 0) (pre @ [c]) s"
    "objects s 0 = Some (Dgram_obj d)"
    using echo_run by blast
  from guests_exactly_once [OF echo_options(1) run] no_drop_default echo_options(2-4) show ?thesis
    by (intro exI [of _ "pre @ [c]"] exI [of _ "queued_msgs (inbound d)"]) simp
qed

end
