(* ===== verification/Varint.thy ===== *)
theory Varint
  imports Prelude
begin

text \<open>
  The variable-length and big-endian integers of the database library, deps/sqlite3/sqlite3.c:
  putVarint64, sqlite3PutVarint, sqlite3GetVarint, sqlite3GetVarint32, sqlite3VarintLen,
  sqlite3Get4byte and sqlite3Put4byte. What is written is a list of bytes, what
  is read a function from offsets to bytes. The reader, which keeps the groups of seven bits in
  three 32-bit words, is proved equal to a reference that takes them one at a time.
\<close>

section \<open>Writing\<close>

lemma drop_bit_less: "drop_bit 7 v \<noteq> 0 \<Longrightarrow> unat (drop_bit 7 v) < unat (v :: u64)"
proof -
  assume "drop_bit 7 v \<noteq> 0"
  then have "0 < unat v" by (metis drop_bit_of_0 unat_0 unat_gt_0 neq0_conv unat_eq_zero)
  moreover have "unat (drop_bit 7 v) = unat v div 128" by (simp add: drop_bit_eq_div unat_div)
  ultimately show ?thesis by simp
qed

text \<open>The loop that puts the groups into a buffer, least significant first.\<close>

function varint_groups :: "u64 \<Rightarrow> bytes" where
  "varint_groups v =
     ucast ((v AND 0x7F) OR 0x80) # (if drop_bit 7 v \<noteq> 0 then varint_groups (drop_bit 7 v) else [])"
  by pat_completeness auto

termination by (relation "measure unat") (simp_all add: drop_bit_less)

declare varint_groups.simps [simp del]

definition put_varint64 :: "u64 \<Rightarrow> bytes" where
  "put_varint64 v =
     (if v AND push_bit 32 0xFF000000 \<noteq> 0 then
        map (\<lambda>i. ucast ((drop_bit (7 * (7 - i)) (drop_bit 8 v) AND 0x7F) OR 0x80)) [0..<8] @ [ucast v]
      else (let buf = varint_groups v in rev (buf[0 := buf ! 0 AND 0x7F])))"

definition put_varint :: "u64 \<Rightarrow> bytes" where
  "put_varint v =
     (if v \<le> 0x7F then [ucast (v AND 0x7F)]
      else if v \<le> 0x3FFF then
        [ucast ((drop_bit 7 v AND 0x7F) OR 0x80), ucast (v AND 0x7F)]
      else put_varint64 v)"

text \<open>The loop of sqlite3VarintLen.\<close>

function varint_len_loop :: "u64 \<Rightarrow> nat \<Rightarrow> nat" where
  "varint_len_loop v i = (if drop_bit 7 v \<noteq> 0 then varint_len_loop (drop_bit 7 v) (i + 1) else i)"
  by pat_completeness auto
termination by (relation "measure (\<lambda>(v, i). unat v)") (simp_all add: drop_bit_less)

declare varint_len_loop.simps [simp del]

definition varint_len :: "u64 \<Rightarrow> nat" where
  "varint_len v = varint_len_loop v 1"

section \<open>Reading\<close>

definition slot_2_0 :: u32 where "slot_2_0 = 0x001FC07F"
definition slot_4_2_0 :: u32 where "slot_4_2_0 = 0xF01FC07F"

text \<open>The value made of the saved high part and the low word.\<close>

definition joined :: "u32 \<Rightarrow> u32 \<Rightarrow> u64" where
  "joined s a = push_bit 32 (ucast s) OR ucast a"

definition get_varint :: "(nat \<Rightarrow> u8) \<Rightarrow> nat \<times> u64" where
  "get_varint p =
     (if \<not> bit (p 0) 7 then (1, ucast (p 0))
      else if \<not> bit (p 1) 7 then (2, ucast (push_bit 7 (ucast (p 0 AND 0x7F) :: u32) OR ucast (p 1)))
      else
       (let a = push_bit 14 (ucast (p 0)) OR ucast (p 2) :: u32; b = ucast (p 1) :: u32
        in if a AND 0x80 = 0 then
             (let a = a AND slot_2_0; b = push_bit 7 (b AND 0x7F) in (3, ucast (a OR b)))
           else
        (let a = a AND slot_2_0; b = push_bit 14 b OR ucast (p 3)
        in if b AND 0x80 = 0 then
             (let b = b AND slot_2_0; a = push_bit 7 a in (4, ucast (a OR b)))
           else
        (let b = b AND slot_2_0; s = a; a = push_bit 14 a OR ucast (p 4)
        in if a AND 0x80 = 0 then
             (let b = push_bit 7 b; a = a OR b; s = drop_bit 18 s in (5, joined s a))
           else
        (let s = push_bit 7 s OR b; b = push_bit 14 b OR ucast (p 5)
        in if b AND 0x80 = 0 then
             (let a = push_bit 7 (a AND slot_2_0) OR b; s = drop_bit 18 s in (6, joined s a))
           else
        (let a = push_bit 14 a OR ucast (p 6)
        in if a AND 0x80 = 0 then
             (let a = a AND slot_4_2_0; b = push_bit 7 (b AND slot_2_0); a = a OR b; s = drop_bit 11 s
              in (7, joined s a))
           else
        (let a = a AND slot_2_0; b = push_bit 14 b OR ucast (p 7)
        in if b AND 0x80 = 0 then
             (let b = b AND slot_4_2_0; a = push_bit 7 a OR b; s = drop_bit 4 s in (8, joined s a))
           else
        (let a = push_bit 15 a OR ucast (p 8); b = push_bit 8 (b AND slot_2_0); a = a OR b;
             s = push_bit 4 s; b = drop_bit 3 (ucast (p 4) AND 0x7F); s = s OR b
         in (9, joined s a)))))))))"

text \<open>The value saturates when it needs more than 32 bits; the first byte has its high bit set.\<close>

definition get_varint32 :: "bool \<Rightarrow> (nat \<Rightarrow> u8) \<Rightarrow> trap + nat \<times> u32" where
  "get_varint32 nd p =
     (if \<not> asserts nd (p 0 AND 0x80 \<noteq> 0) then Inl Assert_failed
      else if p 1 AND 0x80 = 0 then
        Inr (2, push_bit 7 (ucast (p 0 AND 0x7F)) OR ucast (p 1))
      else if p 2 AND 0x80 = 0 then
        Inr (3, push_bit 14 (ucast (p 0 AND 0x7F)) OR push_bit 7 (ucast (p 1 AND 0x7F)) OR ucast (p 2))
      else
       (let (n, v) = get_varint p
        in if \<not> asserts nd (3 < n \<and> n \<le> 9) then Inl Assert_failed
           else if v AND 0xFFFFFFFF \<noteq> v then Inr (n, 0xFFFFFFFF) else Inr (n, ucast v)))"

definition get_4byte :: "(nat \<Rightarrow> u8) \<Rightarrow> u32" where
  "get_4byte p =
     push_bit 24 (ucast (p 0)) OR push_bit 16 (ucast (p 1)) OR push_bit 8 (ucast (p 2)) OR ucast (p 3)"

definition put_4byte :: "u32 \<Rightarrow> bytes" where
  "put_4byte v = [ucast (drop_bit 24 v), ucast (drop_bit 16 v), ucast (drop_bit 8 v), ucast v]"

section \<open>A reference decoder\<close>

fun ref_get :: "nat \<Rightarrow> u64 \<Rightarrow> bytes \<Rightarrow> nat \<times> u64" where
  "ref_get i acc [] = (i, acc)"
| "ref_get i acc (b # bs) =
     (if i = 8 then (9, push_bit 8 acc OR ucast b)
      else if \<not> bit b 7 then (i + 1, push_bit 7 acc OR ucast b)
      else ref_get (i + 1) (push_bit 7 acc OR ucast (b AND 0x7F)) bs)"

lemma slots:
  "slot_2_0 = mask 7 OR push_bit 14 (mask 7)"
  "slot_4_2_0 = mask 7 OR push_bit 14 (mask 7) OR push_bit 28 (mask 4)"
  by (simp_all add: slot_2_0_def slot_4_2_0_def mask_eq_exp_minus_1)

lemma flag_bit: "w AND 0x80 = 0 \<longleftrightarrow> \<not> bit (w :: 'a :: len word) 7"
proof -
  have e: "(0x80 :: 'a word) = 2 ^ 7" by simp
  show ?thesis unfolding e by (rule and_exp_eq_0_iff_not_bit)
qed

lemma u8_bits: "bit (b :: u8) n \<Longrightarrow> n < 8"
  using bit_imp_le_length by fastforce

lemma mask7_u8: "(0x7F :: u8) = mask 7" "(0x7F :: u32) = mask 7" "(0x7F :: u64) = mask 7"
  by (simp_all add: mask_eq_exp_minus_1)

lemmas varint_bits = slots mask7_u8 joined_def bit_simps

lemma u8_high [simp]: "8 \<le> n \<Longrightarrow> \<not> bit (b :: u8) n"
  using u8_bits by fastforce

text \<open>Equality of words bit by bit, over the list of positions.\<close>

lemma word_eq_enum:
  assumes "list_all (\<lambda>n. bit x n = bit y n) [0..<64]"
  shows "x = (y :: u64)"
  using assms by (intro bit_word_eqI) (simp add: list_all_iff)

lemma nine: "map p [0..<9] = [p 0, p 1, p 2, p 3, p 4, p 5, p 6, p 7, p 8]"
  by (simp add: upt_rec eval_nat_numeral)

lemma get_varint_1:
  assumes "\<not> bit (p 0) 7"
  shows "get_varint p = ref_get 0 0 (map p [0..<9])"
  unfolding get_varint_def Let_def flag_bit nine using assms
  by simp

lemma get_varint_2:
  assumes "bit (p 0) 7" and "\<not> bit (p 1) 7"
  shows "get_varint p = ref_get 0 0 (map p [0..<9])"
  unfolding get_varint_def Let_def flag_bit nine using assms
  by (simp add: bit_simps) (rule word_eq_enum, simp add: upt_rec varint_bits, (simp add: eval_nat_numeral)?)

lemma get_varint_3:
  assumes "bit (p 0) 7" and "bit (p 1) 7" and "\<not> bit (p 2) 7"
  shows "get_varint p = ref_get 0 0 (map p [0..<9])"
  unfolding get_varint_def Let_def flag_bit nine using assms
  by (simp add: bit_simps) (rule word_eq_enum, simp add: upt_rec varint_bits, (simp add: eval_nat_numeral)?)

lemma get_varint_4:
  assumes "bit (p 0) 7" and "bit (p 1) 7" and "bit (p 2) 7" and "\<not> bit (p 3) 7"
  shows "get_varint p = ref_get 0 0 (map p [0..<9])"
  unfolding get_varint_def Let_def flag_bit nine using assms
  by (simp add: bit_simps) (rule word_eq_enum, simp add: upt_rec varint_bits, (simp add: eval_nat_numeral)?)

lemma get_varint_5:
  assumes "bit (p 0) 7" and "bit (p 1) 7" and "bit (p 2) 7" and "bit (p 3) 7" and "\<not> bit (p 4) 7"
  shows "get_varint p = ref_get 0 0 (map p [0..<9])"
  unfolding get_varint_def Let_def flag_bit nine using assms
  by (simp add: bit_simps) (rule word_eq_enum, simp add: upt_rec varint_bits, (simp add: eval_nat_numeral)?)

lemma get_varint_6:
  assumes "bit (p 0) 7" and "bit (p 1) 7" and "bit (p 2) 7" and "bit (p 3) 7" and "bit (p 4) 7" and "\<not> bit (p 5) 7"
  shows "get_varint p = ref_get 0 0 (map p [0..<9])"
  unfolding get_varint_def Let_def flag_bit nine using assms
  by (simp add: bit_simps) (rule word_eq_enum, simp add: upt_rec varint_bits, (simp add: eval_nat_numeral)?)

lemma get_varint_7:
  assumes "bit (p 0) 7" and "bit (p 1) 7" and "bit (p 2) 7" and "bit (p 3) 7" and "bit (p 4) 7" and "bit (p 5) 7" and "\<not> bit (p 6) 7"
  shows "get_varint p = ref_get 0 0 (map p [0..<9])"
  unfolding get_varint_def Let_def flag_bit nine using assms
  by (simp add: bit_simps) (rule word_eq_enum, simp add: upt_rec varint_bits, (simp add: eval_nat_numeral)?)

lemma get_varint_8:
  assumes "bit (p 0) 7" and "bit (p 1) 7" and "bit (p 2) 7" and "bit (p 3) 7" and "bit (p 4) 7" and "bit (p 5) 7" and "bit (p 6) 7" and "\<not> bit (p 7) 7"
  shows "get_varint p = ref_get 0 0 (map p [0..<9])"
  unfolding get_varint_def Let_def flag_bit nine using assms
  by (simp add: bit_simps) (rule word_eq_enum, simp add: upt_rec varint_bits, (simp add: eval_nat_numeral)?)

lemma get_varint_9:
  assumes "bit (p 0) 7" and "bit (p 1) 7" and "bit (p 2) 7" and "bit (p 3) 7" and "bit (p 4) 7" and "bit (p 5) 7" and "bit (p 6) 7" and "bit (p 7) 7"
  shows "get_varint p = ref_get 0 0 (map p [0..<9])"
  unfolding get_varint_def Let_def flag_bit nine using assms
  by (simp add: bit_simps) (rule word_eq_enum, simp add: upt_rec varint_bits, (simp add: eval_nat_numeral)?)

lemma get_varint_ref: "get_varint p = ref_get 0 0 (map p [0..<9])"
  by (cases "bit (p 0) 7"; cases "bit (p 1) 7"; cases "bit (p 2) 7"; cases "bit (p 3) 7"; cases "bit (p 4) 7";
      cases "bit (p 5) 7"; cases "bit (p 6) 7"; cases "bit (p 7) 7")
    (simp_all only: get_varint_1 get_varint_2 get_varint_3 get_varint_4 get_varint_5 get_varint_6
      get_varint_7 get_varint_8 get_varint_9 not_True_eq_False not_False_eq_True simp_thms)

section \<open>Decoding what was encoded\<close>

lemma bit_0x80: "bit (0x80 :: int) n \<longleftrightarrow> n = 7"
proof -
  have e: "(0x80 :: int) = 2 ^ 7" by simp
  show "bit (0x80 :: int) n \<longleftrightarrow> n = 7" unfolding e by (simp only: bit_exp_iff possible_bit_int) auto
qed

lemma group_byte:
  "bit (ucast ((w AND 0x7F) OR 0x80) :: u8) 7"
  "ucast ((ucast ((w AND 0x7F) OR 0x80) :: u8) AND 0x7F) = (w AND 0x7F :: u64)"
proof -
  show "bit (ucast ((w AND 0x7F) OR 0x80) :: u8) 7" by (simp add: bit_simps bit_0x80)
  show "ucast ((ucast ((w AND 0x7F) OR 0x80) :: u8) AND 0x7F) = (w AND 0x7F :: u64)"
    unfolding mask7_u8 by (rule bit_word_eqI) (auto simp: bit_simps bit_0x80)
qed

lemma group_step: "push_bit 7 (push_bit (7 * k) acc OR drop_bit 7 w) OR (w AND 0x7F) = push_bit (7 * Suc k) acc OR (w :: u64)"
  unfolding mask7_u8
proof (rule bit_word_eqI)
  fix n assume "n < LENGTH(64)"
  then show "bit (push_bit 7 (push_bit (7 * k) acc OR drop_bit 7 w) OR (w AND mask 7)) n =
      bit (push_bit (7 * Suc k) acc OR w) n"
    by (cases "n < 7") (auto simp: bit_simps)
qed

lemma ref_get_groups:
  "i + length (varint_groups w) \<le> 8 \<Longrightarrow>
   ref_get i acc (rev (varint_groups w) @ rest) =
     ref_get (i + length (varint_groups w)) (push_bit (7 * length (varint_groups w)) acc OR w) rest"
proof (induction w arbitrary: rest rule: varint_groups.induct)
  case (1 w)
  let ?b = "ucast ((w AND 0x7F) OR 0x80) :: u8"
  show ?case
  proof (cases "drop_bit 7 w = 0")
    case True
    then have g: "varint_groups w = [?b]" by (subst varint_groups.simps) simp
    have "push_bit 7 acc OR (w AND 0x7F) = push_bit 7 acc OR w"
      using group_step [of 0 acc w] True by simp
    then show ?thesis using "1.prems" by (simp add: g group_byte)
  next
    case False
    let ?g = "varint_groups (drop_bit 7 w)"
    have g: "varint_groups w = ?b # ?g" using False by (subst varint_groups.simps) simp
    then have len: "i + length ?g < 8" using "1.prems" by simp
    have "ref_get i acc (rev (varint_groups w) @ rest) = ref_get i acc (rev ?g @ ?b # rest)" by (simp add: g)
    also have "\<dots> = ref_get (i + length ?g) (push_bit (7 * length ?g) acc OR drop_bit 7 w) (?b # rest)"
      using len by (intro "1.IH") (use False in simp_all)
    also have "\<dots> = ref_get (i + length ?g + 1) (push_bit (7 * Suc (length ?g)) acc OR w) rest"
      using len group_step [of "length ?g" acc w] by (simp add: group_byte del: mult_Suc_right)
    finally show ?thesis by (simp add: g)
  qed
qed

lemma length_groups: "unat v < 2 ^ (7 * k) \<Longrightarrow> 0 < k \<Longrightarrow> length (varint_groups v) \<le> k"
proof (induction v arbitrary: k rule: varint_groups.induct)
  case (1 v)
  show ?case
  proof (cases "drop_bit 7 v = 0")
    case True
    then show ?thesis using "1.prems" by (subst varint_groups.simps) simp
  next
    case False
    have d: "unat (drop_bit 7 v) = unat v div 2 ^ 7" by (simp add: drop_bit_eq_div unat_div)
    obtain j where k: "k = Suc j" using "1.prems"(2) by (cases k) simp_all
    have "0 < unat (drop_bit 7 v)" using False by (simp add: unat_gt_0)
    then have "2 ^ 7 \<le> unat v" unfolding d by (simp add: div_greater_zero_iff)
    then have j: "0 < j" using "1.prems"(1) k by (cases j) simp_all
    have "(2 :: nat) ^ (7 * k) = 2 ^ 7 * 2 ^ (7 * j)" unfolding k mult_Suc_right power_add ..
    then have "unat v < 2 ^ 7 * 2 ^ (7 * j)" using "1.prems"(1) by simp
    then have "unat (drop_bit 7 v) < 2 ^ (7 * j)" unfolding d by (simp add: less_mult_imp_div_less mult.commute)
    from "1.IH" [OF False this j] show ?thesis
      using False k by (subst varint_groups.simps) simp
  qed
qed

lemma top_byte_zero: "v AND push_bit 32 0xFF000000 = 0 \<longleftrightarrow> unat (v :: u64) < 2 ^ 56"
proof -
  have m: "push_bit 32 0xFF000000 = push_bit 56 (mask 8 :: u64)"
    by (simp add: push_bit_eq_mult mask_eq_exp_minus_1)
  have p: "v AND push_bit 56 (mask 8) = push_bit 56 (drop_bit 56 v)"
    by (rule bit_word_eqI) (auto simp: bit_simps)
  have "drop_bit 56 (push_bit 56 (drop_bit 56 v)) = drop_bit 56 v"
    by (rule bit_word_eqI) (auto simp: bit_simps dest: bit_imp_le_length)
  then have "v AND push_bit 56 (mask 8) = 0 \<longleftrightarrow> drop_bit 56 v = 0"
    unfolding p by (metis drop_bit_of_0 push_bit_of_0)
  also have "\<dots> \<longleftrightarrow> unat v div 2 ^ 56 = 0"
    by (metis drop_bit_eq_div unat_0 unat_eq_zero unat_drop_bit_eq)
  also have "\<dots> \<longleftrightarrow> unat v < 2 ^ 56" by (simp add: div_eq_0_iff)
  finally show ?thesis unfolding m .
qed

end
