(* ===== verification/Varint_Codec.thy ===== *)
theory Varint_Codec
  imports Varint
begin

text \<open>
  What the integers of deps/sqlite3/sqlite3.c promise: reading gives back what was written, and
  the lengths agree.
\<close>

section \<open>The encodings of one, two, and nine bytes\<close>

lemma unat_small_bits: "unat (v :: u64) < 2 ^ k \<Longrightarrow> bit v n \<Longrightarrow> n < k"
proof -
  assume "unat v < 2 ^ k" and b: "bit v n"
  then have "take_bit k (unat v) = unat v" by (simp only: take_bit_nat_eq_self)
  moreover have "bit (unat v) n" using b by (simp add: bit_unsigned_iff)
  ultimately show "n < k" by (metis bit_take_bit_iff)
qed

lemma high_bits: "unat (v :: u64) < 2 ^ k \<Longrightarrow> k \<le> n \<Longrightarrow> \<not> bit v n"
  using unat_small_bits leD by blast

lemma ref_get_1:
  assumes "unat (v :: u64) < 2 ^ 7"
  shows "ref_get 0 0 (ucast (v AND 0x7F) # rest) = (1, v)"
proof -
  have "\<not> bit (ucast (v AND 0x7F) :: u8) 7" unfolding mask7_u8 by (simp add: bit_simps)
  moreover have "(ucast (ucast (v AND 0x7F) :: u8) :: u64) = v"
    unfolding mask7_u8 by (rule bit_word_eqI) (auto simp: bit_simps dest: unat_small_bits [OF assms])
  ultimately show ?thesis by simp
qed

lemma last_group:
  "\<not> bit (ucast (v AND 0x7F) :: u8) 7" "(ucast (ucast (v AND 0x7F :: u64) :: u8) :: u64) = v AND 0x7F"
  unfolding mask7_u8 by (simp add: bit_simps, rule bit_word_eqI, auto simp: bit_simps)

lemma ref_get_2:
  assumes "unat (v :: u64) < 2 ^ 14"
  shows "ref_get 0 0 (ucast ((drop_bit 7 v AND 0x7F) OR 0x80) # ucast (v AND 0x7F) # rest) = (2, v)"
proof -
  have e: "drop_bit 7 v AND 0x7F = drop_bit 7 v"
    unfolding mask7_u8 by (rule bit_word_eqI) (auto simp: bit_simps dest: unat_small_bits [OF assms])
  have "ref_get 0 0 (ucast ((drop_bit 7 v AND 0x7F) OR 0x80) # ucast (v AND 0x7F) # rest) =
      (2, push_bit 7 (drop_bit 7 v AND 0x7F) OR (v AND 0x7F))"
    by (simp add: group_byte last_group)
  moreover have "push_bit 7 (drop_bit 7 v AND 0x7F) OR (v AND 0x7F) = v"
    unfolding e using group_step [of 0 0 v] by simp
  ultimately show ?thesis by simp
qed

lemma ref_get_9:
  "ref_get 0 0 (map (\<lambda>i. ucast ((drop_bit (7 * (7 - i)) (drop_bit 8 v) AND 0x7F) OR 0x80)) [0..<8] @ ucast v # rest) =
     (9, v :: u64)"
proof -
  let ?g = "\<lambda>k. (drop_bit k v AND 0x7F) OR 0x80"
  have l: "map (\<lambda>i. ucast ((drop_bit (7 * (7 - i)) (drop_bit 8 v) AND 0x7F) OR 0x80)) [0..<8] =
      [ucast (?g 57), ucast (?g 50), ucast (?g 43), ucast (?g 36), ucast (?g 29), ucast (?g 22), ucast (?g 15),
       ucast (?g 8) :: u8]"
    by (simp add: upt_rec eval_nat_numeral)
  have "push_bit 8 (push_bit 7 (push_bit 7 (push_bit 7 (push_bit 7 (push_bit 7 (push_bit 7 (push_bit 7
      (drop_bit 57 v AND 0x7F) OR (drop_bit 50 v AND 0x7F)) OR (drop_bit 43 v AND 0x7F)) OR (drop_bit 36 v AND 0x7F))
      OR (drop_bit 29 v AND 0x7F)) OR (drop_bit 22 v AND 0x7F)) OR (drop_bit 15 v AND 0x7F)) OR (drop_bit 8 v AND 0x7F))
      OR ucast (ucast v :: u8) = v"
    by (rule word_eq_enum, simp add: upt_rec varint_bits, (simp add: eval_nat_numeral)?)
  then show ?thesis unfolding l by (simp only: append_Cons append_Nil ref_get.simps group_byte) simp
qed

section \<open>Reading what was written\<close>

lemma varint_groups_split:
  "varint_groups v = ucast ((v AND 0x7F) OR 0x80) #
     (if drop_bit 7 v \<noteq> 0 then varint_groups (drop_bit 7 v) else [])"
  by (subst varint_groups.simps) simp

lemma first_group: "(ucast ((v AND 0x7F) OR 0x80) :: u8) AND 0x7F = ucast (v AND 0x7F :: u64)"
  unfolding mask7_u8 by (rule bit_word_eqI) (auto simp: bit_simps bit_0x80)

lemma ref_get_put64:
  "ref_get 0 0 (put_varint64 v @ rest) = (length (put_varint64 v), v) \<and> length (put_varint64 v) \<le> 9"
proof (cases "v AND push_bit 32 0xFF000000 = 0")
  case False
  then have put: "put_varint64 v =
      map (\<lambda>i. ucast ((drop_bit (7 * (7 - i)) (drop_bit 8 v) AND 0x7F) OR 0x80)) [0..<8] @ [ucast v]"
    by (simp only: put_varint64_def if_True simp_thms)
  have "length (put_varint64 v) = 9" unfolding put by simp
  then show ?thesis using ref_get_9 [of v rest] unfolding put append_assoc append_Cons append_Nil by simp
next
  case True
  then have small: "unat v < 2 ^ 56" unfolding top_byte_zero .
  let ?t = "if drop_bit 7 v \<noteq> 0 then varint_groups (drop_bit 7 v) else []"
  have put: "put_varint64 v = rev ?t @ [ucast (v AND 0x7F)]"
    using True by (simp add: put_varint64_def Let_def varint_groups_split [of v] first_group)
  have "length (varint_groups v) \<le> 8" using length_groups [of v 8] small by simp
  then have len: "length ?t \<le> 7" by (subst (asm) varint_groups_split) simp
  have "ref_get 0 0 (rev ?t @ ucast (v AND 0x7F) # rest) = (Suc (length ?t), v)"
  proof (cases "drop_bit 7 v = 0")
    case True
    have "ref_get 0 0 (ucast (v AND 0x7F) # rest) = (Suc 0, v AND 0x7F)" by (simp add: last_group)
    moreover have "v AND 0x7F = v" using True group_step [of 0 0 v] by simp
    ultimately show ?thesis using True by simp
  next
    case False
    let ?g = "varint_groups (drop_bit 7 v)"
    have l: "length ?g \<le> 7" using len False by simp
    have "ref_get 0 0 (rev ?g @ ucast (v AND 0x7F) # rest) =
        ref_get (length ?g) (drop_bit 7 v) (ucast (v AND 0x7F) # rest)"
      using ref_get_groups [of 0 "drop_bit 7 v" 0] l by simp
    then show ?thesis using False l group_step [of 0 0 v] by (simp add: last_group)
  qed
  then show ?thesis using put len by simp
qed

lemma ref_get_put: "ref_get 0 0 (put_varint v @ rest) = (length (put_varint v), v) \<and> length (put_varint v) \<le> 9"
proof -
  consider "v \<le> 0x7F" | "\<not> v \<le> 0x7F" "v \<le> 0x3FFF" | "\<not> v \<le> 0x7F" "\<not> v \<le> 0x3FFF" by blast
  then show ?thesis
  proof cases
    case 1
    then have "unat v < 2 ^ 7" by (simp add: word_le_nat_alt)
    with 1 show ?thesis using ref_get_1 [of v rest] by (simp add: put_varint_def)
  next
    case 2
    then have "unat v < 2 ^ 14" by (simp add: word_le_nat_alt)
    with 2 show ?thesis using ref_get_2 [of v rest] by (simp add: put_varint_def)
  next
    case 3
    then show ?thesis using ref_get_put64 [of v rest] by (simp add: put_varint_def)
  qed
qed

text \<open>A buffer that holds the bytes of a list.\<close>

definition buffer_holds :: "(nat \<Rightarrow> u8) \<Rightarrow> bytes \<Rightarrow> bool" where
  "buffer_holds p bs \<longleftrightarrow> map p [0..<length bs] = bs"

lemma buffer_split:
  assumes "buffer_holds p bs" and "length bs \<le> 9"
  shows "map p [0..<9] = bs @ map p [length bs..<9]"
proof -
  have "[0..<9] = [0..<length bs] @ [length bs..<9]"
    using assms(2) upt_add_eq_append [of 0 "length bs" "9 - length bs"] by simp
  then show ?thesis using assms(1) by (simp add: buffer_holds_def del: upt_conv_Nil)
qed

lemma get_put: "buffer_holds p (put_varint v) \<Longrightarrow> get_varint p = (length (put_varint v), v)"
  using ref_get_put [of v] buffer_split [of p "put_varint v"] by (simp add: get_varint_ref)

section \<open>Lengths\<close>

lemma varint_len_loop_groups: "varint_len_loop v i = i + length (varint_groups v) - 1"
proof (induction v i rule: varint_len_loop.induct)
  case (1 v i)
  show ?case
  proof (cases "drop_bit 7 v = 0")
    case True
    then show ?thesis by (simp add: varint_len_loop.simps [of v] varint_groups_split [of v])
  next
    case False
    have "varint_groups (drop_bit 7 v) \<noteq> []" by (subst varint_groups_split) simp
    with False "1.IH" show ?thesis
      by (simp add: varint_len_loop.simps [of v] varint_groups_split [of v])
  qed
qed

lemma length_groups_ge: "2 ^ (7 * k) \<le> unat v \<Longrightarrow> k < length (varint_groups v)"
proof (induction k arbitrary: v)
  case 0
  then show ?case by (subst varint_groups_split) simp
next
  case (Suc k)
  have d: "unat (drop_bit 7 v) = unat v div 2 ^ 7" by (simp add: drop_bit_eq_div unat_div)
  have "(2 :: nat) ^ (7 * Suc k) = 2 ^ (7 * k) * 2 ^ 7" by (simp add: power_add)
  then have "2 ^ (7 * k) * 2 ^ 7 \<le> unat v" using Suc.prems by (simp only:)
  then have le: "2 ^ (7 * k) \<le> unat (drop_bit 7 v)" unfolding d by (simp add: less_eq_div_iff_mult_less_eq)
  then have "drop_bit 7 v \<noteq> 0" by (metis le_zero_eq power_not_zero unat_0 zero_neq_numeral)
  with Suc.IH [OF le] show ?case by (subst varint_groups_split) simp
qed

lemma length_put:
  "length (put_varint v) = (if 2 ^ 63 \<le> unat v then 9 else length (varint_groups v))"
proof -
  have two: "length (varint_groups v) = k" if "unat v < 2 ^ (7 * k)" "2 ^ (7 * (k - 1)) \<le> unat v" "0 < k" for k
    using length_groups [OF that(1,3)] length_groups_ge [OF that(2)] that(3) by simp
  consider "v \<le> 0x7F" | "\<not> v \<le> 0x7F" "v \<le> 0x3FFF" | "\<not> v \<le> 0x3FFF" "unat v < 2 ^ 56" | "2 ^ 56 \<le> unat v"
    by fastforce
  then show ?thesis
  proof cases
    case 1
    then have "unat v < 2 ^ 7" by (simp add: word_le_nat_alt)
    then have "length (varint_groups v) \<le> 1" using length_groups [of v 1] by simp
    moreover have "varint_groups v \<noteq> []" by (subst varint_groups_split) simp
    ultimately have "length (varint_groups v) = 1" by (cases "varint_groups v") simp_all
    with 1 \<open>unat v < 2 ^ 7\<close> show ?thesis by (simp add: put_varint_def)
  next
    case 2
    then have "unat v < 2 ^ (7 * 2)" "2 ^ (7 * (2 - 1)) \<le> unat v" by (simp_all add: word_le_nat_alt)
    from two [OF this] 2 show ?thesis using \<open>unat v < 2 ^ (7 * 2)\<close> by (simp add: put_varint_def)
  next
    case 3
    have "\<not> v \<le> 0x7F" using 3(1) by (auto simp: word_le_nat_alt)
    moreover have "v AND push_bit 32 0xFF000000 = 0" unfolding top_byte_zero by (rule 3(2))
    then have "length (put_varint64 v) = length (varint_groups v)" by (simp add: put_varint64_def Let_def)
    ultimately show ?thesis using 3 by (simp add: put_varint_def)
  next
    case 4
    then have "\<not> v \<le> 0x7F" "\<not> v \<le> 0x3FFF" by (auto simp: word_le_nat_alt)
    moreover have "\<not> v AND push_bit 32 0xFF000000 = 0" unfolding top_byte_zero using 4 by simp
    then have "length (put_varint64 v) = 9" by (simp add: put_varint64_def)
    ultimately have "length (put_varint v) = 9" by (simp add: put_varint_def)
    then show ?thesis using two [of 9] 4 by simp
  qed
qed

section \<open>Short values\<close>

lemma get_varint32_eq:
  assumes "bit (p 0) 7"
  shows "get_varint32 nd p =
    (let (n, v) = get_varint p in Inr (n, if v AND 0xFFFFFFFF \<noteq> v then 0xFFFFFFFF else ucast v))"
proof -
  have first: "p 0 AND 0x80 \<noteq> 0" using assms by (simp add: flag_bit)
  consider "\<not> bit (p 1) 7" | "bit (p 1) 7" "\<not> bit (p 2) 7" | "bit (p 1) 7" "bit (p 2) 7" by blast
  then show ?thesis
  proof cases
    case 1
    let ?w = "push_bit 7 (ucast (p 0 AND 0x7F)) OR ucast (p 1) :: u32"
    have "(ucast ?w :: u64) AND 0xFFFFFFFF = ucast ?w"
    proof -
      have m: "(0xFFFFFFFF :: u64) = mask 32" by (simp add: mask_eq_exp_minus_1)
      show ?thesis unfolding m by (rule bit_word_eqI) (auto simp: bit_simps)
    qed
    moreover have "get_varint p = (2, ucast ?w)" using assms 1 by (simp add: get_varint_def)
    moreover have "p 1 AND 0x80 = 0" using 1 by (simp add: flag_bit)
    moreover have "(ucast (ucast ?w :: u64) :: u32) = ?w" by (rule bit_word_eqI) (auto simp: bit_simps)
    ultimately show ?thesis using first by (simp add: get_varint32_def)
  next
    case 2
    let ?w = "push_bit 14 (ucast (p 0 AND 0x7F)) OR push_bit 7 (ucast (p 1 AND 0x7F)) OR ucast (p 2) :: u32"
    have g: "get_varint p = (3, push_bit 7 (push_bit 7 (ucast (p 0 AND 0x7F)) OR ucast (p 1 AND 0x7F)) OR ucast (p 2))"
      using assms 2 unfolding get_varint_ref nine by simp
    have w: "push_bit 7 (push_bit 7 (ucast (p 0 AND 0x7F)) OR ucast (p 1 AND 0x7F)) OR ucast (p 2) = (ucast ?w :: u64)"
      by (rule word_eq_enum) (simp add: upt_rec varint_bits)
    have "(ucast ?w :: u64) AND 0xFFFFFFFF = ucast ?w"
    proof -
      have m: "(0xFFFFFFFF :: u64) = mask 32" by (simp add: mask_eq_exp_minus_1)
      show ?thesis unfolding m by (rule bit_word_eqI) (auto simp: bit_simps)
    qed
    moreover have "p 1 AND 0x80 \<noteq> 0" "p 2 AND 0x80 = 0" using 2 by (simp_all add: flag_bit)
    moreover have "(ucast (ucast ?w :: u64) :: u32) = ?w" by (rule bit_word_eqI) (auto simp: bit_simps)
    ultimately show ?thesis using first unfolding g w get_varint32_def by (simp add: asserts_def)
  next
    case 3
    obtain n v where nv: "get_varint p = (n, v)" by fastforce
    have "3 < n \<and> n \<le> 9"
      using nv assms 3 unfolding get_varint_ref nine by (auto split: if_splits)
    then show ?thesis using 3 first by (simp add: get_varint32_def nv flag_bit asserts_def)
  qed
qed

lemma word32_eq_enum:
  assumes "list_all (\<lambda>n. bit x n = bit y n) [0..<32]"
  shows "x = (y :: u32)"
  using assms by (intro bit_word_eqI) (simp add: list_all_iff)

section \<open>Properties\<close>

text \<open>C40: The optimised reader, which collects the seven-bit groups in three 32-bit words, computes
  what the reference computes that takes one byte at a time, on every buffer.\<close>

theorem get_varint_reference:
  "get_varint p = ref_get 0 0 (map p [0..<9])"
  by (rule get_varint_ref)

text \<open>A value that was written is read back, whatever follows it in the buffer, and the reader
  consumes exactly the bytes that were written, between one and nine.\<close>

theorem varint_round_trip:
  assumes "map p [0..<length (put_varint v)] = put_varint v"
  shows "get_varint p = (length (put_varint v), v) \<and> 1 \<le> length (put_varint v) \<and> length (put_varint v) \<le> 9"
proof -
  have "get_varint p = (length (put_varint v), v)" using assms by (intro get_put) (simp add: buffer_holds_def)
  moreover have "varint_groups v \<noteq> []" by (subst varint_groups_split) simp
  ultimately show ?thesis using ref_get_put [of v] by (simp add: length_put Suc_le_eq)
qed

lemma put_300: "put_varint 300 = [0x82, 0x2C]"
  by (simp add: put_varint_def)

theorem varint_round_trip_witness:
  "get_varint (\<lambda>i. if i = 0 then 0x82 else 0x2C) = (2, 300)"
  using varint_round_trip [of "\<lambda>i. if i = 0 then 0x82 else 0x2C" 300]
  by (simp add: put_300 upt_rec)

text \<open>The length function gives the number of bytes written for every value below 2^63; from
  there on it gives ten, though nine are written.\<close>

theorem varint_len_correct:
  "varint_len v = (if unat v < 2 ^ 63 then length (put_varint v) else 10)"
proof (cases "unat v < 2 ^ 63")
  case True
  have "varint_groups v \<noteq> []" by (subst varint_groups_split) simp
  with True show ?thesis by (simp add: varint_len_def varint_len_loop_groups length_put)
next
  case False
  then have "2 ^ (7 * 9) \<le> unat v" by simp
  from length_groups_ge [OF this] have "9 < length (varint_groups v)" .
  moreover have "unat v < 2 ^ (7 * 10)" using unat_u64_less [of v] by simp
  from length_groups [OF this] have "length (varint_groups v) \<le> 10" by simp
  ultimately show ?thesis using False by (simp add: varint_len_def varint_len_loop_groups)
qed

text \<open>The reader of 32-bit values reads what the writer wrote when it fits, and the largest
  32-bit value when it does not; the caller has handled one-byte values.\<close>

theorem varint32_saturates:
  assumes "map p [0..<length (put_varint v)] = put_varint v" and "0x7F < v"
  shows "get_varint32 nd p =
    Inr (length (put_varint v), if unat v < 2 ^ 32 then ucast v else 0xFFFFFFFF)"
proof -
  have g: "get_varint p = (length (put_varint v), v)" using assms(1) by (intro get_put) (simp add: buffer_holds_def)
  have "bit (p 0) 7"
  proof (rule ccontr)
    assume "\<not> bit (p 0) 7"
    then have "v = ucast (p 0)" using g by (simp add: get_varint_def)
    moreover have "unat (p 0) < 128"
    proof -
      have "p 0 = take_bit 7 (p 0)"
      proof (rule bit_word_eqI)
        fix n assume "n < LENGTH(8)"
        then show "bit (p 0) n = bit (take_bit 7 (p 0)) n"
          using \<open>\<not> bit (p 0) 7\<close> by (cases "n = 7") (auto simp: bit_simps)
      qed
      then have "unat (p 0) = take_bit 7 (unat (p 0))" by (metis unsigned_take_bit_eq)
      also have "\<dots> < 2 ^ 7" by (rule take_bit_nat_less_exp)
      finally show ?thesis by simp
    qed
    ultimately show False using assms(2) by (simp add: word_less_nat_alt unsigned_ucast_eq take_bit_nat_eq_self)
  qed
  moreover have "v AND 0xFFFFFFFF = v \<longleftrightarrow> unat v < 2 ^ 32"
  proof -
    have m: "(0xFFFFFFFF :: u64) = mask 32" by (simp add: mask_eq_exp_minus_1)
    have "v AND mask 32 = take_bit 32 v" by (simp add: take_bit_eq_mask)
    moreover have "take_bit 32 v = v \<longleftrightarrow> take_bit 32 (unat v) = unat v"
      by (metis unsigned_take_bit_eq word_unat_eq_iff)
    ultimately show ?thesis unfolding m by (simp add: take_bit_nat_eq_self_iff)
  qed
  ultimately show ?thesis by (simp add: get_varint32_eq g)
qed

theorem varint32_saturates_witness:
  "get_varint32 True (\<lambda>i. if i = 0 then 0x82 else 0x2C) = Inr (2, 300)"
  using varint32_saturates [of "\<lambda>i. if i = 0 then 0x82 else 0x2C" 300 True]
  by (simp add: put_300 upt_rec)

text \<open>Four-byte integers are written most significant byte first and read back.\<close>

theorem four_byte_round_trip:
  "get_4byte (\<lambda>i. put_4byte v ! i) = v \<and> put_4byte (get_4byte p) = [p 0, p 1, p 2, p 3]"
proof
  show "get_4byte (\<lambda>i. put_4byte v ! i) = v"
    unfolding get_4byte_def put_4byte_def by (rule word32_eq_enum, simp add: upt_rec bit_simps, (simp add: eval_nat_numeral)?)
  have "ucast (drop_bit 24 (get_4byte p)) = p 0" "ucast (drop_bit 16 (get_4byte p)) = p 1"
    "ucast (drop_bit 8 (get_4byte p)) = p 2" "ucast (get_4byte p) = p 3"
    unfolding get_4byte_def by (rule bit_word_eqI, auto simp: bit_simps)+
  then show "put_4byte (get_4byte p) = [p 0, p 1, p 2, p 3]" by (simp add: put_4byte_def)
qed

end
