(* ===== verification/Checked_Arith.thy ===== *)
theory Checked_Arith
  imports Prelude "HOL-Library.Signed_Division"
begin

text \<open>
  The overflow-checked signed arithmetic of the database library, deps/sqlite3/sqlite3.c:
  sqlite3AddInt64, sqlite3SubInt64, sqlite3MulInt64 and sqlite3AbsInt32. The source has two
  bodies for each, one on the compiler's builtins and a portable one; the first argument chooses.
  A 64-bit signed value is an integer in its range, and every intermediate result that leaves the
  range is the trap of a signed overflow. The result is the flag the function returns and the
  value it leaves behind its pointer.
\<close>

section \<open>Signed values\<close>

abbreviation largest_int64 :: int where "largest_int64 \<equiv> 0x7FFFFFFFFFFFFFFF"
abbreviation smallest_int64 :: int where "smallest_int64 \<equiv> - 1 - largest_int64"

definition i64_range :: "int \<Rightarrow> bool" where
  "i64_range x \<longleftrightarrow> smallest_int64 \<le> x \<and> x \<le> largest_int64"

text \<open>An intermediate result, on which the rest of the computation goes on.\<close>

definition checked :: "int \<Rightarrow> (int \<Rightarrow> trap + 'a) \<Rightarrow> trap + 'a" where
  "checked x k = (if i64_range x then k x else Inl Overflow)"

lemma checked_in [simp]: "i64_range x \<Longrightarrow> checked x k = k x"
  by (simp add: checked_def)

text \<open>The checked builtins of the compiler: the wrapped result is stored, the flag says whether
  the exact one is different.\<close>

definition builtin_overflow :: "int \<Rightarrow> bool \<times> int" where
  "builtin_overflow exact = (\<not> i64_range exact, sint (word_of_int exact :: u64))"

section \<open>The operations\<close>

definition add_int64 :: "bool \<Rightarrow> int \<Rightarrow> int \<Rightarrow> trap + bool \<times> int" where
  "add_int64 gcc a b =
     (if gcc then Inr (builtin_overflow (a + b))
      else
       (let store = checked (a + b) (\<lambda>r. Inr (False, r))
        in if b \<ge> 0 then
             (if a > 0 then
                checked (largest_int64 - a) (\<lambda>room. if room < b then Inr (True, a) else store)
              else store)
           else
             (if a < 0 then
                checked (a + largest_int64) (\<lambda>s. checked (- s) (\<lambda>room. checked (b + 1) (\<lambda>b1.
                  if room > b1 then Inr (True, a) else store)))
              else store)))"

definition sub_int64 :: "bool \<Rightarrow> int \<Rightarrow> int \<Rightarrow> trap + bool \<times> int" where
  "sub_int64 gcc a b =
     (if gcc then Inr (builtin_overflow (a - b))
      else if b = smallest_int64 then
        (if a \<ge> 0 then Inr (True, a) else checked (a - b) (\<lambda>r. Inr (False, r)))
      else checked (- b) (\<lambda>nb. add_int64 gcc a nb))"

definition mul_int64 :: "bool \<Rightarrow> int \<Rightarrow> int \<Rightarrow> trap + bool \<times> int" where
  "mul_int64 gcc a b =
     (if gcc then Inr (builtin_overflow (a * b))
      else
       (let store = checked (a * b) (\<lambda>r. Inr (False, r))
        in if b > 0 then
             (if a > largest_int64 sdiv b then Inr (True, a)
              else if a < smallest_int64 sdiv b then Inr (True, a) else store)
           else if b < 0 then
             (if a > 0 then (if b < smallest_int64 sdiv a then Inr (True, a) else store)
              else if a < 0 then
                (if b = smallest_int64 then Inr (True, a)
                 else if a = smallest_int64 then Inr (True, a)
                 else checked (- a) (\<lambda>na. checked (- b) (\<lambda>nb.
                   if na > largest_int64 sdiv nb then Inr (True, a) else store)))
              else store)
           else store))"

definition abs_int32 :: "int \<Rightarrow> int" where
  "abs_int32 x = (if x \<ge> 0 then x else if x = - 0x80000000 then 0x7FFFFFFF else - x)"

section \<open>Exactness\<close>

lemma builtin_exact:
  "builtin_overflow x = (if i64_range x then (False, x) else (True, sint (word_of_int x :: u64)))"
  by (simp add: builtin_overflow_def i64_range_def sint_sbintrunc' signed_take_bit_int_eq_self)

lemma portable_add:
  assumes "i64_range a" and "i64_range b"
  shows "add_int64 False a b = (if i64_range (a + b) then Inr (False, a + b) else Inr (True, a))"
  using assms by (auto simp: add_int64_def checked_def i64_range_def Let_def)

lemma portable_sub:
  assumes "i64_range a" and "i64_range b"
  shows "sub_int64 False a b = (if i64_range (a - b) then Inr (False, a - b) else Inr (True, a))"
proof (cases "b = smallest_int64")
  case True
  then show ?thesis using assms by (auto simp: sub_int64_def checked_def i64_range_def)
next
  case False
  then have "i64_range (- b)" using assms by (auto simp: i64_range_def)
  then show ?thesis using False portable_add [OF assms(1) \<open>i64_range (- b)\<close>]
    by (simp add: sub_int64_def)
qed

lemma div_less_pos: "(0 :: int) < b \<Longrightarrow> l div b < a \<longleftrightarrow> l < a * b"
proof -
  assume b: "0 < b"
  have l: "b * (l div b) + l mod b = l" and m: "0 \<le> l mod b" "l mod b < b" using b by simp_all
  show ?thesis
  proof
    assume "l div b < a"
    then have "b * (l div b + 1) \<le> b * a" using b by (intro mult_left_mono) simp_all
    then have "b * (l div b) + b \<le> a * b" by (simp add: algebra_simps)
    then show "l < a * b" using l m by linarith
  next
    assume less: "l < a * b"
    show "l div b < a"
    proof (rule ccontr)
      assume "\<not> l div b < a"
      then have "b * a \<le> b * (l div b)" using b by (intro mult_left_mono) simp_all
      moreover have "b * a = a * b" by simp
      ultimately show False using l m less by linarith
    qed
  qed
qed

lemma above_quotient:
  assumes "(0 :: int) < b" and "0 \<le> l"
  shows "l sdiv b < a \<longleftrightarrow> l < a * b"
proof -
  have "l sdiv b = l div b" using assms by (simp add: signed_divide_int_def sgn_if)
  then show ?thesis using assms(1) by (simp add: div_less_pos)
qed

lemma below_quotient:
  assumes "(0 :: int) < b" and "0 < m"
  shows "a < - (m sdiv b) \<longleftrightarrow> a * b < - m"
proof -
  have "a < - (m sdiv b) \<longleftrightarrow> m sdiv b < - a" by linarith
  then show ?thesis using above_quotient [OF assms(1), of m "- a"] assms(2) by auto
qed

lemma portable_mul:
  assumes "i64_range a" and "i64_range b"
  shows "mul_int64 False a b = (if i64_range (a * b) then Inr (False, a * b) else Inr (True, a))"
proof -
  consider "b > 0" | "b < 0" "a > 0" | "b < 0" "a < 0" | "b < 0" "a = 0" | "b = 0" by linarith
  then show ?thesis
  proof cases
    case 1
    then show ?thesis
      by (simp add: mul_int64_def Let_def above_quotient below_quotient checked_def i64_range_def not_less)
  next
    case 2
    then have "a * b < 0" by (rule mult_pos_neg[rotated])
    with 2 show ?thesis
      by (simp add: mul_int64_def Let_def below_quotient checked_def i64_range_def not_less mult.commute)
  next
    case 3
    show ?thesis
    proof (cases "a = smallest_int64 \<or> b = smallest_int64")
      case True
      have "largest_int64 < a * b"
      proof -
        have "1 * (- b) \<le> (- a) * (- b)" "(- a) * 1 \<le> (- a) * (- b)"
          using 3 by (intro mult_right_mono mult_left_mono; simp)+
        then show ?thesis using True by auto
      qed
      then show ?thesis using True 3 by (auto simp: mul_int64_def i64_range_def)
    next
      case False
      then have r: "i64_range (- a)" "i64_range (- b)" using assms by (auto simp: i64_range_def)
      have "0 < a * b" using 3 by (simp add: mult_neg_neg)
      moreover have "largest_int64 sdiv (- b) < - a \<longleftrightarrow> largest_int64 < a * b"
        using above_quotient [of "- b" largest_int64 "- a"] 3 by simp
      ultimately show ?thesis using False 3 r
        by (simp add: mul_int64_def Let_def checked_def i64_range_def not_less)
    qed
  qed (simp_all add: mul_int64_def i64_range_def)
qed

section \<open>Properties\<close>

text \<open>Both bodies of the checked addition, subtraction and multiplication report an overflow
  exactly when the exact result leaves the signed 64-bit range, and store the exact result
  otherwise; no intermediate result of the portable body overflows. On an overflow the portable
  body leaves the operand as it was, as the comment says, and the builtin stores the wrapped
  result.\<close>

theorem checked_arithmetic_exact:
  assumes "i64_range a" and "i64_range b"
    and "(f, r) \<in> {(add_int64, a + b), (sub_int64, a - b), (mul_int64, a * b)}"
  shows "f gcc a b =
    (if i64_range r then Inr (False, r) else if gcc then Inr (True, sint (word_of_int r :: u64)) else Inr (True, a))"
proof (cases gcc)
  case True
  then show ?thesis using assms(3)
    by (auto simp: add_int64_def sub_int64_def mul_int64_def builtin_exact)
next
  case False
  then show ?thesis using assms(3)
    by (auto simp: portable_add [OF assms(1,2)] portable_sub [OF assms(1,2)] portable_mul [OF assms(1,2)])
qed

theorem checked_arithmetic_exact_witness:
  "mul_int64 False 0x7FFFFFFFFFFFFFFF (- 2) = Inr (True, 0x7FFFFFFFFFFFFFFF)"
  using checked_arithmetic_exact [of "0x7FFFFFFFFFFFFFFF" "- 2" mul_int64 "0x7FFFFFFFFFFFFFFF * (- 2)" False]
  by (simp add: i64_range_def)

text \<open>The absolute value of every 32-bit signed integer is a 32-bit signed integer that is
  not negative; it is exact but for the smallest value, whose result is one too small.\<close>

theorem abs_int32_total:
  assumes "- (2 ^ 31) \<le> x" and "x < 2 ^ 31"
  shows "0 \<le> abs_int32 x \<and> abs_int32 x < 2 ^ 31 \<and>
    abs_int32 x = \<bar>x\<bar> - (if x = - (2 ^ 31) then 1 else 0)"
  using assms by (auto simp: abs_int32_def)

theorem abs_int32_total_witness: "abs_int32 (- 0x80000000) = 0x7FFFFFFF"
  using abs_int32_total [of "- 0x80000000"] by simp

end
