(* ===== verification/Log_Est.thy ===== *)
theory Log_Est
  imports Prelude "HOL-Library.Signed_Division"
begin

text \<open>
  The logarithmic estimates of the query planner of the database library,
  deps/sqlite3/sqlite3.c: sqlite3LogEst in both its bodies, sqlite3LogEstAdd and
  sqlite3LogEstToInt. A LogEst is a 16-bit signed integer, ten times the binary logarithm; it is
  an integer here, with the conversion to 16 bits written out where a result is returned.
  sqlite3LogEstFromDouble looks at the representation of a double and is left out.
\<close>

section \<open>The estimates\<close>

definition to_i16 :: "int \<Rightarrow> int" where
  "to_i16 x = sint (word_of_int x :: 16 word)"

definition mantissas :: "int list" where "mantissas = [0, 2, 3, 5, 6, 7, 8, 9]"

text \<open>The number of leading zeros, as the compiler's builtin gives it for a value that is not 0.\<close>

definition clzll :: "u64 \<Rightarrow> nat" where
  "clzll x = length (takeWhile (\<lambda>i. \<not> bit x i) (rev [0..<64]))"

text \<open>The three loops.\<close>

partial_function (option) scale_up :: "u64 \<Rightarrow> int \<Rightarrow> (u64 \<times> int) option" where
  "scale_up x y = (if x < 8 then scale_up (push_bit 1 x) (y - 10) else Some (x, y))"

function scale_down4 :: "u64 \<Rightarrow> int \<Rightarrow> u64 \<times> int" where
  "scale_down4 x y = (if 255 < x then scale_down4 (drop_bit 4 x) (y + 40) else (x, y))"
  by pat_completeness auto

function scale_down1 :: "u64 \<Rightarrow> int \<Rightarrow> u64 \<times> int" where
  "scale_down1 x y = (if 15 < x then scale_down1 (drop_bit 1 x) (y + 10) else (x, y))"
  by pat_completeness auto

lemma unat_drop_bit: "unat (drop_bit n x) = unat (x :: u64) div 2 ^ n"
  by (simp only: unat_drop_bit_eq) (simp add: drop_bit_eq_div)

termination scale_down4
  by (relation "measure (\<lambda>(x, y). unat x)") (simp_all add: unat_drop_bit word_less_nat_alt)

termination scale_down1
  by (relation "measure (\<lambda>(x, y). unat x)") (simp_all add: unat_drop_bit word_less_nat_alt)

declare scale_down4.simps [simp del] scale_down1.simps [simp del]

definition log_est :: "bool \<Rightarrow> u64 \<Rightarrow> int option" where
  "log_est gcc x =
     (if x < 8 \<and> x < 2 then Some 0
      else
       (case (if x < 8 then scale_up x 40
              else if gcc then
                (let i = 60 - clzll x in Some (drop_bit i x, 40 + int i * 10))
              else (let (x, y) = scale_down4 x 40 in Some (scale_down1 x y))) of
          None \<Rightarrow> None
        | Some (x, y) \<Rightarrow> Some (to_i16 (mantissas ! unat (x AND 7) + y - 10))))"

definition sum_table :: "int list" where
  "sum_table = [10, 10, 9, 9, 8, 8, 7, 7, 7, 6, 6, 6, 5, 5, 5, 4, 4, 4, 4,
     3, 3, 3, 3, 3, 3, 2, 2, 2, 2, 2, 2, 2]"

definition log_est_add :: "int \<Rightarrow> int \<Rightarrow> int" where
  "log_est_add a b =
     to_i16 (if a \<ge> b then
               (if a > b + 49 then a else if a > b + 31 then a + 1 else a + sum_table ! nat (a - b))
             else
               (if b > a + 49 then b else if b > a + 31 then b + 1 else b + sum_table ! nat (b - a)))"

definition log_est_to_int :: "int \<Rightarrow> trap + u64" where
  "log_est_to_int x =
     (let n = word_of_int (x smod 10) :: u64; x = x sdiv 10;
          n = (if 5 \<le> n then n - 2 else if 1 \<le> n then n - 1 else n)
      in if x > 60 then Inr 0x7FFFFFFFFFFFFFFF
         else if x \<ge> 3 then Inr (push_bit (nat (x - 3)) (n + 8))
         else if 64 \<le> 3 - x then Inl Bad_shift
         else Inr (drop_bit (nat (3 - x)) (n + 8)))"

section \<open>The normalised mantissa\<close>

lemma pow2_less: "(2 :: nat) ^ m < 2 ^ n \<Longrightarrow> m < n"
  by simp

text \<open>The binary order of a value, and its four leading binary digits.\<close>

definition order :: "u64 \<Rightarrow> nat \<Rightarrow> bool" where
  "order x k \<longleftrightarrow> 2 ^ k \<le> unat x \<and> unat x < 2 ^ Suc k"

definition digits :: "u64 \<Rightarrow> nat \<Rightarrow> nat" where
  "digits x k = unat x * 8 div 2 ^ k"

lemma order_less: "order x k \<Longrightarrow> k < 64"
proof (rule ccontr)
  assume "order x k" "\<not> k < 64"
  then have "(2 :: nat) ^ 64 \<le> 2 ^ k" by (intro power_increasing) simp_all
  moreover have "2 ^ k \<le> unat x" using \<open>order x k\<close> by (simp add: order_def)
  ultimately have "2 ^ 64 \<le> unat x" by (rule order_trans)
  then show False using unat_u64_less [of x] by linarith
qed

lemma order_exists: "x \<noteq> 0 \<Longrightarrow> \<exists>k. order x k"
proof -
  assume "x \<noteq> 0"
  then have "0 < unat x" by (simp add: unat_gt_0)
  then show ?thesis using ex_power_ivl1 [of 2 "unat x"] by (auto simp: order_def)
qed

lemma digits_shift: "3 \<le> k \<Longrightarrow> digits x k = unat (drop_bit (k - 3) x)"
proof -
  assume "3 \<le> k"
  then have "(2 :: nat) ^ k = 2 ^ (k - 3) * 8" using power_add [of "2 :: nat" "k - 3" 3] by simp
  then show ?thesis unfolding digits_def unat_drop_bit by (simp only: div_mult_mult2)
qed

lemma digits_range: "order x k \<Longrightarrow> 8 \<le> digits x k \<and> digits x k < 16"
proof -
  assume o: "order x k"
  have "8 * 2 ^ k \<le> unat x * 8" "unat x * 8 < 16 * 2 ^ k" using o by (simp_all add: order_def)
  then show ?thesis by (simp add: digits_def less_eq_div_iff_mult_less_eq div_less_iff_less_mult)
qed

lemma order_unique: "order x j \<Longrightarrow> order x k \<Longrightarrow> j = k"
proof (rule ccontr)
  assume o: "order x j" "order x k" and "j \<noteq> k"
  have "(2 :: nat) ^ j < 2 ^ Suc k" "(2 :: nat) ^ k < 2 ^ Suc j" using o by (auto simp: order_def intro: le_less_trans)
  then have "j < Suc k" "k < Suc j" by (simp_all only: pow2_less)
  with \<open>j \<noteq> k\<close> show False by simp
qed

lemma order_drop: "order (drop_bit i x) k \<longleftrightarrow> order x (k + i)"
  unfolding order_def unat_drop_bit
  by (simp add: less_eq_div_iff_mult_less_eq div_less_iff_less_mult power_add mult.assoc [symmetric])

lemma mantissa_index: "8 \<le> unat (x :: u64) \<Longrightarrow> unat x < 16 \<Longrightarrow> unat (x AND 7) = unat x - 8"
proof -
  assume r: "8 \<le> unat x" "unat x < 16"
  have m: "(7 :: u64) = mask 3" by (simp add: mask_eq_exp_minus_1)
  have "x AND 7 = take_bit 3 x" unfolding m by (simp only: take_bit_eq_mask)
  then have "unat (x AND 7) = take_bit 3 (unat x)" by (metis unsigned_take_bit_eq)
  then have "unat (x AND 7) = unat x mod 8" by (simp add: take_bit_eq_mod)
  with r show ?thesis by (simp add: mod_if)
qed

section \<open>The loops\<close>

text \<open>Both ways of normalising a value of order \<open>k\<close> arrive at the same place.\<close>

lemma scale_down1_order:
  "order x k \<Longrightarrow> 3 \<le> k \<Longrightarrow> scale_down1 x y = (drop_bit (k - 3) x, y + 10 * int (k - 3))"
proof (induction x y arbitrary: k rule: scale_down1.induct)
  case (1 x y)
  show ?case
  proof (cases "15 < x")
    case True
    then have "16 \<le> unat x" by (simp add: word_less_nat_alt)
    then have "(2 :: nat) ^ 4 < 2 ^ Suc k" using "1.prems"(1) by (simp add: order_def)
    then have "4 < Suc k" by (rule pow2_less)
    then have k: "k - 1 + 1 = k" "3 \<le> k - 1" by simp_all
    then have "order (drop_bit 1 x) (k - 1)" using "1.prems"(1) by (simp add: order_drop del: One_nat_def)
    from "1.IH" [OF True this k(2)] have "scale_down1 (drop_bit 1 x) (y + 10) =
        (drop_bit (k - 1 - 3 + 1) x, y + 10 + 10 * int (k - 1 - 3))" by (simp add: add.commute)
    moreover have "k - 1 - 3 + 1 = k - 3" using k by simp
    moreover have "y + 10 + 10 * int (k - 1 - 3) = y + 10 * int (k - 3)" using k by simp
    ultimately show ?thesis using True by (subst scale_down1.simps) (simp only: if_True)
  next
    case False
    then have "unat x < 2 ^ 4" by (simp add: word_less_nat_alt)
    moreover have "2 ^ k \<le> unat x" using "1.prems"(1) by (simp add: order_def)
    ultimately have "(2 :: nat) ^ k < 2 ^ 4" by (rule le_less_trans [rotated])
    then have "k < 4" by (rule pow2_less)
    with "1.prems"(2) have "k = 3" by simp
    with False show ?thesis by (subst scale_down1.simps) simp
  qed
qed

lemma scale_down_order:
  "order x k \<Longrightarrow> 3 \<le> k \<Longrightarrow>
   (case scale_down4 x y of (x, y) \<Rightarrow> scale_down1 x y) = (drop_bit (k - 3) x, y + 10 * int (k - 3))"
proof (induction x y arbitrary: k rule: scale_down4.induct)
  case (1 x y)
  show ?case
  proof (cases "255 < x")
    case True
    then have "256 \<le> unat x" by (simp add: word_less_nat_alt)
    then have "(2 :: nat) ^ 8 < 2 ^ Suc k" using "1.prems"(1) by (simp add: order_def)
    then have "8 < Suc k" by (rule pow2_less)
    then have k: "k - 4 + 4 = k" "3 \<le> k - 4" by simp_all
    then have "order (drop_bit 4 x) (k - 4)" using "1.prems"(1) by (simp add: order_drop)
    from "1.IH" [OF True this k(2)] have "(case scale_down4 (drop_bit 4 x) (y + 40) of (x, y) \<Rightarrow> scale_down1 x y) =
        (drop_bit (k - 4 - 3 + 4) x, y + 40 + 10 * int (k - 4 - 3))" by (simp add: add.commute)
    moreover have "k - 4 - 3 + 4 = k - 3" using k by simp
    moreover have "y + 40 + 10 * int (k - 4 - 3) = y + 10 * int (k - 3)" using k by simp
    ultimately show ?thesis using True by (subst scale_down4.simps) (simp only: if_True)
  next
    case False
    then show ?thesis using scale_down1_order [OF "1.prems"] by (subst scale_down4.simps) simp
  qed
qed

lemma top_bit: "order x k \<Longrightarrow> bit x k \<and> (\<forall>i. k < i \<longrightarrow> \<not> bit x i)"
proof -
  assume o: "order x k"
  have "unat x div 2 ^ k = 1" using o by (simp add: order_def div_nat_eqI)
  then have "odd (unat x div 2 ^ k)" by simp
  then have "bit (unat x) k" by (simp add: bit_iff_odd)
  moreover have "\<not> bit (unat x) i" if "k < i" for i
  proof -
    have "(2 :: nat) ^ Suc k \<le> 2 ^ i" using that by (intro power_increasing) simp_all
    then have "unat x div 2 ^ i = 0" using o by (simp add: order_def)
    then show ?thesis by (simp add: bit_iff_odd)
  qed
  ultimately show ?thesis using order_less [OF o] by (auto simp: bit_unsigned_iff)
qed

lemma clzll_order: "order x k \<Longrightarrow> clzll x = 63 - k"
proof -
  assume o: "order x k"
  have k: "k < 64" using o by (rule order_less)
  have "[0..<64] = [0..<k] @ k # [Suc k..<64]" using k upt_add_eq_append [of 0 k "64 - k"] upt_conv_Cons by simp
  then have "rev [0..<64] = rev [Suc k..<64] @ k # rev [0..<k]" by simp
  moreover have "takeWhile (\<lambda>i. \<not> bit x i) (rev [Suc k..<64] @ k # rev [0..<k]) = rev [Suc k..<64]"
    using top_bit [OF o] by (subst takeWhile_append2) (auto simp: Suc_le_eq)
  ultimately show ?thesis by (simp add: clzll_def)
qed

lemma scale_up_order:
  "order x k \<Longrightarrow> k < 3 \<Longrightarrow> \<exists>z. scale_up x y = Some (z, y - 10 * int (3 - k)) \<and> unat z = unat x * 2 ^ (3 - k)"
proof (induction "3 - k" arbitrary: x y k)
  case 0
  then show ?case by simp
next
  case (Suc d)
  have small: "unat x < 8"
  proof -
    have "(2 :: nat) ^ Suc k \<le> 2 ^ 3" using Suc.prems by (intro power_increasing) simp_all
    with Suc.prems show ?thesis by (simp add: order_def)
  qed
  have up: "unat (push_bit 1 x) = unat x * 2"
    using small by (simp add: push_bit_eq_mult unat_word_ariths)
  have step: "scale_up x y = scale_up (push_bit 1 x) (y - 10)"
    using small by (subst scale_up.simps) (simp add: word_less_nat_alt)
  have o: "order (push_bit 1 x) (Suc k)" using Suc.prems(1) unfolding order_def up by simp
  show ?case
  proof (cases "Suc k < 3")
    case True
    have "d = 3 - Suc k" using Suc.hyps(2) by simp
    from Suc.hyps(1) [OF this o True, of "y - 10"]
    obtain z where "scale_up (push_bit 1 x) (y - 10) = Some (z, y - 10 - 10 * int (3 - Suc k))"
      and "unat z = unat (push_bit 1 x) * 2 ^ (3 - Suc k)" by blast
    moreover have "3 - k = Suc (3 - Suc k)" using True by simp
    ultimately show ?thesis unfolding step up by simp
  next
    case False
    then have "k = 2" using Suc.prems(2) by simp
    then have "\<not> push_bit 1 x < 8" using o unfolding word_less_nat_alt order_def by simp
    then have "scale_up (push_bit 1 x) (y - 10) = Some (push_bit 1 x, y - 10)" by (subst scale_up.simps) simp
    with up show ?thesis unfolding step using \<open>k = 2\<close> by simp
  qed
qed

lemma to_i16_id: "- 32768 \<le> x \<Longrightarrow> x < 32768 \<Longrightarrow> to_i16 x = x"
  by (simp add: to_i16_def sint_sbintrunc' signed_take_bit_int_eq_self)

lemma mantissa_bounds: "j < 8 \<Longrightarrow> 0 \<le> mantissas ! j \<and> mantissas ! j < 10"
proof -
  assume "j < 8"
  then have "j \<in> set [0, 1, 2, 3, 4, 5, 6, 7]" by auto
  then show ?thesis by (auto simp: mantissas_def)
qed

lemma log_est_value:
  assumes o: "order x k"
  shows "log_est gcc x = Some (10 * int k + mantissas ! (digits x k - 8))"
proof -
  have k: "k < 64" using o by (rule order_less)
  have d: "8 \<le> digits x k" "digits x k < 16" using digits_range [OF o] by simp_all
  then have tab: "0 \<le> mantissas ! (digits x k - 8)" "mantissas ! (digits x k - 8) < 10"
    using mantissa_bounds [of "digits x k - 8"] by simp_all
  have result: "(case Some (z, 10 * int k + 10) of None \<Rightarrow> None
      | Some (x, y) \<Rightarrow> Some (to_i16 (mantissas ! unat (x AND 7) + y - 10))) =
      Some (10 * int k + mantissas ! (digits x k - 8))" if "unat z = digits x k" for z :: u64
  proof -
    have "unat (z AND 7) = digits x k - 8" using that d by (simp add: mantissa_index)
    then show ?thesis using tab k by (simp add: to_i16_id)
  qed
  show ?thesis
  proof (cases "3 \<le> k")
    case True
    then have "(2 :: nat) ^ 3 \<le> 2 ^ k" by (intro power_increasing) simp_all
    then have "\<not> x < 8" using o by (simp add: order_def word_less_nat_alt)
    moreover have "40 + 10 * int (k - 3) = 10 * int k + 10" using True by simp
    moreover have "60 - clzll x = k - 3" using k by (simp add: clzll_order [OF o])
    ultimately show ?thesis
      using result [of "drop_bit (k - 3) x"] scale_down_order [OF o True, of 40] digits_shift [OF True, of x]
      by (simp add: log_est_def Let_def split_def mult.commute)
  next
    case False
    then have "(2 :: nat) ^ Suc k \<le> 2 ^ 3" by (intro power_increasing) simp_all
    then have x: "x < 8" using o by (simp add: order_def word_less_nat_alt)
    show ?thesis
    proof (cases "k = 0")
      case True
      then have "unat x = 1" using o by (simp add: order_def)
      then show ?thesis using True x by (simp add: log_est_def digits_def mantissas_def word_less_nat_alt)
    next
      case nz: False
      have "(2 :: nat) ^ 1 \<le> 2 ^ k" using nz by (intro power_increasing) simp_all
      then have "\<not> x < 2" using o by (simp add: order_def word_less_nat_alt)
      obtain z where z: "scale_up x 40 = Some (z, 40 - 10 * int (3 - k))" "unat z = unat x * 2 ^ (3 - k)"
        using scale_up_order [OF o, of 40] False not_le by blast
      have "(8 :: nat) = 2 ^ (3 - k) * 2 ^ k" using False power_add [of "2 :: nat" "3 - k" k] by simp
      then have "unat x * 8 = (unat x * 2 ^ (3 - k)) * 2 ^ k" by (simp only: mult.assoc)
      then have "unat x * 8 div 2 ^ k = unat x * 2 ^ (3 - k)"
        by (metis nonzero_mult_div_cancel_right power_not_zero zero_neq_numeral)
      then have "unat z = digits x k" unfolding z(2) digits_def by (rule sym)
      moreover have "40 - 10 * int (3 - k) = 10 * int k + 10" using False by simp
      ultimately show ?thesis using result [of z] z(1) x \<open>\<not> x < 2\<close> by (simp add: log_est_def)
    qed
  qed
qed

section \<open>Back to an integer\<close>

lemma mantissa_back:
  assumes "j < 8"
  shows "(let n = word_of_int (mantissas ! j) :: u64
          in if 5 \<le> n then n - 2 else if 1 \<le> n then n - 1 else n) + 8 = of_nat (j + 8)"
proof -
  have "j \<in> set [0, 1, 2, 3, 4, 5, 6, 7]" using assms by auto
  then show ?thesis by (auto simp: mantissas_def word_less_nat_alt word_le_nat_alt)
qed

lemma unat_scaled:
  assumes "d < 16" and "k \<le> 60"
  shows "unat (push_bit k (of_nat d :: u64)) = d * 2 ^ k"
proof -
  have "(2 :: nat) ^ k \<le> 2 ^ 60" using assms(2) by (intro power_increasing) simp_all
  then have "d * 2 ^ k < 16 * 2 ^ 60" using assms(1) by (intro mult_less_le_imp_less) simp_all
  moreover have "push_bit k (of_nat d :: u64) = of_nat (d * 2 ^ k)" by (simp add: push_bit_eq_mult)
  ultimately show ?thesis by (simp add: unat_of_nat take_bit_nat_eq_self del: of_nat_mult)
qed

lemma to_int_value:
  assumes "8 \<le> d" and "d < 16" and "k \<le> 60"
  shows "\<exists>w. log_est_to_int (10 * int k + mantissas ! (d - 8)) = Inr w \<and> unat w = d * 2 ^ k div 8"
proof -
  have t: "0 \<le> mantissas ! (d - 8)" "mantissas ! (d - 8) < 10" using mantissa_bounds [of "d - 8"] assms by simp_all
  let ?x = "10 * int k + mantissas ! (d - 8)"
  have q: "?x sdiv 10 = int k" "?x smod 10 = mantissas ! (d - 8)"
    using t by (simp_all add: signed_divide_int_def signed_modulo_int_def sgn_if)
  have m: "(let n = word_of_int (mantissas ! (d - 8)) :: u64
          in if 5 \<le> n then n - 2 else if 1 \<le> n then n - 1 else n) + 8 = of_nat d"
    using mantissa_back [of "d - 8"] assms by simp
  show ?thesis
  proof (cases "3 \<le> k")
    case True
    then have "(2 :: nat) ^ k = 2 ^ (k - 3) * 8" using power_add [of "2 :: nat" "k - 3" 3] by simp
    then have "unat (push_bit (k - 3) (of_nat d :: u64)) = d * 2 ^ k div 8"
      using unat_scaled [OF assms(2), of "k - 3"] assms(3) by simp
    then show ?thesis using m True assms(3) by (simp add: log_est_to_int_def q Let_def nat_diff_distrib)
  next
    case False
    then have "(8 :: nat) = 2 ^ (3 - k) * 2 ^ k" using power_add [of "2 :: nat" "3 - k" k] by simp
    then have "d * 2 ^ k div 8 = d div 2 ^ (3 - k)" by (metis div_mult_mult2 power_not_zero zero_neq_numeral)
    moreover have "unat (drop_bit (3 - k) (of_nat d :: u64)) = d div 2 ^ (3 - k)"
      using assms(2) by (simp only: unat_drop_bit) (simp add: unat_of_nat take_bit_nat_eq_self)
    ultimately show ?thesis using m False by (simp add: log_est_to_int_def q Let_def nat_diff_distrib)
  qed
qed

section \<open>Properties\<close>

text \<open>Both bodies of sqlite3LogEst return, on every value, ten times the position of the
  leading binary digit plus an entry of the table for the three digits after it; they agree.\<close>

theorem log_est_exact:
  "log_est gcc 0 = Some 0 \<and>
   (\<exists>k. (x = 0 \<or> 2 ^ k \<le> unat x \<and> unat x < 2 ^ Suc k) \<and>
     log_est gcc x = Some (if x = 0 then 0 else 10 * int k + mantissas ! (unat x * 8 div 2 ^ k - 8)))"
proof
  show "log_est gcc 0 = Some 0" by (simp add: log_est_def)
  then show "\<exists>k. (x = 0 \<or> 2 ^ k \<le> unat x \<and> unat x < 2 ^ Suc k) \<and>
     log_est gcc x = Some (if x = 0 then 0 else 10 * int k + mantissas ! (unat x * 8 div 2 ^ k - 8))"
    using order_exists [of x] log_est_value [of x _ gcc] by (cases "x = 0") (auto simp: order_def digits_def)
qed

text \<open>An estimate converted back is the value rounded down to its four leading binary digits,
  so it is at most the value and more than eight ninths of it, as long as the value is below
  2^61 (above, the conversion gives the largest signed value).\<close>

theorem log_est_round_trip:
  assumes "log_est gcc x = Some e" and "0 < unat x" and "unat x < 2 ^ 61"
  shows "\<exists>w. log_est_to_int e = Inr w \<and> unat w \<le> unat x \<and> 8 * unat x < 9 * unat w + 8"
proof -
  have "x \<noteq> 0" using assms(2) by auto
  then obtain k where o: "order x k" using order_exists by blast
  have d: "8 \<le> digits x k" "digits x k < 16" using digits_range [OF o] by simp_all
  have "(2 :: nat) ^ k < 2 ^ 61" using o assms(3) by (auto simp: order_def intro: le_less_trans)
  then have "k < 61" by (rule pow2_less)
  then obtain w where w: "log_est_to_int e = Inr w" "unat w = digits x k * 2 ^ k div 8"
    using to_int_value [OF d, of k] log_est_value [OF o, of gcc] assms(1) by auto
  have "digits x k * 2 ^ k + unat x * 8 mod 2 ^ k = unat x * 8"
    unfolding digits_def by (rule div_mult_mod_eq)
  moreover have "unat x * 8 mod 2 ^ k < 2 ^ k" by (rule mod_less_divisor) simp
  ultimately have "digits x k * 2 ^ k \<le> unat x * 8" "unat x * 8 < digits x k * 2 ^ k + 2 ^ k" by linarith+
  moreover have "8 * 2 ^ k \<le> digits x k * 2 ^ k" using d(1) by (intro mult_right_mono) simp_all
  ultimately have "digits x k * 2 ^ k div 8 \<le> unat x" "8 * unat x < 9 * (digits x k * 2 ^ k div 8) + 8"
    by linarith+
  then show ?thesis using w by auto
qed

theorem log_est_round_trip_witness: "log_est_to_int 99 = Inr 960 \<and> 8 * unat (1000 :: u64) < 9 * 960 + 8"
proof -
  have "order 1000 9" by (simp add: order_def)
  then have e: "log_est True 1000 = Some 99"
    using log_est_value [of 1000 9 True] by (simp add: digits_def mantissas_def)
  have "log_est_to_int 99 = Inr 960"
    by (simp add: log_est_to_int_def signed_divide_int_def signed_modulo_int_def sgn_if Let_def push_bit_eq_mult)
  then show ?thesis using log_est_round_trip [OF e] by simp
qed

text \<open>The estimated sum does not depend on the order of its operands, is at least the larger
  one and exceeds it by at most ten; the table is never read outside its bounds.\<close>

theorem log_est_add_bounds:
  assumes "- 32768 \<le> a" and "a \<le> 32757" and "- 32768 \<le> b" and "b \<le> 32757"
  shows "log_est_add a b = log_est_add b a \<and> max a b \<le> log_est_add a b \<and> log_est_add a b \<le> max a b + 10"
proof -
  have t: "0 \<le> sum_table ! nat i \<and> sum_table ! nat i \<le> 10" if "0 \<le> i" "i \<le> 31" for i
  proof -
    have "nat i < length sum_table" using that by (simp add: sum_table_def)
    then have "sum_table ! nat i \<in> set sum_table" by (rule nth_mem)
    then show ?thesis by (auto simp: sum_table_def)
  qed
  show ?thesis using assms t [of "a - b"] t [of "b - a"]
    by (cases "a = b") (auto simp: log_est_add_def to_i16_id max_def)
qed

theorem log_est_add_bounds_witness: "log_est_add 40 33 = 47 \<and> log_est_add 33 40 = log_est_add 40 33"
  using log_est_add_bounds [of 40 33] by (simp add: log_est_add_def to_i16_id sum_table_def)

end
