(* ===== verification/Utf.thy ===== *)
theory Utf
  imports Prelude
begin

text \<open>
  The text encodings of the database library, deps/sqlite3/sqlite3.c: the macros WRITE\_UTF8,
  WRITE\_UTF16LE, WRITE\_UTF16BE and READ\_UTF8, the functions sqlite3Utf8Read and
  sqlite3Utf8ReadLimited, and the translation of a string, sqlite3VdbeMemTranslate, with
  sqlite3VdbeMemHandleBom. A string is the list of its bytes up to the end pointer zTerm, the
  terminator not included; a macro that moves a pointer returns what is left of the list.
\<close>

section \<open>Writing a character\<close>

definition write_utf8 :: "u32 \<Rightarrow> bytes" where
  "write_utf8 c =
     (if c < 0x80 then [ucast (c AND 0xFF)]
      else if c < 0x800 then
        [0xC0 + ucast (drop_bit 6 c AND 0x1F), 0x80 + ucast (c AND 0x3F)]
      else if c < 0x10000 then
        [0xE0 + ucast (drop_bit 12 c AND 0x0F), 0x80 + ucast (drop_bit 6 c AND 0x3F),
         0x80 + ucast (c AND 0x3F)]
      else
        [0xF0 + ucast (drop_bit 18 c AND 0x07), 0x80 + ucast (drop_bit 12 c AND 0x3F),
         0x80 + ucast (drop_bit 6 c AND 0x3F), 0x80 + ucast (c AND 0x3F)])"

definition write_utf16le :: "u32 \<Rightarrow> bytes" where
  "write_utf16le c =
     (if c \<le> 0xFFFF then [ucast (c AND 0x00FF), ucast (drop_bit 8 c AND 0x00FF)]
      else
        [ucast ((drop_bit 10 c AND 0x003F) + (drop_bit 10 (c - 0x10000) AND 0x00C0)),
         ucast (0x00D8 + (drop_bit 18 (c - 0x10000) AND 0x03)),
         ucast (c AND 0x00FF), ucast (0x00DC + (drop_bit 8 c AND 0x03))])"

definition write_utf16be :: "u32 \<Rightarrow> bytes" where
  "write_utf16be c =
     (if c \<le> 0xFFFF then [ucast (drop_bit 8 c AND 0x00FF), ucast (c AND 0x00FF)]
      else
        [ucast (0x00D8 + (drop_bit 18 (c - 0x10000) AND 0x03)),
         ucast ((drop_bit 10 c AND 0x003F) + (drop_bit 10 (c - 0x10000) AND 0x00C0)),
         ucast (0x00DC + (drop_bit 8 c AND 0x03)), ucast (c AND 0x00FF)])"

section \<open>Reading a character\<close>

text \<open>sqlite3Utf8Trans1, the bits of the first byte of a longer character.\<close>

definition utf8_trans1 :: bytes where
  "utf8_trans1 =
    [0x00, 0x01, 0x02, 0x03, 0x04, 0x05, 0x06, 0x07,
     0x08, 0x09, 0x0a, 0x0b, 0x0c, 0x0d, 0x0e, 0x0f,
     0x10, 0x11, 0x12, 0x13, 0x14, 0x15, 0x16, 0x17,
     0x18, 0x19, 0x1a, 0x1b, 0x1c, 0x1d, 0x1e, 0x1f,
     0x00, 0x01, 0x02, 0x03, 0x04, 0x05, 0x06, 0x07,
     0x08, 0x09, 0x0a, 0x0b, 0x0c, 0x0d, 0x0e, 0x0f,
     0x00, 0x01, 0x02, 0x03, 0x04, 0x05, 0x06, 0x07,
     0x00, 0x01, 0x02, 0x03, 0x00, 0x01, 0x00, 0x00]"

definition continuation :: "u8 \<Rightarrow> bool" where
  "continuation b \<longleftrightarrow> b AND 0xC0 = 0x80"

definition add_continuation :: "u32 \<Rightarrow> u8 \<Rightarrow> u32" where
  "add_continuation c b = push_bit 6 c + ucast (0x3F AND b)"

fun utf8_tail :: "u32 \<Rightarrow> bytes \<Rightarrow> u32 \<times> bytes" where
  "utf8_tail c [] = (c, [])"
| "utf8_tail c (b # bs) =
     (if continuation b then utf8_tail (add_continuation c b) bs else (c, b # bs))"

text \<open>What a longer character must not encode is replaced.\<close>

definition replaced :: "u32 \<Rightarrow> u32" where
  "replaced c =
     (if c < 0x80 \<or> c AND 0xFFFFF800 = 0xD800 \<or> c AND 0xFFFFFFFE = 0xFFFE then 0xFFFD else c)"

text \<open>The macro, which is only used before the end: at the end it would read the zero there.\<close>

fun read_utf8 :: "bytes \<Rightarrow> u32 \<times> bytes" where
  "read_utf8 [] = (0, [])"
| "read_utf8 (b # bs) =
     (if 0xC0 \<le> b then
        (let (c, rest) = utf8_tail (ucast (utf8_trans1 ! unat (b - 0xC0))) bs in (replaced c, rest))
      else (ucast b, bs))"

text \<open>The function without an end pointer, on the bytes of an object; \<^const>\<open>None\<close> is a read past its
  end.\<close>

fun utf8_tail_open :: "u32 \<Rightarrow> bytes \<Rightarrow> (u32 \<times> bytes) option" where
  "utf8_tail_open c [] = None"
| "utf8_tail_open c (b # bs) =
     (if continuation b then utf8_tail_open (add_continuation c b) bs else Some (c, b # bs))"

fun utf8_read :: "bytes \<Rightarrow> (u32 \<times> bytes) option" where
  "utf8_read [] = None"
| "utf8_read (b # bs) =
     (if 0xC0 \<le> b then
        (case utf8_tail_open (ucast (utf8_trans1 ! unat (b - 0xC0))) bs of
           None \<Rightarrow> None
         | Some (c, rest) \<Rightarrow> Some (replaced c, rest))
      else Some (ucast b, bs))"

function limited_loop :: "bytes \<Rightarrow> nat \<Rightarrow> nat \<Rightarrow> u32 \<Rightarrow> nat \<times> u32" where
  "limited_loop z n i c =
     (if i < n \<and> continuation (z ! i) then limited_loop z n (i + 1) (add_continuation c (z ! i)) else (i, c))"
  by pat_completeness auto
termination by (relation "measure (\<lambda>(z, n, i, c). n - i)") auto

declare limited_loop.simps [simp del]

definition utf8_read_limited :: "bool \<Rightarrow> bytes \<Rightarrow> nat \<Rightarrow> trap + nat \<times> u32" where
  "utf8_read_limited nd z n =
     (if \<not> asserts nd (0 < n) then Inl Assert_failed
      else if 0xC0 \<le> z ! 0 then
        Inr (limited_loop z (min n 4) 1 (ucast (utf8_trans1 ! unat (z ! 0 - 0xC0))))
      else Inr (1, ucast (z ! 0)))"

section \<open>Translating a string\<close>

datatype encoding = Utf8 | Utf16le | Utf16be

definition surrogate :: "u32 \<Rightarrow> bool" where
  "surrogate c \<longleftrightarrow> 0xD800 \<le> c \<and> c < 0xE000"

definition join_surrogates :: "u32 \<Rightarrow> u32 \<Rightarrow> u32" where
  "join_surrogates c c2 =
     (c2 AND 0x03FF) + push_bit 10 (c AND 0x003F) + push_bit 10 ((c AND 0x03C0) + 0x0040)"

text \<open>The bodies of the two loops that read UTF-16. The strings have an even length there, so the
  last equations are not reached.\<close>

fun read_utf16le :: "bytes \<Rightarrow> u32 \<times> bytes" where
  "read_utf16le (b0 # b1 # bs) =
     (let c = ucast b0 + push_bit 8 (ucast b1)
      in if surrogate c then
           (case bs of
              d0 # d1 # rest \<Rightarrow> (join_surrogates c (ucast d0 + push_bit 8 (ucast d1)), rest)
            | _ \<Rightarrow> (c, bs))
         else (c, bs))"
| "read_utf16le _ = (0, [])"

fun read_utf16be :: "bytes \<Rightarrow> u32 \<times> bytes" where
  "read_utf16be (b0 # b1 # bs) =
     (let c = push_bit 8 (ucast b0) + ucast b1
      in if surrogate c then
           (case bs of
              d0 # d1 # rest \<Rightarrow> (join_surrogates c (push_bit 8 (ucast d0) + ucast d1), rest)
            | _ \<Rightarrow> (c, bs))
         else (c, bs))"
| "read_utf16be _ = (0, [])"

text \<open>The four loops read with one macro and write with another until the input is used up.\<close>

definition read_char :: "encoding \<Rightarrow> bytes \<Rightarrow> u32 \<times> bytes" where
  "read_char enc z =
     (case enc of Utf8 \<Rightarrow> read_utf8 z | Utf16le \<Rightarrow> read_utf16le z | Utf16be \<Rightarrow> read_utf16be z)"

definition write_char :: "encoding \<Rightarrow> u32 \<Rightarrow> bytes" where
  "write_char enc c =
     (case enc of Utf8 \<Rightarrow> write_utf8 c | Utf16le \<Rightarrow> write_utf16le c | Utf16be \<Rightarrow> write_utf16be c)"

lemma utf8_tail_length: "length (snd (utf8_tail c bs)) \<le> length bs"
  by (induction c bs rule: utf8_tail.induct) auto

lemma read_char_shorter: "z \<noteq> [] \<Longrightarrow> length (snd (read_char enc z)) < length z"
proof -
  assume "z \<noteq> []"
  then have "length (snd (read_utf8 z)) < length z"
    using utf8_tail_length by (cases z) (auto simp: split_def Let_def less_Suc_eq_le)
  moreover have "length (snd (read_utf16le z)) < length z"
    using \<open>z \<noteq> []\<close> by (induction z rule: read_utf16le.induct) (auto simp: Let_def split: list.split)
  moreover have "length (snd (read_utf16be z)) < length z"
    using \<open>z \<noteq> []\<close> by (induction z rule: read_utf16be.induct) (auto simp: Let_def split: list.split)
  ultimately show ?thesis by (cases enc) (simp_all add: read_char_def)
qed

function translate_loop :: "encoding \<Rightarrow> encoding \<Rightarrow> bytes \<Rightarrow> bytes" where
  "translate_loop enc desired z =
     (if z = [] then []
      else (let (c, rest) = read_char enc z in write_char desired c @ translate_loop enc desired rest))"
  by pat_completeness auto
termination
  by (relation "measure (\<lambda>(enc, desired, z). length z)") (auto, metis read_char_shorter snd_conv)

declare translate_loop.simps [simp del]

fun swap_bytes :: "bytes \<Rightarrow> bytes" where
  "swap_bytes (a # b # bs) = b # a # swap_bytes bs"
| "swap_bytes bs = bs"

text \<open>
  \<open>room\<close> says whether the memory for the result is there; \<^const>\<open>None\<close> is SQLITE\_NOMEM. The
  result is the string without its terminator, and the last assertion is that the result and the
  terminator fit into the buffer.
\<close>

definition mem_translate ::
  "bool \<Rightarrow> bool \<Rightarrow> encoding \<Rightarrow> encoding \<Rightarrow> bytes \<Rightarrow> trap + bytes option" where
  "mem_translate nd room enc desired z =
     (if \<not> asserts nd (enc \<noteq> desired) then Inl Assert_failed
      else if \<not> room then Inr None
      else if enc \<noteq> Utf8 \<and> desired \<noteq> Utf8 then Inr (Some (swap_bytes z))
      else
       (let z = (if desired = Utf8 then take (length z div 2 * 2) z else z);
            len = (if desired = Utf8 then 2 * length z + 1 else 2 * length z + 2);
            out = translate_loop enc desired z
        in if \<not> asserts nd (length out + (if desired = Utf8 then 1 else 2) \<le> len)
           then Inl Assert_failed else Inr (Some out)))"

text \<open>A byte-order mark is removed and sets the encoding.\<close>

definition handle_bom :: "bool \<Rightarrow> encoding \<times> bytes \<Rightarrow> bool \<times> encoding \<times> bytes" where
  "handle_bom room m =
     (case m of (enc, z) \<Rightarrow>
        (let bom = (if 1 < length z then
                      (if z ! 0 = 0xFE \<and> z ! 1 = 0xFF then Some Utf16be
                       else if z ! 0 = 0xFF \<and> z ! 1 = 0xFE then Some Utf16le else None)
                    else None)
         in case bom of
              None \<Rightarrow> (True, enc, z)
            | Some e \<Rightarrow> if room then (True, e, drop 2 z) else (False, enc, z)))"

end
