(* ===== verification/Utf_Codec.thy ===== *)
theory Utf_Codec
  imports Utf
begin

text \<open>
  What the text encodings of deps/sqlite3/sqlite3.c promise: the translation of a string stays
  inside the buffer that was allocated for it, and a string of characters that is translated to
  UTF-16 and back is unchanged.
\<close>

section \<open>The size of the result\<close>

lemma length_write_utf8: "length (write_utf8 c) \<le> 4"
  by (simp add: write_utf8_def)

lemma length_write_utf16:
  "desired \<noteq> Utf8 \<Longrightarrow> length (write_char desired c) = (if c \<le> 0xFFFF then 2 else 4)"
  by (cases desired) (simp_all add: write_char_def write_utf16le_def write_utf16be_def)

lemma trans1_less: "i < 64 \<Longrightarrow> utf8_trans1 ! i < 0x20"
proof -
  assume "i < 64"
  then have "utf8_trans1 ! i \<in> set utf8_trans1" by (intro nth_mem) (simp add: utf8_trans1_def)
  moreover have "\<forall>b \<in> set utf8_trans1. b < 0x20" by (simp add: utf8_trans1_def)
  ultimately show ?thesis by blast
qed

lemma unat_lead: "0xC0 \<le> b \<Longrightarrow> unat (b - 0xC0 :: u8) = unat b - 192 \<and> unat b - 192 < 64"
proof -
  assume "0xC0 \<le> b"
  then have "unat (b - 0xC0) = unat b - 192" by (simp add: unat_sub)
  moreover have "unat b < 256" using unsigned_less [of b, where ?'a = nat] by simp
  ultimately show ?thesis by simp
qed

text \<open>A character that needs a surrogate pair takes at least two bytes of UTF-8.\<close>

lemma read_utf8_large:
  assumes "read_utf8 z = (c, rest)" and "z \<noteq> []" and "0xFFFF < c"
  shows "length rest + 2 \<le> length z"
proof -
  obtain b bs where z: "z = b # bs" using assms(2) by (cases z) auto
  have r: "0xC0 \<le> b"
  proof (rule ccontr)
    assume "\<not> 0xC0 \<le> b"
    then have "c = ucast b" using assms(1) z by simp
    moreover have "unat (ucast b :: u32) < 256"
      using unsigned_less [of b, where ?'a = nat] by (simp add: unsigned_ucast_eq take_bit_nat_eq_self)
    ultimately show False using assms(3) by (simp add: word_less_nat_alt)
  qed
  let ?t = "ucast (utf8_trans1 ! unat (b - 0xC0)) :: u32"
  have "utf8_trans1 ! unat (b - 0xC0) < 0x20" using trans1_less unat_lead [OF r] by simp
  then have "unat ?t < 32" by (simp add: word_less_nat_alt unsigned_ucast_eq take_bit_nat_eq_self)
  then have t: "replaced ?t = 0xFFFD" by (simp add: replaced_def word_less_nat_alt)
  show ?thesis
  proof (cases bs)
    case Nil
    then have "c = 0xFFFD" using assms(1) z r t by simp
    then show ?thesis using assms(3) by simp
  next
    case (Cons d ds)
    show ?thesis
    proof (cases "continuation d")
      case True
      then have "rest = snd (utf8_tail (add_continuation ?t d) ds)" using assms(1) z r Cons by (auto simp: split_def Let_def)
      then show ?thesis using utf8_tail_length [of "add_continuation ?t d" ds] z Cons by simp
    next
      case False
      then have "c = 0xFFFD" using assms(1) z r t Cons by simp
      then show ?thesis using assms(3) by simp
    qed
  qed
qed

lemma read_utf16_even:
  assumes "read_char enc z = (c, rest)" and "enc \<noteq> Utf8" and "even (length z)" and "z \<noteq> []"
  shows "even (length rest) \<and> length rest + 2 \<le> length z"
proof -
  obtain b0 b1 bs where z: "z = b0 # b1 # bs" using assms(3,4) by (cases z rule: read_utf16le.cases) auto
  then have "even (length bs)" using assms(3) by simp
  then show ?thesis using assms(1,2) z
    by (cases enc; cases bs rule: read_utf16le.cases) (auto simp: read_char_def Let_def split: if_splits)
qed

lemma translate_loop_length:
  assumes "enc = Utf8 \<and> desired \<noteq> Utf8 \<or> enc \<noteq> Utf8 \<and> desired = Utf8 \<and> even (length z)"
  shows "length (translate_loop enc desired z) \<le> 2 * length z"
  using assms
proof (induction enc desired z rule: translate_loop.induct)
  case (1 enc desired z)
  show ?case
  proof (cases "z = []")
    case False
    obtain c rest where r: "read_char enc z = (c, rest)" by fastforce
    have less: "length rest < length z" using read_char_shorter [OF False, of enc] r by simp
    have "length (write_char desired c) + 2 * length rest \<le> 2 * length z \<and>
        (enc \<noteq> Utf8 \<longrightarrow> even (length rest))"
    proof (cases "enc = Utf8")
      case True
      then show ?thesis
        using "1.prems" less read_utf8_large [of z c rest] r False
        by (auto simp: length_write_utf16 read_char_def not_le)
    next
      case nu: False
      then have "length (write_char desired c) \<le> 4" using "1.prems" length_write_utf8 by (simp add: write_char_def)
      then show ?thesis using read_utf16_even [OF r nu _ False] "1.prems" nu by auto
    qed
    moreover have "length (translate_loop enc desired rest) \<le> 2 * length rest"
      using "1.IH" [OF False refl] r "1.prems" calculation by auto
    ultimately show ?thesis using False r by (subst translate_loop.simps) simp
  qed (simp add: translate_loop.simps)
qed

section \<open>Words as numbers\<close>

lemma unat_low_bits:
  "unat (w AND 0x03 :: u32) = unat w mod 4" "unat (w AND 0x07 :: u32) = unat w mod 8"
  "unat (w AND 0x0F :: u32) = unat w mod 16" "unat (w AND 0x1F :: u32) = unat w mod 32"
  "unat (w AND 0x3F :: u32) = unat w mod 64" "unat (w AND 0xFF :: u32) = unat w mod 256"
  "unat (w AND 0x3FF :: u32) = unat w mod 1024"
proof -
  have m: "unat (w AND mask k :: u32) = unat w mod 2 ^ k" for k
  proof -
    have "unat (w AND mask k) = take_bit k (unat w)"
      by (simp only: take_bit_eq_mask [symmetric] unsigned_take_bit_eq)
    then show ?thesis by (simp only: take_bit_eq_mod)
  qed
  show "unat (w AND 0x03 :: u32) = unat w mod 4" "unat (w AND 0x07 :: u32) = unat w mod 8"
  "unat (w AND 0x0F :: u32) = unat w mod 16" "unat (w AND 0x1F :: u32) = unat w mod 32"
  "unat (w AND 0x3F :: u32) = unat w mod 64" "unat (w AND 0xFF :: u32) = unat w mod 256"
  "unat (w AND 0x3FF :: u32) = unat w mod 1024"
    using m [of 2] m [of 3] m [of 4] m [of 5] m [of 6] m [of 8] m [of 10]
    by (simp_all add: mask_eq_exp_minus_1)
qed

lemma unat_high_bits:
  "unat (w AND 0xC0 :: u32) = unat w div 64 mod 4 * 64"
  "unat (w AND 0x3C0 :: u32) = unat w div 64 mod 16 * 64"
  "unat (w AND 0xFFFFF800 :: u32) = unat w div 2048 * 2048"
  "unat (w AND 0xFFFFFFFE :: u32) = unat w div 2 * 2"
proof -
  have m: "unat (w AND push_bit j (mask k) :: u32) = unat w div 2 ^ j mod 2 ^ k * 2 ^ j" if "j + k \<le> 32" for j k
  proof -
    have "w AND push_bit j (mask k) = push_bit j (take_bit k (drop_bit j w))"
      by (rule bit_word_eqI) (auto simp: bit_simps)
    moreover have "unat (push_bit j (take_bit k (drop_bit j w)) :: u32) = push_bit j (take_bit k (drop_bit j (unat w)))"
    proof -
      have "unat (take_bit k (drop_bit j w)) = take_bit k (drop_bit j (unat w))"
        by (simp only: unsigned_take_bit_eq unat_drop_bit_eq)
      moreover have "push_bit j (take_bit k (drop_bit j (unat w))) < 2 ^ 32"
      proof -
        have "take_bit k (drop_bit j (unat w)) < 2 ^ k" by simp
        then have "take_bit k (drop_bit j (unat w)) * 2 ^ j < 2 ^ k * 2 ^ j" by simp
        also have "\<dots> \<le> 2 ^ 32" unfolding power_add [symmetric] using that by (intro power_increasing) simp_all
        finally show ?thesis by (simp add: push_bit_eq_mult)
      qed
      ultimately show ?thesis by (simp add: unsigned_push_bit_eq take_bit_nat_eq_self)
    qed
    ultimately show ?thesis by (simp add: push_bit_eq_mult take_bit_eq_mod drop_bit_eq_div)
  qed
  have less: "unat w div 2048 < 2 ^ 21" "unat w div 2 < 2 ^ 31" using unat_u32_less [of w] by simp_all
  show "unat (w AND 0xC0 :: u32) = unat w div 64 mod 4 * 64"
  "unat (w AND 0x3C0 :: u32) = unat w div 64 mod 16 * 64"
  "unat (w AND 0xFFFFF800 :: u32) = unat w div 2048 * 2048"
  "unat (w AND 0xFFFFFFFE :: u32) = unat w div 2 * 2"
    using m [of 6 2] m [of 6 4] m [of 11 21] m [of 1 31] less
    by (simp_all add: mask_eq_exp_minus_1 push_bit_eq_mult)
qed

lemma unat_shift: "unat (drop_bit k w :: u32) = unat w div 2 ^ k"
  by (simp only: unat_drop_bit_eq) (simp only: drop_bit_eq_div)

lemma unat_to_byte: "unat (w :: u32) < 256 \<Longrightarrow> unat (ucast w :: u8) = unat w"
  by (simp add: unsigned_ucast_eq take_bit_nat_eq_self)

lemma unat_of_byte: "unat (ucast (b :: u8) :: u32) = unat b"
proof -
  have "unat b < 256" using unsigned_less [of b, where ?'a = nat] by simp
  then show ?thesis by (simp add: unsigned_ucast_eq take_bit_nat_eq_self)
qed

lemma unat_byte_less: "unat (b :: u8) < 256"
  using unsigned_less [of b, where ?'a = nat] by simp

lemma unat_add_byte: "unat (a :: u8) + unat b < 256 \<Longrightarrow> unat (a + b) = unat a + unat b"
  by (simp add: unat_word_ariths)

lemma unat_add_u32: "unat (a :: u32) + unat b < 2 ^ 32 \<Longrightarrow> unat (a + b) = unat a + unat b"
  by (simp add: unat_word_ariths)

lemma unat_push_u32: "unat (a :: u32) * 2 ^ k < 2 ^ 32 \<Longrightarrow> unat (push_bit k a) = unat a * 2 ^ k"
  by (simp only: unsigned_push_bit_eq) (simp add: push_bit_eq_mult take_bit_nat_eq_self)

lemmas unat_utf = unat_low_bits unat_high_bits unat_shift

lemma continuation_unat: "continuation b \<longleftrightarrow> 128 \<le> unat b \<and> unat b < 192"
proof -
  have "continuation b \<longleftrightarrow> bit b 7 \<and> \<not> bit b 6"
  proof
    assume "continuation b"
    then have "bit (b AND 0xC0) 7 \<and> \<not> bit (b AND 0xC0) 6" by (simp add: continuation_def)
    then show "bit b 7 \<and> \<not> bit b 6" by (simp add: bit_simps)
  next
    assume "bit b 7 \<and> \<not> bit b 6"
    then have "list_all (\<lambda>n. bit (b AND 0xC0) n = bit (0x80 :: u8) n) [0..<8]" 
      by (simp add: upt_rec bit_simps) (simp add: eval_nat_numeral)
    then show "continuation b" unfolding continuation_def by (intro bit_word_eqI) (simp add: list_all_iff)
  qed
  moreover have "bit b 7 \<longleftrightarrow> odd (unat b div 128)" "bit b 6 \<longleftrightarrow> odd (unat b div 64)"
  proof -
    have "bit b 7 \<longleftrightarrow> bit (unat b) 7" "bit b 6 \<longleftrightarrow> bit (unat b) 6" by (simp_all add: bit_unsigned_iff)
    moreover have "bit (unat b) 7 \<longleftrightarrow> odd (unat b div 128)" "bit (unat b) 6 \<longleftrightarrow> odd (unat b div 64)"
      by (simp_all add: bit_iff_odd)
    ultimately show "bit b 7 \<longleftrightarrow> odd (unat b div 128)" "bit b 6 \<longleftrightarrow> odd (unat b div 64)" by blast+
  qed
  moreover have "odd (unat b div 128) \<and> even (unat b div 64) \<longleftrightarrow> 128 \<le> unat b \<and> unat b < 192"
  proof -
    have e: "odd (q div 2) \<and> even q \<longleftrightarrow> 2 \<le> q \<and> q < 3" if "q < 4" for q :: nat
    proof -
      have "q \<in> {0, 1, 2, 3}" using that by auto
      then show ?thesis by auto
    qed
    have "unat b div 64 < 4" using unat_byte_less [of b] by simp
    note e [OF this]
    moreover have "unat b div 64 div 2 = unat b div 128" by (simp add: div_mult2_eq [symmetric])
    moreover have "2 \<le> unat b div 64 \<longleftrightarrow> 128 \<le> unat b" "unat b div 64 < 3 \<longleftrightarrow> unat b < 192"
      by (simp_all add: less_eq_div_iff_mult_less_eq div_less_iff_less_mult)
    ultimately show ?thesis by (simp only:)
  qed
  ultimately show ?thesis by blast
qed

lemma unat_add_continuation:
  "unat c < 2 ^ 26 \<Longrightarrow> unat (add_continuation c b) = unat c * 64 + unat b mod 64"
proof -
  assume c: "unat c < 2 ^ 26"
  have m: "unat (0x3F AND b :: u8) = unat b mod 64"
  proof -
    have "(0x3F :: u8) = mask 6" by (simp add: mask_eq_exp_minus_1)
    then have "unat (0x3F AND b) = unat (take_bit 6 b)" by (simp only: take_bit_eq_mask and.commute)
    also have "\<dots> = take_bit 6 (unat b)" by (simp only: unsigned_take_bit_eq)
    finally show ?thesis by (simp add: take_bit_eq_mod)
  qed
  have p: "unat (push_bit 6 c) = unat c * 64" using c unat_push_u32 [of c 6] by simp
  have "unat c < 67108864" "unat b mod 64 < 64" using c by simp_all
  then have "unat c * 64 + unat b mod 64 < 2 ^ 32" by simp
  then show ?thesis unfolding add_continuation_def using unat_add_u32 [of "push_bit 6 c" "ucast (0x3F AND b)"]
    by (simp add: p m unat_of_byte)
qed

section \<open>UTF-8 and back\<close>

definition unicode :: "u32 \<Rightarrow> bool" where
  "unicode c \<longleftrightarrow> c < 0x110000 \<and> \<not> surrogate c \<and> c \<noteq> 0xFFFE \<and> c \<noteq> 0xFFFF"

definition no_continuation :: "bytes \<Rightarrow> bool" where
  "no_continuation bs \<longleftrightarrow> bs = [] \<or> \<not> continuation (hd bs)"

lemma utf8_tail_stop: "no_continuation bs \<Longrightarrow> utf8_tail c bs = (c, bs)"
  by (cases bs) (simp_all add: no_continuation_def)

lemma replaced_unicode:
  assumes "unicode c" and "0x80 \<le> unat c"
  shows "replaced c = c"
proof -
  have s: "\<not> (0xD800 \<le> unat c \<and> unat c < 0xE000)" using assms(1)
    by (simp add: unicode_def surrogate_def word_le_nat_alt word_less_nat_alt)
  have "unat c \<noteq> unat (0xFFFE :: u32)" "unat c \<noteq> unat (0xFFFF :: u32)"
    using assms(1) by (simp_all only: unicode_def word_unat_eq_iff [symmetric]) simp_all
  then have n: "unat c \<noteq> 0xFFFE" "unat c \<noteq> 0xFFFF" by simp_all
  have "c AND 0xFFFFF800 \<noteq> 0xD800"
  proof
    assume "c AND 0xFFFFF800 = 0xD800"
    then have "unat (c AND 0xFFFFF800) = unat (0xD800 :: u32)" by (rule arg_cong)
    then have "unat c div 2048 * 2048 = 0xD800" unfolding unat_high_bits by simp
    moreover have "unat c div 2048 * 2048 + unat c mod 2048 = unat c" "unat c mod 2048 < 2048" by simp_all
    ultimately have "0xD800 \<le> unat c \<and> unat c < 0xE000" by linarith
    with s show False by blast
  qed
  moreover have "c AND 0xFFFFFFFE \<noteq> 0xFFFE"
  proof
    assume "c AND 0xFFFFFFFE = 0xFFFE"
    then have "unat (c AND 0xFFFFFFFE) = unat (0xFFFE :: u32)" by (rule arg_cong)
    then have "unat c div 2 * 2 = 0xFFFE" unfolding unat_high_bits by simp
    moreover have "unat c div 2 * 2 + unat c mod 2 = unat c" "unat c mod 2 < 2" by simp_all
    ultimately have "unat c = 0xFFFE \<or> unat c = 0xFFFF" by linarith
    with n show False by blast
  qed
  ultimately show ?thesis using assms(2) by (simp add: replaced_def word_less_nat_alt)
qed

lemma trans1_values:
  "i < 32 \<Longrightarrow> unat (utf8_trans1 ! i) = i"
  "i < 16 \<Longrightarrow> unat (utf8_trans1 ! (32 + i)) = i"
  "i < 8 \<Longrightarrow> unat (utf8_trans1 ! (48 + i)) = i"
proof -
  have "list_all (\<lambda>i. unat (utf8_trans1 ! i) = i) [0..<32]"
    "list_all (\<lambda>i. unat (utf8_trans1 ! (32 + i)) = i) [0..<16]"
    "list_all (\<lambda>i. unat (utf8_trans1 ! (48 + i)) = i) [0..<8]"
    by (simp_all add: utf8_trans1_def upt_rec)
  then show "i < 32 \<Longrightarrow> unat (utf8_trans1 ! i) = i" "i < 16 \<Longrightarrow> unat (utf8_trans1 ! (32 + i)) = i"
    "i < 8 \<Longrightarrow> unat (utf8_trans1 ! (48 + i)) = i" by (simp_all add: list_all_iff)
qed

text \<open>The bytes that follow the first one.\<close>

lemma unat_continuation_byte: "unat (0x80 + ucast (w AND 0x3F :: u32) :: u8) = 128 + unat w mod 64"
proof -
  have "unat (ucast (w AND 0x3F) :: u8) = unat w mod 64"
    by (subst unat_to_byte) (simp_all add: unat_low_bits)
  then show ?thesis by (subst unat_add_byte) simp_all
qed

lemma next_byte:
  assumes "unat c < 2 ^ 26"
  shows "utf8_tail c ((0x80 + ucast (w AND 0x3F :: u32)) # bs) = utf8_tail (add_continuation c (0x80 + ucast (w AND 0x3F))) bs"
    "unat (add_continuation c (0x80 + ucast (w AND 0x3F))) = unat c * 64 + unat w mod 64"
proof -
  have m: "unat w mod 64 < 64" by simp
  then show "utf8_tail c ((0x80 + ucast (w AND 0x3F :: u32)) # bs) = utf8_tail (add_continuation c (0x80 + ucast (w AND 0x3F))) bs"
    by (simp add: continuation_unat unat_continuation_byte)
  show "unat (add_continuation c (0x80 + ucast (w AND 0x3F))) = unat c * 64 + unat w mod 64"
    using unat_add_continuation [OF assms] m by (simp add: unat_continuation_byte mod_add_left_eq [symmetric, of 128])
qed

text \<open>The first byte of a longer character.\<close>

lemma first_byte:
  assumes "unat b = 192 + j" and "j < 64"
  shows "read_utf8 (b # bs) =
    (let (c, rest) = utf8_tail (ucast (utf8_trans1 ! j)) bs in (replaced c, rest))"
    "\<not> continuation b"
proof -
  have "0xC0 \<le> b" using assms(1) by (simp add: word_le_nat_alt)
  then show "read_utf8 (b # bs) = (let (c, rest) = utf8_tail (ucast (utf8_trans1 ! j)) bs in (replaced c, rest))"
    using unat_lead [of b] assms(1) by simp
  show "\<not> continuation b" using assms(1) by (simp add: continuation_unat)
qed

lemma unat_first_byte:
  assumes "unat (w :: u32) + k < 256" and "unat b = k"
  shows "unat (b + ucast w :: u8) = k + unat w"
proof -
  have "unat (ucast w :: u8) = unat w" using assms(1) by (simp add: unat_to_byte)
  then show ?thesis using assms by (subst unat_add_byte) simp_all
qed

lemma read_write_utf8:
  assumes u: "unicode c" and bs: "no_continuation bs"
  shows "read_utf8 (write_utf8 c @ bs) = (c, bs) \<and> \<not> continuation (hd (write_utf8 c))"
proof -
  define n where "n = unat c"
  have n: "n < 0x110000" using u by (simp add: n_def unicode_def word_less_nat_alt)
  consider "n < 0x80" | "0x80 \<le> n" "n < 0x800" | "0x800 \<le> n" "n < 0x10000" | "0x10000 \<le> n" by linarith
  then show ?thesis
  proof cases
    case 1
    then have w: "write_utf8 c = [ucast (c AND 0xFF)]" by (simp add: write_utf8_def word_less_nat_alt n_def)
    have b: "unat (ucast (c AND 0xFF) :: u8) = n" using 1 by (subst unat_to_byte) (simp_all add: unat_low_bits n_def)
    then have "\<not> 0xC0 \<le> (ucast (c AND 0xFF) :: u8)" using 1 by (simp add: word_le_nat_alt)
    moreover have "ucast (ucast (c AND 0xFF) :: u8) = c"
      using b by (intro word_unat_eq_iff [THEN iffD2]) (simp add: unat_of_byte n_def)
    ultimately show ?thesis using w b 1 by (simp add: continuation_unat)
  next
    case 2
    let ?b = "0xC0 + ucast (drop_bit 6 c AND 0x1F) :: u8"
    have d: "n div 64 < 32" using 2 by simp
    have w: "write_utf8 c = [?b, 0x80 + ucast (c AND 0x3F)]"
      using 2 by (simp add: write_utf8_def word_less_nat_alt n_def)
    have "unat (drop_bit 6 c AND 0x1F) = n div 64" using d by (simp add: unat_utf n_def)
    then have b: "unat ?b = 192 + n div 64" using d unat_first_byte [of "drop_bit 6 c AND 0x1F" 192 "0xC0"] by simp
    let ?t = "ucast (utf8_trans1 ! (n div 64)) :: u32"
    have t: "unat ?t = n div 64" using d by (simp add: unat_of_byte trans1_values)
    then have t26: "unat ?t < 2 ^ 26" using d by simp
    let ?c = "add_continuation ?t (0x80 + ucast (c AND 0x3F))"
    have "unat ?c = n" unfolding next_byte(2) [OF t26] t using 2 by (simp add: n_def [symmetric])
    then have "?c = c" by (simp add: n_def word_unat_eq_iff)
    then show ?thesis
      using first_byte [OF b] d next_byte(1) [OF t26, of c bs] utf8_tail_stop [OF bs] replaced_unicode [OF u] 2
      unfolding w by (simp add: n_def)
  next
    case 3
    let ?b = "0xE0 + ucast (drop_bit 12 c AND 0x0F) :: u8"
    have d: "n div 4096 < 16" using 3 by simp
    have w: "write_utf8 c = [?b, 0x80 + ucast (drop_bit 6 c AND 0x3F), 0x80 + ucast (c AND 0x3F)]"
      using 3 by (simp add: write_utf8_def word_less_nat_alt n_def)
    have "unat (drop_bit 12 c AND 0x0F) = n div 4096" using d by (simp add: unat_utf n_def)
    then have b: "unat ?b = 192 + (32 + n div 4096)" using d unat_first_byte [of "drop_bit 12 c AND 0x0F" 224 "0xE0"] by simp
    let ?t = "ucast (utf8_trans1 ! (32 + n div 4096)) :: u32"
    have t: "unat ?t = n div 4096" using d by (simp add: unat_of_byte trans1_values)
    then have t26: "unat ?t < 2 ^ 26" using d by simp
    let ?c1 = "add_continuation ?t (0x80 + ucast (drop_bit 6 c AND 0x3F))"
    have c1: "unat ?c1 = n div 64" unfolding next_byte(2) [OF t26] t
      using div_mult_mod_eq [of "n div 64" 64] by (simp add: n_def unat_shift div_mult2_eq [symmetric])
    then have c126: "unat ?c1 < 2 ^ 26" using 3 by simp
    let ?c = "add_continuation ?c1 (0x80 + ucast (c AND 0x3F))"
    have "unat ?c = n" unfolding next_byte(2) [OF c126] c1 by (simp add: n_def [symmetric])
    then have "?c = c" by (simp add: n_def word_unat_eq_iff)
    then show ?thesis
      using first_byte [OF b] d next_byte(1) [OF t26, of "drop_bit 6 c"] next_byte(1) [OF c126, of c bs]
        utf8_tail_stop [OF bs] replaced_unicode [OF u] 3
      unfolding w by (simp add: n_def)
  next
    case 4
    let ?b = "0xF0 + ucast (drop_bit 18 c AND 0x07) :: u8"
    have d: "n div 262144 < 8" using n by simp
    have w: "write_utf8 c = [?b, 0x80 + ucast (drop_bit 12 c AND 0x3F), 0x80 + ucast (drop_bit 6 c AND 0x3F),
        0x80 + ucast (c AND 0x3F)]"
      using 4 by (simp add: write_utf8_def word_less_nat_alt n_def)
    have "unat (drop_bit 18 c AND 0x07) = n div 262144" using d by (simp add: unat_utf n_def)
    then have b: "unat ?b = 192 + (48 + n div 262144)" using d unat_first_byte [of "drop_bit 18 c AND 0x07" 240 "0xF0"] by simp
    let ?t = "ucast (utf8_trans1 ! (48 + n div 262144)) :: u32"
    have t: "unat ?t = n div 262144" using d by (simp add: unat_of_byte trans1_values)
    then have t26: "unat ?t < 2 ^ 26" using d by simp
    let ?c2 = "add_continuation ?t (0x80 + ucast (drop_bit 12 c AND 0x3F))"
    have c2: "unat ?c2 = n div 4096" unfolding next_byte(2) [OF t26] t
      using div_mult_mod_eq [of "n div 4096" 64] by (simp add: n_def unat_shift div_mult2_eq [symmetric])
    then have c226: "unat ?c2 < 2 ^ 26" using n by simp
    let ?c1 = "add_continuation ?c2 (0x80 + ucast (drop_bit 6 c AND 0x3F))"
    have c1: "unat ?c1 = n div 64" unfolding next_byte(2) [OF c226] c2
      using div_mult_mod_eq [of "n div 64" 64] by (simp add: n_def unat_shift div_mult2_eq [symmetric])
    then have c126: "unat ?c1 < 2 ^ 26" using n by simp
    let ?c = "add_continuation ?c1 (0x80 + ucast (c AND 0x3F))"
    have "unat ?c = n" unfolding next_byte(2) [OF c126] c1 by (simp add: n_def [symmetric])
    then have "?c = c" by (simp add: n_def word_unat_eq_iff)
    then show ?thesis
      using first_byte [OF b] d next_byte(1) [OF t26, of "drop_bit 12 c"] next_byte(1) [OF c226, of "drop_bit 6 c"]
        next_byte(1) [OF c126, of c bs] utf8_tail_stop [OF bs] replaced_unicode [OF u] 4
      unfolding w by (simp add: n_def)
  qed
qed

section \<open>UTF-16 and back\<close>

text \<open>The high and the low half of a character beyond the first plane.\<close>

lemma pair_arith:
  assumes "n = m + 0x10000" and "m < (0x100000 :: nat)"
  shows "n div 1024 mod 64 + m div 1024 div 64 mod 4 * 64 = m div 1024 mod 256"
    "m div 262144 mod 4 = m div 1024 div 256" "m div 1024 < 1024" "n mod 1024 = m mod 1024"
proof -
  define q where "q = m div 1024"
  have "n div 1024 = q + 64" unfolding assms(1) q_def by simp
  moreover have "q mod (64 * 4) = 64 * (q div 64 mod 4) + q mod 64" by (rule mod_mult2_eq)
  ultimately show "n div 1024 mod 64 + m div 1024 div 64 mod 4 * 64 = m div 1024 mod 256"
    by (simp add: q_def [symmetric])
  have "q div 256 = m div 262144" unfolding q_def by (simp add: div_mult2_eq [symmetric])
  moreover show q: "m div 1024 < 1024" using assms(2) by simp
  ultimately show "m div 262144 mod 4 = m div 1024 div 256" by (simp add: q_def)
  show "n mod 1024 = m mod 1024" unfolding assms(1) by (simp add: mod_add_eq [symmetric, of m])
qed

lemma unat_unit: "unat (ucast (b0 :: u8) + push_bit 8 (ucast (b1 :: u8)) :: u32) = unat b0 + unat b1 * 256"
  "unat (push_bit 8 (ucast b1) + ucast b0 :: u32) = unat b0 + unat b1 * 256"
proof -
  have p: "unat (push_bit 8 (ucast b1) :: u32) = unat b1 * 256"
    using unat_push_u32 [of "ucast b1" 8] unat_byte_less [of b1] by (simp add: unat_of_byte)
  have "unat (ucast b0 :: u32) + unat (push_bit 8 (ucast b1) :: u32) < 2 ^ 32"
    unfolding p unat_of_byte using unat_byte_less [of b0] unat_byte_less [of b1] by simp
  from unat_add_u32 [OF this]
  show "unat (ucast b0 + push_bit 8 (ucast b1) :: u32) = unat b0 + unat b1 * 256"
    unfolding p unat_of_byte .
  then show "unat (push_bit 8 (ucast b1) + ucast b0 :: u32) = unat b0 + unat b1 * 256"
    by (simp only: add.commute)
qed

lemma unat_join:
  assumes c: "unat c = 0xD800 + q" and "q < 1024" and c2: "unat c2 = 0xDC00 + r" and "r < 1024"
  shows "unat (join_surrogates c c2) = 0x10000 + 1024 * q + r"
proof -
  have r: "unat (c2 AND 0x3FF) = r" unfolding unat_low_bits c2 using assms(4) by (simp add: mod_add_eq [symmetric, of _ r])
  have l: "unat (c AND 0x3F) = q mod 64" unfolding unat_low_bits c by (simp add: mod_add_eq [symmetric, of _ q])
  have "(0xD800 + q) div 64 = 864 + q div 64" by simp
  moreover have "q div 64 < 16" using assms(2) by simp
  ultimately have h: "unat (c AND 0x3C0) = q div 64 * 64"
    unfolding unat_high_bits c by (simp add: mod_add_eq [symmetric, of _ "q div 64"])
  have q: "q div 64 * 64 + q mod 64 = q" "q mod 64 < 64" by simp_all
  have h2: "unat ((c AND 0x3C0) + 0x40) = q div 64 * 64 + 64"
    using unat_add_u32 [of "c AND 0x3C0" "0x40"] h q assms(2) by simp
  have s: "unat (push_bit 10 (c AND 0x3F)) = (q mod 64) * 1024"
    "unat (push_bit 10 ((c AND 0x3C0) + 0x40)) = (q div 64 * 64 + 64) * 1024"
    using unat_push_u32 [of "c AND 0x3F" 10] unat_push_u32 [of "(c AND 0x3C0) + 0x40" 10] l h2 q assms(2) by simp_all
  have "unat ((c2 AND 0x3FF) + push_bit 10 (c AND 0x3F)) = r + (q mod 64) * 1024"
    using unat_add_u32 [of "c2 AND 0x3FF" "push_bit 10 (c AND 0x3F)"] r s(1) q assms(4) by simp
  then have "unat (join_surrogates c c2) = r + (q mod 64) * 1024 + (q div 64 * 64 + 64) * 1024"
    unfolding join_surrogates_def
    using unat_add_u32 [of "(c2 AND 0x3FF) + push_bit 10 (c AND 0x3F)" "push_bit 10 ((c AND 0x3C0) + 0x40)"]
      s(2) q assms(2,4) by simp
  moreover have "q * 1024 = (q div 64 * 64 + q mod 64) * 1024" by simp
  ultimately show ?thesis by (simp only: add_mult_distrib)
qed

lemma surrogate_unat: "surrogate c \<longleftrightarrow> 0xD800 \<le> unat c \<and> unat c < 0xE000"
  by (simp add: surrogate_def word_le_nat_alt word_less_nat_alt)

text \<open>The bytes of both orders as numbers.\<close>

lemma utf16_small:
  assumes "unat (c :: u32) \<le> 0xFFFF"
  shows "unat (ucast (c AND 0xFF) :: u8) = unat c mod 256" "unat (ucast (drop_bit 8 c AND 0xFF) :: u8) = unat c div 256"
  using assms by (simp_all add: unat_to_byte unat_low_bits unat_shift)

lemma utf16_large:
  assumes "unat (c :: u32) = m + 0x10000" and "m < 0x100000"
  defines "b0 \<equiv> ucast ((drop_bit 10 c AND 0x3F) + (drop_bit 10 (c - 0x10000) AND 0xC0)) :: u8"
    and "b1 \<equiv> ucast (0xD8 + (drop_bit 18 (c - 0x10000) AND 0x03)) :: u8"
    and "d0 \<equiv> ucast (c AND 0xFF) :: u8" and "d1 \<equiv> ucast (0xDC + (drop_bit 8 c AND 0x03)) :: u8"
  shows "unat b0 + unat b1 * 256 = 0xD800 + m div 1024" "unat d0 + unat d1 * 256 = 0xDC00 + m mod 1024"
proof -
  note a = pair_arith [OF assms(1,2)]
  have "0x10000 \<le> c" using assms(1) by (simp add: word_le_nat_alt)
  then have cm: "unat (c - 0x10000) = m" using assms(1) by (simp add: unat_sub)
  have s: "unat (drop_bit 10 c AND 0x3F) = unat c div 1024 mod 64"
    "unat (drop_bit 10 (c - 0x10000) AND 0xC0) = m div 1024 div 64 mod 4 * 64"
    "unat (drop_bit 18 (c - 0x10000) AND 0x03) = m div 262144 mod 4"
    "unat (drop_bit 8 c AND 0x03) = unat c div 256 mod 4"
    by (simp_all only: unat_utf cm) simp_all
  have q: "m div 1024 mod 256 < 256" "m div 1024 div 256 < 4" using a(3) by simp_all
  have "unat ((drop_bit 10 c AND 0x3F) + (drop_bit 10 (c - 0x10000) AND 0xC0)) = m div 1024 mod 256"
    using unat_add_u32 [of "drop_bit 10 c AND 0x3F" "drop_bit 10 (c - 0x10000) AND 0xC0"] s a(1) q(1) by simp
  then have "unat b0 = m div 1024 mod 256" unfolding b0_def by (subst unat_to_byte) simp_all
  moreover have "unat (0xD8 + (drop_bit 18 (c - 0x10000) AND 0x03)) = 216 + m div 1024 div 256"
    using unat_add_u32 [of "0xD8" "drop_bit 18 (c - 0x10000) AND 0x03"] s a(2) q(2) by simp
  then have "unat b1 = 216 + m div 1024 div 256" unfolding b1_def using q(2) by (subst unat_to_byte) simp_all
  moreover have "m div 1024 div 256 * 256 + m div 1024 mod 256 = m div 1024" by (rule div_mult_mod_eq)
  ultimately show "unat b0 + unat b1 * 256 = 0xD800 + m div 1024" by simp
  have "unat d0 = unat c mod 256" unfolding d0_def by (subst unat_to_byte) (simp_all add: unat_low_bits)
  moreover have "unat (0xDC + (drop_bit 8 c AND 0x03)) = 220 + unat c div 256 mod 4"
    using unat_add_u32 [of "0xDC" "drop_bit 8 c AND 0x03"] s(4) by simp
  then have "unat d1 = 220 + unat c div 256 mod 4" unfolding d1_def by (subst unat_to_byte) simp_all
  moreover have "unat c mod (256 * 4) = 256 * (unat c div 256 mod 4) + unat c mod 256" by (rule mod_mult2_eq)
  ultimately show "unat d0 + unat d1 * 256 = 0xDC00 + m mod 1024" using a(4) by simp
qed

lemma read_write_utf16:
  assumes u: "unicode c" and "enc \<noteq> Utf8"
  shows "read_char enc (write_char enc c @ bs) = (c, bs)"
proof (cases "unat c \<le> 0xFFFF")
  case True
  then have le: "c \<le> 0xFFFF" by (simp add: word_le_nat_alt)
  let ?l = "ucast (c AND 0xFF) :: u8" and ?h = "ucast (drop_bit 8 c AND 0xFF) :: u8"
  have "unat ?l + unat ?h * 256 = unat c" unfolding utf16_small [OF True] by simp
  then have "ucast ?l + push_bit 8 (ucast ?h) = c" "push_bit 8 (ucast ?h) + ucast ?l = c"
    by (simp_all only: word_unat_eq_iff unat_unit)
  moreover have "\<not> surrogate c" using u by (simp add: unicode_def)
  ultimately show ?thesis using assms(2) le
    by (cases enc) (simp_all only: read_char_def write_char_def write_utf16le_def write_utf16be_def encoding.case
        if_True append_Cons append_Nil read_utf16le.simps read_utf16be.simps Let_def if_False simp_thms)
next
  case False
  then have gt: "\<not> c \<le> 0xFFFF" by (simp add: word_le_nat_alt)
  define m where "m = unat c - 0x10000"
  have m: "unat c = m + 0x10000" "m < 0x100000"
  proof -
    have "unat c < 0x110000" using u by (simp add: unicode_def word_less_nat_alt)
    then show "unat c = m + 0x10000" "m < 0x100000" using False unfolding m_def by linarith+
  qed
  let ?b0 = "ucast ((drop_bit 10 c AND 0x3F) + (drop_bit 10 (c - 0x10000) AND 0xC0)) :: u8"
  let ?b1 = "ucast (0xD8 + (drop_bit 18 (c - 0x10000) AND 0x03)) :: u8"
  let ?d0 = "ucast (c AND 0xFF) :: u8" and ?d1 = "ucast (0xDC + (drop_bit 8 c AND 0x03)) :: u8"
  note l = utf16_large [OF m]
  define hi lo :: u32 where "hi = ucast ?b0 + push_bit 8 (ucast ?b1)" and "lo = ucast ?d0 + push_bit 8 (ucast ?d1)"
  have hi: "unat hi = 0xD800 + m div 1024" and lo: "unat lo = 0xDC00 + m mod 1024"
    unfolding hi_def lo_def unat_unit l by (rule refl)+
  have eqs: "push_bit 8 (ucast ?b1) + ucast ?b0 = hi" "push_bit 8 (ucast ?d1) + ucast ?d0 = lo"
    unfolding hi_def lo_def by (simp_all only: add.commute)
  have q: "m div 1024 < 1024" using m(2) by simp
  then have s: "surrogate hi" unfolding surrogate_unat hi by simp
  have "unat (join_surrogates hi lo) = unat c"
    using unat_join [OF hi q lo] m(1) div_mult_mod_eq [of m 1024] by simp
  then have "join_surrogates hi lo = c" by (simp only: word_unat_eq_iff)
  then show ?thesis using assms(2) gt s eqs hi_def lo_def
    by (cases enc) (simp_all only: read_char_def write_char_def write_utf16le_def write_utf16be_def encoding.case
        if_False append_Cons append_Nil read_utf16le.simps read_utf16be.simps Let_def if_True simp_thms list.case)
qed

section \<open>Whole strings\<close>

definition encode_text :: "encoding \<Rightarrow> u32 list \<Rightarrow> bytes" where
  "encode_text enc cs = concat (map (write_char enc) cs)"

lemma encode_text_simps [simp]:
  "encode_text enc [] = []" "encode_text enc (c # cs) = write_char enc c @ encode_text enc cs"
  by (simp_all add: encode_text_def)

lemma write_char_nonempty: "write_char enc c \<noteq> []"
  by (cases enc) (simp_all add: write_char_def write_utf8_def write_utf16le_def write_utf16be_def)

lemma encode_text_head:
  "\<forall>c \<in> set cs. unicode c \<Longrightarrow> no_continuation (encode_text Utf8 cs)"
proof (cases cs)
  case (Cons c ds)
  assume "\<forall>c \<in> set cs. unicode c"
  then have "\<not> continuation (hd (write_utf8 c))"
    using read_write_utf8 [of c "[]"] Cons by (simp add: no_continuation_def)
  moreover have "hd (encode_text Utf8 cs) = hd (write_utf8 c)"
    using write_char_nonempty [of Utf8 c] Cons by (simp add: write_char_def)
  ultimately show ?thesis by (simp add: no_continuation_def)
qed (simp add: no_continuation_def)

lemma read_write_char:
  assumes "unicode c" and "\<forall>c \<in> set cs. unicode c"
  shows "read_char enc (write_char enc c @ encode_text enc cs) = (c, encode_text enc cs)"
proof (cases "enc = Utf8")
  case True
  then show ?thesis
    using read_write_utf8 [OF assms(1) encode_text_head [OF assms(2)]] by (simp add: read_char_def write_char_def)
next
  case False
  then show ?thesis by (rule read_write_utf16 [OF assms(1)])
qed

lemma translate_encoded:
  "\<forall>c \<in> set cs. unicode c \<Longrightarrow> translate_loop enc desired (encode_text enc cs) = encode_text desired cs"
proof (induction cs)
  case Nil
  show ?case by (simp add: translate_loop.simps)
next
  case (Cons c cs)
  then have "read_char enc (encode_text enc (c # cs)) = (c, encode_text enc cs)" by (simp add: read_write_char)
  moreover have "write_char enc c \<noteq> []" by (rule write_char_nonempty)
  ultimately show ?case using Cons by (subst translate_loop.simps) simp
qed

lemma even_encoded: "enc \<noteq> Utf8 \<Longrightarrow> even (length (encode_text enc cs))"
  by (induction cs) (simp_all add: length_write_utf16)

text \<open>Swapping the bytes of every unit changes the byte order.\<close>

lemma swap_append: "even (length xs) \<Longrightarrow> swap_bytes (xs @ ys) = swap_bytes xs @ swap_bytes ys"
  by (induction xs rule: swap_bytes.induct) simp_all

lemma swap_write:
  "swap_bytes (write_utf16le c) = write_utf16be c" "swap_bytes (write_utf16be c) = write_utf16le c"
  by (simp_all add: write_utf16le_def write_utf16be_def)

lemma swap_encoded:
  "swap_bytes (encode_text Utf16le cs) = encode_text Utf16be cs"
  "swap_bytes (encode_text Utf16be cs) = encode_text Utf16le cs"
proof -
  have e: "even (length (write_utf16le c))" "even (length (write_utf16be c))" for c
    by (simp_all add: write_utf16le_def write_utf16be_def)
  show "swap_bytes (encode_text Utf16le cs) = encode_text Utf16be cs"
    "swap_bytes (encode_text Utf16be cs) = encode_text Utf16le cs"
    by (induction cs) (simp_all add: write_char_def swap_append swap_write e)
qed

lemma mem_translate_fits:
  assumes "enc \<noteq> desired"
  shows "\<exists>r. mem_translate nd room enc desired z = Inr r \<and> (r = None \<longleftrightarrow> \<not> room)"
proof -
  let ?z = "if desired = Utf8 then take (length z div 2 * 2) z else z"
  have "length (translate_loop enc desired ?z) \<le> 2 * length ?z" if "enc = Utf8 \<or> desired = Utf8"
  proof (rule translate_loop_length)
    have "length (take (length z div 2 * 2) z) = length z div 2 * 2" by simp
    then show "enc = Utf8 \<and> desired \<noteq> Utf8 \<or> enc \<noteq> Utf8 \<and> desired = Utf8 \<and> even (length ?z)"
      using that assms by auto
  qed
  then show ?thesis using assms by (auto simp: mem_translate_def Let_def asserts_def)
qed

lemma mem_translate_encoded:
  assumes "enc \<noteq> desired" and "\<forall>c \<in> set cs. unicode c"
  shows "mem_translate nd True enc desired (encode_text enc cs) = Inr (Some (encode_text desired cs))"
proof (cases "enc \<noteq> Utf8 \<and> desired \<noteq> Utf8")
  case True
  then show ?thesis using assms(1) swap_encoded
    by (cases enc; cases desired) (simp_all add: mem_translate_def)
next
  case False
  have "length (encode_text enc cs) div 2 * 2 = length (encode_text enc cs)" if "desired = Utf8"
    using that assms(1) even_encoded [of enc cs] by simp
  then have "mem_translate nd True enc desired (encode_text enc cs) \<in>
      {Inl Assert_failed, Inr (Some (encode_text desired cs))}"
    using False assms translate_encoded [OF assms(2), of enc desired] by (auto simp: mem_translate_def Let_def)
  then show ?thesis using mem_translate_fits [OF assms(1), of nd True "encode_text enc cs"] by auto
qed

section \<open>Properties\<close>

text \<open>C39: The translation of any string, well formed or not, stays inside the buffer of twice the
  length of the input plus the terminator, so the assertion after it never fails, and it fails
  only for lack of memory. A character that takes four bytes of UTF-16 has taken at least two
  of UTF-8.\<close>

theorem translation_in_bounds:
  assumes "enc \<noteq> desired"
  shows "(\<exists>r. mem_translate nd room enc desired z = Inr r \<and> (r = None \<longleftrightarrow> \<not> room)) \<and>
    (enc = Utf8 \<longrightarrow> length (translate_loop enc desired z) \<le> 2 * length z)"
  using mem_translate_fits [OF assms] translate_loop_length [of enc desired z] assms by blast

theorem translation_in_bounds_witness:
  "length (translate_loop Utf8 Utf16le [0xDF, 0xBF, 0xBF]) \<le> 6"
  using translation_in_bounds [of Utf8 Utf16le False True "[0xDF, 0xBF, 0xBF]"] by simp

text \<open>A string of Unicode characters, surrogates and the two non-characters FFFE and FFFF
  apart, is translated character by character between any two encodings, so translating it and
  translating it back gives the string one began with.\<close>

theorem text_round_trip:
  assumes "enc \<noteq> desired" and "\<forall>c \<in> set cs. unicode c"
  shows "\<exists>w. mem_translate nd True enc desired (encode_text enc cs) = Inr (Some w) \<and> w = encode_text desired cs \<and>
    mem_translate nd True desired enc w = Inr (Some (encode_text enc cs))"
  using mem_translate_encoded [OF assms] mem_translate_encoded [of desired enc cs] assms by auto

theorem text_round_trip_witness:
  "\<exists>w. mem_translate False True Utf8 Utf16be (encode_text Utf8 [0x41, 0x1F600]) = Inr (Some w) \<and>
    w = [0x00, 0x41, 0xD8, 0x3D, 0xDE, 0x00]"
proof -
  have "\<forall>c \<in> set [0x41, 0x1F600]. unicode c" by (simp add: unicode_def surrogate_def)
  from text_round_trip [OF _ this, of Utf8 Utf16be False]
  show ?thesis by (simp add: write_char_def write_utf16be_def)
qed

text \<open>What READ\_UTF8 returns for a character of several bytes, overlong and malformed ones
  included, is never an ASCII character, a surrogate, or one of the two non-characters.\<close>

theorem multibyte_is_safe:
  assumes "0xC0 \<le> b"
  shows "(let c = fst (read_utf8 (b # bs)) in \<not> c < 0x80 \<and> \<not> surrogate c \<and> c \<noteq> 0xFFFE \<and> c \<noteq> 0xFFFF)"
proof -
  have "\<not> replaced c < 0x80 \<and> \<not> surrogate (replaced c) \<and> replaced c \<noteq> 0xFFFE \<and> replaced c \<noteq> 0xFFFF" for c
  proof (cases "c < 0x80 \<or> c AND 0xFFFFF800 = 0xD800 \<or> c AND 0xFFFFFFFE = 0xFFFE")
    case True
    then have "replaced c = 0xFFFD" by (simp add: replaced_def)
    then show ?thesis by (simp add: surrogate_def)
  next
    case False
    then have r: "replaced c = c" by (simp add: replaced_def)
    have "\<not> surrogate c"
    proof
      assume "surrogate c"
      then have "unat c div 2048 = 27" unfolding surrogate_unat by (intro div_nat_eqI) simp_all
      then have "c AND 0xFFFFF800 = 0xD800" by (simp add: word_unat_eq_iff unat_high_bits)
      then show False using False by simp
    qed
    moreover have "c \<noteq> 0xFFFE" "c \<noteq> 0xFFFF" using False by auto
    ultimately show ?thesis using False r by simp
  qed
  then show ?thesis using assms by (simp add: Let_def split_def)
qed

theorem multibyte_is_safe_witness:
  "\<not> surrogate (fst (read_utf8 [0xED, 0xA0, 0x80]))"
  using multibyte_is_safe [of "0xED" "[0xA0, 0x80]"] by (simp add: Let_def)

lemma utf8_tail_open_terminated:
  "utf8_tail_open c (bs @ [0]) = (case utf8_tail c bs of (c, rest) \<Rightarrow> Some (c, rest @ [0]))"
  by (induction c bs rule: utf8_tail.induct) (simp_all add: continuation_unat)

lemma limited_loop_bounds: "i \<le> n \<Longrightarrow> i \<le> fst (limited_loop z n i c) \<and> fst (limited_loop z n i c) \<le> n"
proof (induction z n i c rule: limited_loop.induct)
  case (1 z n i c)
  then show ?case by (subst (1 2) limited_loop.simps) auto
qed

text \<open>On a zero-terminated string sqlite3Utf8Read returns what READ\_UTF8 does with the end of
  the string as its limit and reads at most the terminator; sqlite3Utf8ReadLimited consumes at
  least one byte, at most four and no more than it is given.\<close>

theorem utf8_readers:
  "utf8_read ((b # bs) @ [0]) = (case read_utf8 (b # bs) of (c, rest) \<Rightarrow> Some (c, rest @ [0])) \<and>
   (0 < n \<longrightarrow> (\<exists>i c. utf8_read_limited nd z n = Inr (i, c) \<and> 1 \<le> i \<and> i \<le> min n 4))"
proof (intro conjI impI)
  show "utf8_read ((b # bs) @ [0]) = (case read_utf8 (b # bs) of (c, rest) \<Rightarrow> Some (c, rest @ [0]))"
    by (simp add: utf8_tail_open_terminated split: prod.split)
  assume "0 < n"
  then have m: "1 \<le> min n 4" by simp
  show "\<exists>i c. utf8_read_limited nd z n = Inr (i, c) \<and> 1 \<le> i \<and> i \<le> min n 4"
  proof (cases "0xC0 \<le> z ! 0")
    case True
    let ?r = "limited_loop z (min n 4) 1 (ucast (utf8_trans1 ! unat (z ! 0 - 0xC0)))"
    have "utf8_read_limited nd z n = Inr (fst ?r, snd ?r)"
      using True \<open>0 < n\<close> by (simp add: utf8_read_limited_def)
    then show ?thesis using limited_loop_bounds [OF m, of z] by blast
  next
    case False
    then show ?thesis using \<open>0 < n\<close> m by (auto simp: utf8_read_limited_def)
  qed
qed

text \<open>A byte-order mark is removed and decides the encoding; a string without one is left alone.\<close>

theorem bom_decides:
  "handle_bom True (enc, 0xFE # 0xFF # z) = (True, Utf16be, z) \<and>
   handle_bom True (enc, 0xFF # 0xFE # z) = (True, Utf16le, z) \<and>
   (take 2 z \<notin> {[0xFE, 0xFF], [0xFF, 0xFE]} \<longrightarrow> handle_bom room (enc, z) = (True, enc, z))"
proof (intro conjI impI)
  assume a: "take 2 z \<notin> {[0xFE, 0xFF], [0xFF, 0xFE]}"
  show "handle_bom room (enc, z) = (True, enc, z)"
  proof (cases z rule: swap_bytes.cases)
    case (1 x y bs)
    then show ?thesis using a by (auto simp: handle_bom_def numeral_2_eq_2)
  qed (simp_all add: handle_bom_def)
qed (simp_all add: handle_bom_def)

end
