(* ===== verification/Rowset.thy ===== *)
theory Rowset
  imports Prelude "HOL-Library.Tree"
begin

text \<open>
  The row set of the database library, deps/sqlite3/sqlite3.c: an object into which row numbers
  are inserted in any order, and which either tells whether a number was inserted in an earlier
  batch or hands the numbers out in ascending order. A list linked by pRight is a list, a tree of
  entries a tree, and the forest the list of the trees at its entries' pLeft. The last entry
  pLast is the last of the list. The memory for a new chunk of entries is granted or not, an
  argument of the operations that may need it.
\<close>

section \<open>State and construction\<close>

record rowset =
  chunks :: nat
  entries :: "int list"
  fresh :: nat
  forest :: "int tree list"
  sorted_flag :: bool
  next_flag :: bool
  batch :: int

definition entry_per_chunk :: nat where
  "entry_per_chunk = (1024 - 8) div 24"

text \<open>\<open>n\<close> is the size of the allocation, of which the row set itself takes 56 bytes.\<close>

definition rowset_init :: "nat \<Rightarrow> rowset" where
  "rowset_init n = \<lparr>chunks = 0, entries = [], fresh = (n - 56) div 24 mod 2 ^ 16, forest = [],
     sorted_flag = True, next_flag = False, batch = 0\<rparr>"

definition rowset_clear :: "rowset \<Rightarrow> rowset" where
  "rowset_clear p = p\<lparr>chunks := 0, fresh := 0, entries := [], forest := [], sorted_flag := True, next_flag := False\<rparr>"

text \<open>An entry is taken from the fresh ones, or from a new chunk.\<close>

definition entry_alloc :: "bool \<Rightarrow> rowset \<Rightarrow> rowset option" where
  "entry_alloc room p =
     (if fresh p = 0 then
        (if room then Some (p\<lparr>chunks := chunks p + 1, fresh := entry_per_chunk - 1\<rparr>) else None)
      else Some (p\<lparr>fresh := fresh p - 1\<rparr>))"

definition rowset_insert :: "bool \<Rightarrow> bool \<Rightarrow> int \<Rightarrow> rowset \<Rightarrow> trap + rowset" where
  "rowset_insert nd room rowid p =
     (if \<not> asserts nd (\<not> next_flag p) then Inl Assert_failed
      else
       (case entry_alloc room p of
          None \<Rightarrow> Inr p
        | Some p1 \<Rightarrow>
           (let p2 = (if entries p1 \<noteq> [] \<and> rowid \<le> last (entries p1)
                      then p1\<lparr>sorted_flag := False\<rparr> else p1)
            in Inr (p2\<lparr>entries := entries p2 @ [rowid]\<rparr>))))"

section \<open>Sorting\<close>

text \<open>The merge of two lists that are not empty, with the assertions of every round.\<close>

fun entry_merge :: "bool \<Rightarrow> int list \<Rightarrow> int list \<Rightarrow> trap + int list" where
  "entry_merge nd (a # as) (b # bs) =
     (if \<not> asserts nd ((as = [] \<or> a \<le> hd as) \<and> (bs = [] \<or> b \<le> hd bs)) then Inl Assert_failed
      else if a \<le> b then
        and_then (if as = [] then Inr (b # bs) else entry_merge nd as (b # bs))
          (\<lambda>m. Inr (if a < b then a # m else m))
      else
        and_then (if bs = [] then Inr (a # as) else entry_merge nd (a # as) bs) (\<lambda>m. Inr (b # m)))"
| "entry_merge nd _ _ = Inl (if nd then Null_deref else Assert_failed)"

text \<open>The buckets: an empty list is a null pointer. Bucket 40 would be past the end of the array.\<close>

fun place :: "bool \<Rightarrow> int list \<Rightarrow> int list list \<Rightarrow> trap + int list list" where
  "place nd x [] = Inl Out_of_range"
| "place nd x (b # bs) =
     (if b = [] then Inr (x # bs)
      else and_then (entry_merge nd b x) (\<lambda>m. and_then (place nd m bs) (\<lambda>bs'. Inr ([] # bs'))))"

fun distribute :: "bool \<Rightarrow> int list \<Rightarrow> int list list \<Rightarrow> trap + int list list" where
  "distribute nd [] bs = Inr bs"
| "distribute nd (v # vs) bs = and_then (place nd [v] bs) (distribute nd vs)"

fun collect :: "bool \<Rightarrow> int list \<Rightarrow> int list list \<Rightarrow> trap + int list" where
  "collect nd p [] = Inr p"
| "collect nd p (b # bs) =
     (if b = [] then collect nd p bs
      else if p \<noteq> [] then and_then (entry_merge nd p b) (\<lambda>m. collect nd m bs)
      else collect nd b bs)"

definition entry_sort :: "bool \<Rightarrow> int list \<Rightarrow> trap + int list" where
  "entry_sort nd xs =
     and_then (distribute nd xs (replicate 40 [])) (\<lambda>bs. collect nd (hd bs) (tl bs))"

section \<open>Lists and trees\<close>

text \<open>The in-order walk of a tree that is not empty.\<close>

fun tree_to_list :: "int tree \<Rightarrow> int list" where
  "tree_to_list Leaf = []"
| "tree_to_list (Node l v r) =
     (if l \<noteq> Leaf then tree_to_list l else []) @ [v] @ (if r \<noteq> Leaf then tree_to_list r else [])"

text \<open>A tree of the given depth from the head of a list, and what is left of the list.\<close>

fun n_deep_tree :: "nat \<Rightarrow> int list \<Rightarrow> int tree \<times> int list" where
  "n_deep_tree d [] = (Leaf, [])"
| "n_deep_tree 0 (x # xs) = (Node Leaf x Leaf, xs)"
| "n_deep_tree (Suc 0) (x # xs) = (Node Leaf x Leaf, xs)"
| "n_deep_tree (Suc (Suc d)) (x # xs) =
     (case n_deep_tree (Suc d) (x # xs) of
        (l, []) \<Rightarrow> (l, [])
      | (l, v # ys) \<Rightarrow> (case n_deep_tree (Suc d) ys of (r, zs) \<Rightarrow> (Node l v r, zs)))"

lemma n_deep_tree_shorter: "length (snd (n_deep_tree d xs)) \<le> length xs"
  by (induction d xs rule: n_deep_tree.induct) (force split: prod.splits list.splits)+

text \<open>The loop of rowSetListToTree: the tree so far becomes the left subtree of the next entry.\<close>

function grow_tree :: "nat \<Rightarrow> int tree \<Rightarrow> int list \<Rightarrow> int tree" where
  "grow_tree d p [] = p"
| "grow_tree d p (v # vs) =
     (case n_deep_tree d vs of (r, rest) \<Rightarrow> grow_tree (d + 1) (Node p v r) rest)"
  by pat_completeness auto
termination
  by (relation "measure (\<lambda>(d, p, xs). length xs)") (auto, metis le_imp_less_Suc n_deep_tree_shorter snd_conv)

definition list_to_tree :: "bool \<Rightarrow> int list \<Rightarrow> trap + int tree" where
  "list_to_tree nd xs =
     (case xs of
        [] \<Rightarrow> Inl (if nd then Null_deref else Assert_failed)
      | x # xs \<Rightarrow> Inr (grow_tree 1 (Node Leaf x Leaf) xs))"

section \<open>Taking out and testing\<close>

definition rowset_next :: "bool \<Rightarrow> rowset \<Rightarrow> trap + int option \<times> rowset" where
  "rowset_next nd p =
     (if \<not> asserts nd (forest p = []) then Inl Assert_failed
      else
       and_then
         (if next_flag p then Inr p
          else and_then (if sorted_flag p then Inr (entries p) else entry_sort nd (entries p))
                 (\<lambda>es. Inr (p\<lparr>entries := es, sorted_flag := True, next_flag := True\<rparr>)))
         (\<lambda>p1. case entries p1 of
                 [] \<Rightarrow> Inr (None, p1)
               | v # es \<Rightarrow>
                   Inr (Some v, if es = [] then rowset_clear p1 else p1\<lparr>entries := es\<rparr>)))"

text \<open>
  The new entries go into the first free place of the forest; every tree before it is emptied
  into them. The second component is what is left to place when there is no free place.
\<close>

fun plant :: "bool \<Rightarrow> int list \<Rightarrow> int tree list \<Rightarrow> trap + int tree list \<times> int list" where
  "plant nd p [] = Inr ([], p)"
| "plant nd p (t # ts) =
     (if t = Leaf then and_then (list_to_tree nd p) (\<lambda>u. Inr (u # ts, []))
      else and_then (entry_merge nd (tree_to_list t) p)
             (\<lambda>m. and_then (plant nd m ts) (\<lambda>(us, rest). Inr (Leaf # us, rest))))"

definition new_batch :: "bool \<Rightarrow> bool \<Rightarrow> rowset \<Rightarrow> trap + rowset" where
  "new_batch nd room p =
     (if entries p = [] then Inr p
      else
       and_then (if sorted_flag p then Inr (entries p) else entry_sort nd (entries p)) (\<lambda>es.
       and_then (plant nd es (forest p)) (\<lambda>(ts, rest).
       and_then
         (if rest = [] then Inr (p\<lparr>forest := ts\<rparr>)
          else
           (case entry_alloc room p of
              None \<Rightarrow> Inr (p\<lparr>forest := ts\<rparr>)
            | Some p1 \<Rightarrow> and_then (list_to_tree nd rest) (\<lambda>u. Inr (p1\<lparr>forest := ts @ [u]\<rparr>))))
         (\<lambda>p2. Inr (p2\<lparr>entries := [], sorted_flag := True\<rparr>)))))"

fun search_tree :: "int \<Rightarrow> int tree \<Rightarrow> bool" where
  "search_tree x Leaf = False"
| "search_tree x (Node l v r) =
     (if v < x then search_tree x r else if v > x then search_tree x l else True)"

definition rowset_test :: "bool \<Rightarrow> bool \<Rightarrow> int \<Rightarrow> int \<Rightarrow> rowset \<Rightarrow> trap + bool \<times> rowset" where
  "rowset_test nd room i rowid p =
     (if \<not> asserts nd (\<not> next_flag p) then Inl Assert_failed
      else
       and_then
         (if i \<noteq> batch p then and_then (new_batch nd room p) (\<lambda>p1. Inr (p1\<lparr>batch := i\<rparr>)) else Inr p)
         (\<lambda>p1. Inr (\<exists>t \<in> set (forest p1). search_tree rowid t, p1)))"

end
