(* ===== verification/Rowset_Spec.thy ===== *)
theory Rowset_Spec
  imports Rowset
begin

text \<open>
  What the row set promises: its sort gives the distinct numbers in ascending order, its trees are
  search trees of minimal height, a test sees exactly what earlier batches inserted, and the
  numbers come out in ascending order, each once.
\<close>

section \<open>Merging and sorting\<close>

abbreviation ascending :: "int list \<Rightarrow> bool" where "ascending \<equiv> sorted_wrt (<)"

lemma entry_merge_spec:
  "ascending xs \<Longrightarrow> ascending ys \<Longrightarrow> xs \<noteq> [] \<Longrightarrow> ys \<noteq> [] \<Longrightarrow>
   \<exists>m. entry_merge nd xs ys = Inr m \<and> ascending m \<and> set m = set xs \<union> set ys \<and> m \<noteq> []"
proof (induction nd xs ys rule: entry_merge.induct)
  case (1 nd a as b bs)
  have ok: "asserts nd ((as = [] \<or> a \<le> hd as) \<and> (bs = [] \<or> b \<le> hd bs))"
    using "1.prems" by (cases as; cases bs) (auto simp: asserts_def)
  show ?case
  proof (cases "a \<le> b")
    case True
    obtain m where m: "(if as = [] then Inr (b # bs) else entry_merge nd as (b # bs)) = Inr m"
      "ascending m" "set m = set as \<union> set (b # bs)"
      using "1.IH"(1) ok True "1.prems" by (cases "as = []") auto
    then have "a < b \<Longrightarrow> \<forall>x \<in> set m. a < x" using "1.prems"(1,2) by auto
    then show ?thesis using m ok True by auto
  next
    case False
    obtain m where m: "(if bs = [] then Inr (a # as) else entry_merge nd (a # as) bs) = Inr m"
      "ascending m" "set m = set (a # as) \<union> set bs"
      using "1.IH"(2) ok False "1.prems" by (cases "bs = []") auto
    then have "\<forall>x \<in> set m. b < x" using False "1.prems"(1,2) by auto
    then show ?thesis using m ok False by auto
  qed
qed simp_all

text \<open>The buckets as a binary counter of the entries placed.\<close>

fun counter :: "int list list \<Rightarrow> nat" where
  "counter [] = 0"
| "counter (b # bs) = (if b = [] then 0 else 1) + 2 * counter bs"

lemma place_spec:
  "\<forall>b \<in> set bs. ascending b \<Longrightarrow> ascending x \<Longrightarrow> x \<noteq> [] \<Longrightarrow> Suc (counter bs) < 2 ^ length bs \<Longrightarrow>
   \<exists>bs'. place nd x bs = Inr bs' \<and> (\<forall>b \<in> set bs'. ascending b) \<and> length bs' = length bs \<and>
     \<Union> (set ` set bs') = set x \<union> \<Union> (set ` set bs) \<and> counter bs' = Suc (counter bs)"
proof (induction nd x bs rule: place.induct)
  case (2 nd x b bs)
  show ?case
  proof (cases "b = []")
    case False
    then obtain m where m: "entry_merge nd b x = Inr m" "ascending m" "set m = set b \<union> set x" "m \<noteq> []"
      using entry_merge_spec [of b x nd] "2.prems" by auto
    have "Suc (counter bs) < 2 ^ length bs" using "2.prems"(4) False by simp
    then obtain bs' where "place nd m bs = Inr bs'" "\<forall>b \<in> set bs'. ascending b" "length bs' = length bs"
      "\<Union> (set ` set bs') = set m \<union> \<Union> (set ` set bs)" "counter bs' = Suc (counter bs)"
      using "2.IH" [OF False _ m(2,4)] "2.prems"(1) by auto
    then show ?thesis using False m by auto
  qed (use "2.prems" in auto)
qed simp

lemma distribute_spec:
  "\<forall>b \<in> set bs. ascending b \<Longrightarrow> counter bs + length vs < 2 ^ length bs \<Longrightarrow>
   \<exists>bs'. distribute nd vs bs = Inr bs' \<and> (\<forall>b \<in> set bs'. ascending b) \<and> length bs' = length bs \<and>
     \<Union> (set ` set bs') = set vs \<union> \<Union> (set ` set bs)"
proof (induction vs arbitrary: bs)
  case (Cons v vs)
  obtain bs1 where p: "place nd [v] bs = Inr bs1" "\<forall>b \<in> set bs1. ascending b" "length bs1 = length bs"
    "\<Union> (set ` set bs1) = insert v (\<Union> (set ` set bs))" "counter bs1 = Suc (counter bs)"
    using place_spec [of bs "[v]" nd] Cons.prems by auto
  then show ?case using Cons.IH [of bs1] Cons.prems(2) by auto
qed simp

lemma collect_spec:
  "\<forall>b \<in> set bs. ascending b \<Longrightarrow> ascending p \<Longrightarrow>
   \<exists>m. collect nd p bs = Inr m \<and> ascending m \<and> set m = set p \<union> \<Union> (set ` set bs)"
proof (induction nd p bs rule: collect.induct)
  case (2 nd p b bs)
  show ?case
  proof (cases "b = [] \<or> p = []")
    case False
    then obtain m where "entry_merge nd p b = Inr m" "ascending m" "set m = set p \<union> set b"
      using entry_merge_spec [of p b nd] "2.prems" by auto
    then show ?thesis using "2.IH"(2) [of m] False "2.prems" by (auto simp: Un_assoc)
  qed (use 2 in auto)
qed simp

lemma counter_empty: "counter (replicate n []) = 0"
  by (induction n) simp_all

lemma entry_sort_spec:
  assumes "length xs < 2 ^ 40"
  shows "\<exists>m. entry_sort nd xs = Inr m \<and> ascending m \<and> set m = set xs"
proof -
  obtain bs where bs: "distribute nd xs (replicate 40 []) = Inr bs" "\<forall>b \<in> set bs. ascending b"
    "length bs = 40" "\<Union> (set ` set bs) = set xs"
    using distribute_spec [of "replicate 40 []" xs nd] assms by (auto simp: counter_empty)
  then obtain b bs' where b: "bs = b # bs'" by (cases bs) auto
  then show ?thesis using collect_spec [of bs' b nd] bs by (auto simp: entry_sort_def)
qed

lemma ascending_unique: "ascending xs \<Longrightarrow> sorted_list_of_set (set xs) = xs"
  by (simp add: strict_sorted_iff sorted_list_of_set.idem_if_sorted_distinct)

section \<open>Trees\<close>

lemma tree_to_list_inorder: "tree_to_list t = inorder t"
  by (induction t) auto

lemma double_full: "(2 :: nat) ^ d - 1 + (2 ^ d - 1) + 1 = 2 ^ Suc d - 1"
proof -
  have "(1 :: nat) \<le> 2 ^ d" by simp
  then show ?thesis unfolding power_Suc by linarith
qed

lemma n_deep_tree_spec:
  "n_deep_tree d xs = (t, rest) \<Longrightarrow> 0 < d \<Longrightarrow>
   inorder t @ rest = xs \<and> height t \<le> d \<and> (rest \<noteq> [] \<longrightarrow> size t = 2 ^ d - 1)"
proof (induction d xs arbitrary: t rest rule: n_deep_tree.induct)
  case (4 d x xs)
  obtain l ys where l: "n_deep_tree (Suc d) (x # xs) = (l, ys)" by fastforce
  have L: "inorder l @ ys = x # xs" "height l \<le> Suc d" "ys \<noteq> [] \<longrightarrow> size l = 2 ^ Suc d - 1"
    using "4.IH"(1) [OF l] by auto
  show ?case
  proof (cases ys)
    case Nil
    then show ?thesis using "4.prems" l L by auto
  next
    case (Cons v zs)
    obtain r ws where r: "n_deep_tree (Suc d) zs = (r, ws)" by fastforce
    have R: "inorder r @ ws = zs" "height r \<le> Suc d" "ws \<noteq> [] \<longrightarrow> size r = 2 ^ Suc d - 1"
      using "4.IH"(2) [OF l [symmetric] Cons r] by auto
    have "t = Node l v r" "rest = ws" using "4.prems"(1) l Cons r by auto
    moreover have "size (Node l v r) = 2 ^ Suc (Suc d) - 1" if "ws \<noteq> []"
      using that L(3) R(3) Cons double_full [of "Suc d"] by (simp del: power_Suc)
    ultimately show ?thesis using L R Cons by auto
  qed
qed auto

lemma grow_tree_spec:
  "size p = 2 ^ d - 1 \<Longrightarrow> height p = d \<Longrightarrow> 0 < d \<Longrightarrow>
   inorder (grow_tree d p xs) = inorder p @ xs \<and> 2 ^ (height (grow_tree d p xs) - 1) \<le> size (grow_tree d p xs)"
proof (induction d p xs rule: grow_tree.induct)
  case (1 d p)
  have "(2 :: nat) ^ d = 2 * 2 ^ (d - 1)" using "1.prems"(3) by (cases d) simp_all
  moreover have "(1 :: nat) \<le> 2 ^ (d - 1)" by simp
  ultimately have "(2 :: nat) ^ (d - 1) \<le> 2 ^ d - 1" by linarith
  then show ?case using 1 by simp
next
  case (2 d p v vs)
  obtain r rest where r: "n_deep_tree d vs = (r, rest)" by fastforce
  have R: "inorder r @ rest = vs" "height r \<le> d" "rest \<noteq> [] \<longrightarrow> size r = 2 ^ d - 1"
    using n_deep_tree_spec [OF r "2.prems"(3)] by auto
  have h: "height (Node p v r) = Suc d" using "2.prems"(2) R(2) by simp
  show ?case
  proof (cases rest)
    case Nil
    have "2 ^ d \<le> size (Node p v r)" using "2.prems"(1) by simp
    then show ?thesis using r R(1) h Nil by auto
  next
    case (Cons w ws)
    have "size (Node p v r) = 2 ^ Suc d - 1" 
      using "2.prems"(1) R(3) Cons double_full [of d] by (simp del: power_Suc)
    then show ?thesis using "2.IH" [OF r [symmetric]] r R(1) h by auto
  qed
qed

lemma list_to_tree_spec:
  assumes "xs \<noteq> []"
  shows "\<exists>t. list_to_tree nd xs = Inr t \<and> inorder t = xs \<and> t \<noteq> Leaf \<and> 2 ^ (height t - 1) \<le> size t"
proof -
  obtain x ys where xs: "xs = x # ys" using assms by (cases xs) auto
  let ?t = "grow_tree 1 (Node Leaf x Leaf) ys"
  have "inorder ?t = x # ys \<and> 2 ^ (height ?t - 1) \<le> size ?t"
    using grow_tree_spec [of "Node Leaf x Leaf" 1 ys] by simp
  moreover from this have "?t \<noteq> Leaf" by auto
  ultimately show ?thesis using xs by (simp add: list_to_tree_def)
qed

lemma search_tree_set: "bst t \<Longrightarrow> search_tree x t \<longleftrightarrow> x \<in> set_tree t"
  by (induction t) auto

section \<open>The forest\<close>

definition forest_set :: "int tree list \<Rightarrow> int set" where
  "forest_set ts = \<Union> (set_tree ` set ts)"

definition all_bst :: "int tree list \<Rightarrow> bool" where
  "all_bst ts \<longleftrightarrow> (\<forall>t \<in> set ts. bst t)"

lemma plant_spec:
  "all_bst ts \<Longrightarrow> ascending p \<Longrightarrow> p \<noteq> [] \<Longrightarrow>
   \<exists>us rest. plant nd p ts = Inr (us, rest) \<and> all_bst us \<and> ascending rest \<and>
     forest_set us \<union> set rest = forest_set ts \<union> set p"
proof (induction nd p ts rule: plant.induct)
  case (2 nd p t ts)
  show ?case
  proof (cases "t = Leaf")
    case True
    obtain u where u: "list_to_tree nd p = Inr u" "inorder u = p" using list_to_tree_spec [OF "2.prems"(3)] by blast
    then have "bst u" "set_tree u = set p" using "2.prems"(2) by (auto simp: bst_iff_sorted_wrt_less simp flip: set_inorder)
    then show ?thesis using True u "2.prems"(1) by (auto simp: all_bst_def forest_set_def)
  next
    case False
    then have "ascending (tree_to_list t)" "tree_to_list t \<noteq> []" "set (tree_to_list t) = set_tree t"
      using "2.prems"(1) by (auto simp: tree_to_list_inorder all_bst_def bst_iff_sorted_wrt_less)
    then obtain m where m: "entry_merge nd (tree_to_list t) p = Inr m" "ascending m" "set m = set_tree t \<union> set p" "m \<noteq> []"
      using entry_merge_spec [of "tree_to_list t" p nd] "2.prems" by auto
    obtain us rest where "plant nd m ts = Inr (us, rest)" "all_bst us" "ascending rest"
      "forest_set us \<union> set rest = forest_set ts \<union> set m"
      using "2.IH" [OF False _ m(2,4)] "2.prems"(1) by (auto simp: all_bst_def)
    then show ?thesis using False m by (auto simp: all_bst_def forest_set_def)
  qed
qed (simp add: all_bst_def forest_set_def)

text \<open>The invariant of a row set that is being filled, and its abstraction: what a test sees, and
  what was inserted since.\<close>

definition rowset_ok :: "rowset \<Rightarrow> bool" where
  "rowset_ok p \<longleftrightarrow> all_bst (forest p) \<and> (sorted_flag p \<longrightarrow> ascending (entries p)) \<and> \<not> next_flag p"

lemma ascending_snoc: "ascending xs \<Longrightarrow> xs = [] \<or> last xs < x \<Longrightarrow> ascending (xs @ [x])"
  by (cases xs rule: rev_cases) (force simp: sorted_wrt_append)+

lemma entry_alloc_room:
  "\<exists>p1. entry_alloc True p = Some p1 \<and> entries p1 = entries p \<and> forest p1 = forest p \<and>
    batch p1 = batch p \<and> sorted_flag p1 = sorted_flag p \<and> next_flag p1 = next_flag p"
  by (cases "fresh p = 0") (simp_all add: entry_alloc_def)

lemma rowset_insert_spec:
  assumes "rowset_ok p"
  shows "\<exists>p'. rowset_insert nd True x p = Inr p' \<and> rowset_ok p' \<and> entries p' = entries p @ [x] \<and>
    forest p' = forest p \<and> batch p' = batch p"
proof -
  obtain p1 where a: "entry_alloc True p = Some p1" "entries p1 = entries p" "forest p1 = forest p"
    "batch p1 = batch p" "sorted_flag p1 = sorted_flag p" "next_flag p1 = next_flag p"
    using entry_alloc_room by blast
  have "sorted_flag p \<Longrightarrow> entries p = [] \<or> last (entries p) < x \<Longrightarrow> ascending (entries p @ [x])"
    using assms by (intro ascending_snoc) (simp_all add: rowset_ok_def)
  then show ?thesis using a assms by (auto simp: rowset_insert_def rowset_ok_def)
qed

lemma new_batch_spec:
  assumes ok: "rowset_ok p" and len: "length (entries p) < 2 ^ 40"
  shows "\<exists>p'. new_batch nd True p = Inr p' \<and> rowset_ok p' \<and> entries p' = [] \<and>
    forest_set (forest p') = forest_set (forest p) \<union> set (entries p) \<and> batch p' = batch p"
proof (cases "entries p = []")
  case True
  then show ?thesis using ok by (auto simp: new_batch_def)
next
  case False
  obtain es where es: "(if sorted_flag p then Inr (entries p) else entry_sort nd (entries p)) = Inr es"
    "ascending es" "set es = set (entries p)"
    using entry_sort_spec [OF len, of nd] ok by (cases "sorted_flag p") (auto simp: rowset_ok_def)
  then have "es \<noteq> []" using False by auto
  then obtain ts rest where p: "plant nd es (forest p) = Inr (ts, rest)" "all_bst ts" "ascending rest"
    "forest_set ts \<union> set rest = forest_set (forest p) \<union> set es"
    using plant_spec [of "forest p" es nd] es ok by (auto simp: rowset_ok_def)
  show ?thesis
  proof (cases "rest = []")
    case True
    then show ?thesis using p es False ok by (auto simp: new_batch_def rowset_ok_def)
  next
    case nr: False
    obtain u where u: "list_to_tree nd rest = Inr u" "inorder u = rest" using list_to_tree_spec [OF nr] by blast
    then have "bst u" "set_tree u = set rest" using p(3) by (auto simp: bst_iff_sorted_wrt_less simp flip: set_inorder)
    moreover obtain p1 where "entry_alloc True p = Some p1" "batch p1 = batch p" "next_flag p1 = next_flag p"
      using entry_alloc_room by blast
    ultimately show ?thesis using p es u nr False ok
      by (auto simp: new_batch_def rowset_ok_def all_bst_def forest_set_def)
  qed
qed

lemma rowset_test_spec:
  assumes "rowset_ok p" and "length (entries p) < 2 ^ 40"
  shows "\<exists>p'. rowset_test nd True i x p =
      Inr (x \<in> forest_set (forest p) \<union> (if i \<noteq> batch p then set (entries p) else {}), p') \<and> rowset_ok p' \<and>
    entries p' = (if i \<noteq> batch p then [] else entries p) \<and> batch p' = i \<and>
    forest_set (forest p') = forest_set (forest p) \<union> (if i \<noteq> batch p then set (entries p) else {})"
proof -
  obtain p1 where p1: "(if i \<noteq> batch p then and_then (new_batch nd True p) (\<lambda>p1. Inr (p1\<lparr>batch := i\<rparr>)) else Inr p) = Inr p1"
    "rowset_ok p1" "entries p1 = (if i \<noteq> batch p then [] else entries p)" "batch p1 = i"
    "forest_set (forest p1) = forest_set (forest p) \<union> (if i \<noteq> batch p then set (entries p) else {})"
  proof (cases "i = batch p")
    case False
    obtain q where "new_batch nd True p = Inr q" "rowset_ok q" "entries q = []"
      "forest_set (forest q) = forest_set (forest p) \<union> set (entries p)"
      using new_batch_spec [OF assms, of nd] by blast
    with False show ?thesis by (intro that [of "q\<lparr>batch := i\<rparr>"]) (simp_all add: rowset_ok_def)
  next
    case True
    with assms(1) show ?thesis by (intro that [of p]) simp_all
  qed
  have s: "(\<exists>t \<in> set (forest p1). search_tree x t) \<longleftrightarrow> x \<in> forest_set (forest p1)"
    using p1(2) by (auto simp: rowset_ok_def all_bst_def forest_set_def search_tree_set)
  have a: "\<not> next_flag p" using assms(1) by (simp add: rowset_ok_def)
  have "rowset_test nd True i x p = Inr (x \<in> forest_set (forest p1), p1)"
    unfolding rowset_test_def p1(1) by (simp add: a s)
  then show ?thesis using p1(2-4) unfolding p1(5) [symmetric] by blast
qed

section \<open>Histories\<close>

datatype rowset_op = Insert int | Test int int

fun rowset_run :: "bool \<Rightarrow> rowset_op list \<Rightarrow> rowset \<Rightarrow> trap + bool list \<times> rowset" where
  "rowset_run nd [] p = Inr ([], p)"
| "rowset_run nd (Insert x # ops) p = and_then (rowset_insert nd True x p) (rowset_run nd ops)"
| "rowset_run nd (Test i x # ops) p =
     and_then (rowset_test nd True i x p)
       (\<lambda>(r, p'). and_then (rowset_run nd ops p') (\<lambda>(rs, q). Inr (r # rs, q)))"

text \<open>The specification: a pair of sets and the number of the batch.\<close>

fun spec_run :: "rowset_op list \<Rightarrow> int set \<times> int set \<times> int \<Rightarrow> bool list" where
  "spec_run [] s = []"
| "spec_run (Insert x # ops) (seen, new, b) = spec_run ops (seen, insert x new, b)"
| "spec_run (Test i x # ops) (seen, new, b) =
     (if i \<noteq> b then (x \<in> seen \<union> new) # spec_run ops (seen \<union> new, {}, i)
      else (x \<in> seen) # spec_run ops (seen, new, b))"

lemma rowset_run_spec:
  "rowset_ok p \<Longrightarrow> length (entries p) + length ops < 2 ^ 40 \<Longrightarrow>
   \<exists>q. rowset_run nd ops p = Inr (spec_run ops (forest_set (forest p), set (entries p), batch p), q)"
proof (induction ops arbitrary: p)
  case (Cons op ops)
  show ?case
  proof (cases op)
    case (Insert x)
    obtain p' where p': "rowset_insert nd True x p = Inr p'" "rowset_ok p'" "entries p' = entries p @ [x]"
      "forest p' = forest p" "batch p' = batch p"
      using rowset_insert_spec [OF Cons.prems(1)] by blast
    then show ?thesis using Cons.IH [OF p'(2)] Cons.prems(2) Insert by simp
  next
    case (Test i x)
    have len: "length (entries p) < 2 ^ 40" using Cons.prems(2) by simp
    let ?s = "forest_set (forest p) \<union> (if i \<noteq> batch p then set (entries p) else {})"
    obtain p' where p': "rowset_test nd True i x p = Inr (x \<in> ?s, p')" "rowset_ok p'"
      "entries p' = (if i \<noteq> batch p then [] else entries p)" "batch p' = i" "forest_set (forest p') = ?s"
      using rowset_test_spec [OF Cons.prems(1) len] by blast
    then show ?thesis using Cons.IH [OF p'(2)] Cons.prems(2) Test by (cases "i = batch p") auto
  qed
qed simp

section \<open>Taking the numbers out\<close>

fun rowset_drain :: "bool \<Rightarrow> nat \<Rightarrow> rowset \<Rightarrow> trap + int option list \<times> rowset" where
  "rowset_drain nd 0 p = Inr ([], p)"
| "rowset_drain nd (Suc n) p =
     and_then (rowset_next nd p) (\<lambda>(r, p'). and_then (rowset_drain nd n p') (\<lambda>(rs, q). Inr (r # rs, q)))"

lemma drain_empty:
  "forest p = [] \<Longrightarrow> entries p = [] \<Longrightarrow> sorted_flag p \<Longrightarrow> \<exists>q. rowset_drain nd n p = Inr (replicate n None, q)"
proof (induction n arbitrary: p)
  case (Suc n)
  let ?p = "p\<lparr>sorted_flag := True, next_flag := True\<rparr>"
  have "rowset_next nd p = Inr (None, if next_flag p then p else ?p)"
    using Suc.prems by (simp add: rowset_next_def)
  moreover have "\<exists>q. rowset_drain nd n (if next_flag p then p else ?p) = Inr (replicate n None, q)"
    using Suc.prems by (intro Suc.IH) simp_all
  ultimately show ?case by auto
qed simp

lemma drain_sorted:
  "forest p = [] \<Longrightarrow> next_flag p \<Longrightarrow> sorted_flag p \<Longrightarrow>
   \<exists>q. rowset_drain nd (length (entries p) + n) p = Inr (map Some (entries p) @ replicate n None, q)"
proof (induction "entries p" arbitrary: p)
  case Nil
  then show ?case using drain_empty [of p nd n] by simp
next
  case (Cons v es)
  let ?p = "if es = [] then rowset_clear p else p\<lparr>entries := es\<rparr>"
  have e: "entries p = v # es" using Cons.hyps(2) ..
  have nx: "rowset_next nd p = Inr (Some v, ?p)" using Cons.prems e by (simp add: rowset_next_def)
  have "\<exists>q. rowset_drain nd (length es + n) ?p = Inr (map Some es @ replicate n None, q)"
  proof (cases "es = []")
    case True
    then show ?thesis using drain_empty [of "rowset_clear p" nd n] by (simp add: rowset_clear_def)
  next
    case False
    then show ?thesis using Cons.hyps(1) [of "p\<lparr>entries := es\<rparr>"] Cons.prems by simp
  qed
  then show ?case using nx e by auto
qed

section \<open>Properties\<close>

text \<open>The sort returns the distinct numbers in ascending order, for any list that memory can
  hold: the array of forty buckets is not exceeded below 2^40 entries, and no assertion of the
  merges fails.\<close>

theorem rowset_sort:
  assumes "length xs < 2 ^ 40"
  shows "entry_sort nd xs = Inr (sorted_list_of_set (set xs))"
  using entry_sort_spec [OF assms, of nd] ascending_unique by metis

theorem rowset_sort_witness: "entry_sort False [3, 1, 3, 2] = Inr [1, 2, 3]"
proof -
  have "sorted_list_of_set (set [3, 1, 3, 2 :: int]) = [1, 2, 3]"
    using ascending_unique [of "[1, 2, 3]"] by (simp add: insert_commute insert_absorb2)
  then show ?thesis using rowset_sort [of "[3, 1, 3, 2]" False] by simp
qed

text \<open>Through any history of insertions and tests that has the memory it asks for the row set
  answers as a pair of sets does: a test sees what was inserted before the last change of the
  batch number.\<close>

theorem rowset_refines_sets:
  assumes "length ops < 2 ^ 40"
  shows "\<exists>q. rowset_run nd ops (rowset_init n) = Inr (spec_run ops ({}, {}, 0), q)"
  using rowset_run_spec [of "rowset_init n" ops nd] assms
  by (simp add: rowset_init_def rowset_ok_def all_bst_def forest_set_def)

theorem rowset_refines_sets_witness:
  "\<exists>q. rowset_run False [Insert 5, Insert 2, Test 1 5, Insert 7, Test 1 7, Test 2 7] (rowset_init 128) =
     Inr ([True, False, True], q)"
  using rowset_refines_sets [of "[Insert 5, Insert 2, Test 1 5, Insert 7, Test 1 7, Test 2 7]" False 128] by simp

text \<open>After any insertions the numbers are handed out in ascending order, each once, and then
  nothing more.\<close>

theorem rowset_hands_out_sorted:
  assumes "rowset_run nd (map Insert xs) (rowset_init n) = Inr (rs, p)" and "length xs < 2 ^ 40"
  shows "\<exists>q. rowset_drain nd (card (set xs) + k) p =
    Inr (map Some (sorted_list_of_set (set xs)) @ replicate k None, q)"
proof -
  have ins: "rowset_run nd (map Insert xs) p0 = Inr (rs, p) \<Longrightarrow> rowset_ok p0 \<Longrightarrow>
      rowset_ok p \<and> entries p = entries p0 @ xs \<and> forest p = forest p0" for p0
  proof (induction xs arbitrary: p0)
    case (Cons x xs)
    obtain p' where "rowset_insert nd True x p0 = Inr p'" "rowset_ok p'" "entries p' = entries p0 @ [x]"
      "forest p' = forest p0"
      using rowset_insert_spec [OF Cons.prems(2), of nd x] by blast
    then show ?case using Cons.IH [of p'] Cons.prems(1) by simp
  qed simp
  have "rowset_ok (rowset_init n)" by (simp add: rowset_init_def rowset_ok_def all_bst_def)
  with ins [OF assms(1)] have p: "rowset_ok p" "entries p = xs" "forest p = []"
    by (simp_all add: rowset_init_def)
  obtain es where es: "(if sorted_flag p then Inr (entries p) else entry_sort nd (entries p)) = Inr es"
    "ascending es" "set es = set xs"
    using entry_sort_spec [OF assms(2), of nd] p by (cases "sorted_flag p") (auto simp: rowset_ok_def)
  have l: "es = sorted_list_of_set (set xs)" using ascending_unique [OF es(2)] es(3) by simp
  then have "length es = card (set xs)" by simp
  let ?p = "p\<lparr>entries := es, sorted_flag := True, next_flag := True\<rparr>"
  have same: "rowset_next nd p = rowset_next nd ?p"
    unfolding rowset_next_def using p es(1) by (simp add: rowset_ok_def)
  obtain q where q: "rowset_drain nd (length es + k) ?p = Inr (map Some es @ replicate k None, q)"
    using drain_sorted [of ?p nd k] p(3) by auto
  show ?thesis
  proof (cases "length es + k")
    case 0
    then show ?thesis using l \<open>length es = card (set xs)\<close> by simp
  next
    case (Suc m)
    then have "rowset_drain nd (length es + k) p = rowset_drain nd (length es + k) ?p" using same by simp
    then show ?thesis using q \<open>length es = card (set xs)\<close> l by auto
  qed
qed

theorem rowset_hands_out_sorted_witness:
  "\<exists>q. rowset_drain False 3 (rowset_init 128 \<lparr>entries := [4, 2, 4], sorted_flag := False, fresh := 0\<rparr>) =
     Inr ([Some 2, Some 4, None], q)"
proof -
  have run: "rowset_run False (map Insert [4, 2, 4]) (rowset_init 128) =
      Inr ([], rowset_init 128 \<lparr>entries := [4, 2, 4], sorted_flag := False, fresh := 0\<rparr>)"
    by (simp add: rowset_insert_def entry_alloc_def rowset_init_def Let_def)
  have l: "sorted_list_of_set (set [4, 2, 4 :: int]) = [2, 4]"
    using ascending_unique [of "[2, 4]"] by (simp add: insert_commute)
  have c: "card (set [4, 2, 4 :: int]) + 1 = 3" by (simp add: card_insert_if)
  have "length [4, 2, 4 :: int] < 2 ^ 40" by simp
  from rowset_hands_out_sorted [OF run this, of 1] show ?thesis
    unfolding c l by (simp del: rowset_drain.simps)
qed

text \<open>The tree made of a list keeps its order, and its height is the least that its size
  allows.\<close>

theorem rowset_tree_balanced:
  assumes "xs \<noteq> []"
  shows "\<exists>t. list_to_tree nd xs = Inr t \<and> tree_to_list t = xs \<and> 2 ^ (height t - 1) \<le> length xs \<and> length xs < 2 ^ height t"
proof -
  obtain t where t: "list_to_tree nd xs = Inr t" "inorder t = xs" "2 ^ (height t - 1) \<le> size t"
    using list_to_tree_spec [OF assms] by blast
  have "size t = length xs" using t(2) by (metis length_inorder)
  moreover have "size1 t \<le> 2 ^ height t" by (rule size1_height)
  ultimately show ?thesis using t by (auto simp: tree_to_list_inorder size1_size)
qed

theorem rowset_tree_balanced_witness: "\<exists>t. list_to_tree False [1, 2, 3] = Inr t \<and> tree_to_list t = [1, 2, 3]"
  using rowset_tree_balanced [of "[1, 2, 3]" False] by blast

end
