(* ===== verification/Bitvec.thy ===== *)
theory Bitvec
  imports Prelude
begin

text \<open>
  The bit vector of the database library, deps/sqlite3/sqlite3.c: a set of numbers from 1 to a
  fixed size, with three representations. Up to 3968 numbers are a bitmap; a larger vector starts
  as a hash table with linear probing, and when that fills up it is divided into 62 vectors of a
  smaller size. The memory the operations ask for is granted or not by a function of the state of
  the allocator. On x86-64 the union has 496 bytes: 496 elements of a bitmap, 124 slots of a table,
  or 62 pointers.
\<close>

section \<open>State\<close>

abbreviation n_bit :: nat where "n_bit \<equiv> 3968"
abbreviation n_int :: nat where "n_int \<equiv> 124"
abbreviation mx_hash :: nat where "mx_hash \<equiv> 62"
abbreviation n_ptr :: nat where "n_ptr \<equiv> 62"

text \<open>
  The fields are iSize; iSize, nSet and aHash; iSize, nSet, iDivisor and apSub. The representation
  is \<open>Divided\<close> exactly when iDivisor is not zero, and a bitmap exactly when iSize is at most 3968.
\<close>

datatype bitvec =
    Bitmap (bv_size: u32) bytes
  | Hashed (bv_size: u32) u32 "u32 list"
  | Divided (bv_size: u32) u32 u32 "bitvec option list"

definition bitvec_new :: "u32 \<Rightarrow> bitvec" where
  "bitvec_new n =
     (if unat n \<le> n_bit then Bitmap n (replicate 496 0) else Hashed n 0 (replicate n_int 0))"

definition bitvec_create :: "('h \<Rightarrow> bool \<times> 'h) \<Rightarrow> u32 \<Rightarrow> 'h \<Rightarrow> bitvec option \<times> 'h" where
  "bitvec_create grant n h = (let (ok, h') = grant h in (if ok then Some (bitvec_new n) else None, h'))"

definition home_slot :: "u32 \<Rightarrow> nat" where
  "home_slot i = unat i mod n_int"

section \<open>Test\<close>

text \<open>
  A probe that has met no empty slot after all the slots of the table goes on for ever; the first
  argument counts them. It ends at the value, \<^const>\<open>None\<close>, or at an empty slot.
\<close>

fun probe :: "nat \<Rightarrow> u32 list \<Rightarrow> u32 \<Rightarrow> nat \<Rightarrow> nat option option" where
  "probe 0 t v h = None"
| "probe (Suc n) t v h =
     (if t ! h = 0 then Some (Some h)
      else if t ! h = v then Some None
      else probe n t v ((h + 1) mod n_int))"

lemma sub_size [termination_simp]:
  "b < length subs \<Longrightarrow> subs ! b = Some q \<Longrightarrow> size q < Suc (size_list (size_option size) subs)"
  using size_list_estimation' [of "Some q" subs "size q" "size_option size"] nth_mem [of b subs] by simp

fun test_at :: "u32 \<Rightarrow> bitvec \<Rightarrow> (bool, unit) outcome" where
  "test_at i (Bitmap n bm) =
     (if unat i div 8 < length bm
      then Done ((ucast (bm ! (unat i div 8)) :: u32) AND push_bit (unat (i AND 7)) 1 \<noteq> 0) ()
      else Trapped Out_of_range)"
| "test_at i (Hashed n k t) =
     (case probe n_int t (i + 1) (home_slot i) of
        None \<Rightarrow> Diverges
      | Some r \<Rightarrow> Done (r = None) ())"
| "test_at i (Divided n k d subs) =
     (let bin = unat (i div d)
      in if bin < length subs then
           (case subs ! bin of None \<Rightarrow> Done False () | Some q \<Rightarrow> test_at (i mod d) q)
         else Trapped Out_of_range)"

definition bitvec_test_not_null :: "bitvec \<Rightarrow> u32 \<Rightarrow> (bool, unit) outcome" where
  "bitvec_test_not_null p i = (if bv_size p \<le> i - 1 then Done False () else test_at (i - 1) p)"

definition bitvec_test :: "bitvec option \<Rightarrow> u32 \<Rightarrow> (bool, unit) outcome" where
  "bitvec_test p i = (case p of None \<Rightarrow> Done False () | Some q \<Rightarrow> bitvec_test_not_null q i)"

section \<open>Set\<close>

text \<open>The probe of the insertion, whose first slot is known not to be empty.\<close>

fun probe_set :: "nat \<Rightarrow> u32 list \<Rightarrow> u32 \<Rightarrow> nat \<Rightarrow> nat option option" where
  "probe_set 0 t v h = None"
| "probe_set (Suc n) t v h =
     (if t ! h = v then Some None
      else (let h1 = h + 1; h2 = (if n_int \<le> h1 then 0 else h1)
            in if t ! h2 = 0 then Some (Some h2) else probe_set n t v h2))"

text \<open>The values of a full table are inserted again; a failure does not end the loop.\<close>

fun reinsert ::
  "(u32 \<Rightarrow> bitvec \<Rightarrow> 'h \<Rightarrow> (int, bitvec \<times> 'h) outcome) \<Rightarrow> u32 list \<Rightarrow> int \<Rightarrow> bitvec \<Rightarrow> 'h \<Rightarrow>
   (int, bitvec \<times> 'h) outcome" where
  "reinsert f [] rc p h = Done rc (p, h)"
| "reinsert f (v # vs) rc p h =
     (if v = 0 then reinsert f vs rc p h
      else
       (case f v p h of
          Done rc' (p', h') \<Rightarrow> reinsert f vs (rc OR rc') p' h'
        | out \<Rightarrow> out))"

text \<open>The entry of the function: the assertions, and the index that counts from zero.\<close>

definition from_one ::
  "bool \<Rightarrow> (u32 \<Rightarrow> bitvec \<Rightarrow> 'h \<Rightarrow> (int, bitvec \<times> 'h) outcome) \<Rightarrow> u32 \<Rightarrow> bitvec \<Rightarrow> 'h \<Rightarrow>
   (int, bitvec \<times> 'h) outcome" where
  "from_one nd f i p h =
     (if \<not> asserts nd (0 < i \<and> i \<le> bv_size p) then Trapped Assert_failed else f (i - 1) p h)"

definition subdivided :: "u32 \<Rightarrow> u32 \<Rightarrow> bitvec" where
  "subdivided n k = Divided n k (ucast (((ucast n :: u64) + 62 - 1) div 62)) (replicate n_ptr None)"

text \<open>The first argument bounds the depth of the recursion; the code has no such bound.\<close>

primrec set_at ::
  "nat \<Rightarrow> bool \<Rightarrow> ('h \<Rightarrow> bool \<times> 'h) \<Rightarrow> u32 \<Rightarrow> bitvec \<Rightarrow> 'h \<Rightarrow> (int, bitvec \<times> 'h) outcome" where
  "set_at 0 nd grant i p h = Diverges"
| "set_at (Suc n) nd grant i p h =
     (case p of
        Bitmap sz bm \<Rightarrow>
          (if unat i div 8 < length bm
           then Done 0 (Bitmap sz (bm[unat i div 8 := bm ! (unat i div 8) OR push_bit (unat (i AND 7)) 1]), h)
           else Trapped Out_of_range)
      | Hashed sz k t \<Rightarrow>
          (let v = i + 1;
               keep = (\<lambda>s. Done 0 (Hashed sz (k + 1) (t[s := v]), h));
               rehash = (\<lambda>s.
                 if mx_hash \<le> unat k then
                   (case grant h of
                      (False, h1) \<Rightarrow> Done 7 (p, h1)
                    | (True, h1) \<Rightarrow>
                       (case from_one nd (set_at n nd grant) v (subdivided sz k) h1 of
                          Done rc (p1, h2) \<Rightarrow> reinsert (from_one nd (set_at n nd grant)) t rc p1 h2
                        | out \<Rightarrow> out))
                 else keep s)
           in if t ! home_slot i = 0 then
                (if unat k < n_int - 1 then keep (home_slot i) else rehash (home_slot i))
              else
               (case probe_set n_int t v (home_slot i) of
                  None \<Rightarrow> Diverges
                | Some None \<Rightarrow> Done 0 (p, h)
                | Some (Some s) \<Rightarrow> rehash s))
      | Divided sz k d subs \<Rightarrow>
          (let bin = unat (i div d)
           in if bin < length subs then
                (case (case subs ! bin of Some q \<Rightarrow> (Some q, h) | None \<Rightarrow> bitvec_create grant d h) of
                   (None, h1) \<Rightarrow> Done 7 (p, h1)
                 | (Some q, h1) \<Rightarrow>
                    (case set_at n nd grant (i mod d) q h1 of
                       Done rc (q', h2) \<Rightarrow> Done rc (Divided sz k d (subs[bin := Some q']), h2)
                     | out \<Rightarrow> out))
              else Trapped Out_of_range))"

text \<open>A depth of nine is enough for every size: four divisions, each of a table.\<close>

definition bitvec_set ::
  "bool \<Rightarrow> ('h \<Rightarrow> bool \<times> 'h) \<Rightarrow> u32 \<Rightarrow> bitvec option \<Rightarrow> 'h \<Rightarrow> (int, bitvec option \<times> 'h) outcome" where
  "bitvec_set nd grant i p h =
     (case p of
        None \<Rightarrow> Done 0 (None, h)
      | Some q \<Rightarrow>
         (case from_one nd (set_at 9 nd grant) i q h of
            Done rc (q', h') \<Rightarrow> Done rc (Some q', h')
          | Blocked \<Rightarrow> Blocked | Diverges \<Rightarrow> Diverges | Trapped t \<Rightarrow> Trapped t))"

section \<open>Clear\<close>

fun probe_free :: "nat \<Rightarrow> u32 list \<Rightarrow> nat \<Rightarrow> nat option" where
  "probe_free 0 t h = None"
| "probe_free (Suc n) t h =
     (if t ! h = 0 then Some h
      else (let h1 = h + 1 in probe_free n t (if n_int \<le> h1 then 0 else h1)))"

text \<open>The values other than the cleared one are put into an empty table.\<close>

fun refill :: "u32 \<Rightarrow> u32 list \<Rightarrow> u32 \<Rightarrow> u32 list \<Rightarrow> (u32 \<times> u32 list) option" where
  "refill v [] k t = Some (k, t)"
| "refill v (x # xs) k t =
     (if x \<noteq> 0 \<and> x \<noteq> v then
       (case probe_free n_int t (home_slot (x - 1)) of
          None \<Rightarrow> None
        | Some h \<Rightarrow> refill v xs (k + 1) (t[h := x]))
      else refill v xs k t)"

fun clear_at :: "u32 \<Rightarrow> bitvec \<Rightarrow> (unit, bitvec) outcome" where
  "clear_at i (Bitmap n bm) =
     (if unat i div 8 < length bm
      then Done () (Bitmap n (bm[unat i div 8 := bm ! (unat i div 8) AND NOT (push_bit (unat (i AND 7)) 1)]))
      else Trapped Out_of_range)"
| "clear_at i (Hashed n k t) =
     (case refill (i + 1) t 0 (replicate n_int 0) of
        None \<Rightarrow> Diverges
      | Some (k', t') \<Rightarrow> Done () (Hashed n k' t'))"
| "clear_at i (Divided n k d subs) =
     (let bin = unat (i div d)
      in if bin < length subs then
           (case subs ! bin of
              None \<Rightarrow> Done () (Divided n k d subs)
            | Some q \<Rightarrow>
               (case clear_at (i mod d) q of
                  Done u q' \<Rightarrow> Done () (Divided n k d (subs[bin := Some q']))
                | out \<Rightarrow> out))
         else Trapped Out_of_range)"

definition bitvec_clear :: "bool \<Rightarrow> u32 \<Rightarrow> bitvec option \<Rightarrow> (unit, bitvec option) outcome" where
  "bitvec_clear nd i p =
     (case p of
        None \<Rightarrow> Done () None
      | Some q \<Rightarrow>
          if \<not> asserts nd (0 < i) then Trapped Assert_failed
          else
           (case clear_at (i - 1) q of
              Done u q' \<Rightarrow> Done () (Some q')
            | Blocked \<Rightarrow> Blocked | Diverges \<Rightarrow> Diverges | Trapped t \<Rightarrow> Trapped t))"

section \<open>Probing\<close>

lemma home_slot_less [simp]: "home_slot i < n_int"
  by (simp add: home_slot_def)

lemma next_slot: "h < n_int \<Longrightarrow> (let h1 = h + 1 in if n_int \<le> h1 then 0 else h1) = (h + 1) mod n_int"
proof -
  assume "h < n_int"
  then consider "h = 123" | "h + 1 < n_int" by linarith
  then show ?thesis by cases simp_all
qed

text \<open>The three loops visit the same slots.\<close>

lemma probe_free_Suc: "h < n_int \<Longrightarrow>
    probe_free (Suc n) t h = (if t ! h = 0 then Some h else probe_free n t ((h + 1) mod n_int))"
  using next_slot [of h] by (simp add: Let_def)

lemma probe_set_Suc: "h < n_int \<Longrightarrow>
    probe_set (Suc n) t v h =
      (if t ! h = v then Some None
       else if t ! ((h + 1) mod n_int) = 0 then Some (Some ((h + 1) mod n_int))
       else probe_set n t v ((h + 1) mod n_int))"
  using next_slot [of h] by (simp add: Let_def)

lemma probe_free_probe: "v \<notin> set t \<Longrightarrow> length t = n_int \<Longrightarrow> h < n_int \<Longrightarrow>
    probe n t v h = map_option Some (probe_free n t h)"
proof (induction n arbitrary: h)
  case (Suc n)
  then have "t ! h \<noteq> v" by auto
  then show ?case using Suc by (simp add: probe_free_Suc del: probe_free.simps)
qed simp

lemma probe_set_probe: "probe n t v h = Some r \<Longrightarrow> h < n_int \<Longrightarrow> t ! h \<noteq> 0 \<Longrightarrow>
    probe_set n t v h = Some r"
proof (induction n arbitrary: h)
  case (Suc n)
  show ?case
  proof (cases "t ! h = v")
    case False
    then have p: "probe n t v ((h + 1) mod n_int) = Some r" using Suc.prems by simp
    show ?thesis
    proof (cases "t ! ((h + 1) mod n_int) = 0")
      case True
      then have "r = Some ((h + 1) mod n_int)" using p by (cases n) simp_all
      then show ?thesis using True False Suc.prems(2) by (simp add: probe_set_Suc del: probe_set.simps)
    next
      case zero: False
      then have "probe_set n t v ((h + 1) mod n_int) = Some r" using Suc.IH [OF p] by simp
      then show ?thesis using zero False Suc.prems(2) by (simp add: probe_set_Suc del: probe_set.simps)
    qed
  qed (use Suc.prems in simp)
qed simp

lemma probe_empty: "t ! h = 0 \<Longrightarrow> 0 < n \<Longrightarrow> probe n t v h = Some (Some h)"
  by (cases n) simp_all

text \<open>Where a probe ends, and that it ends.\<close>

lemma probe_free_slot:
  assumes "probe n t v h = Some (Some s)" and "h < n_int"
  shows "\<exists>m < n. s = (h + m) mod n_int \<and> t ! s = 0 \<and> (\<forall>j < m. t ! ((h + j) mod n_int) \<notin> {0, v})"
  using assms
proof (induction n arbitrary: h)
  case (Suc n)
  show ?case
  proof (cases "t ! h = 0")
    case True
    then show ?thesis using Suc.prems by auto
  next
    case False
    then have v: "t ! h \<noteq> v" and "probe n t v ((h + 1) mod n_int) = Some (Some s)"
      using Suc.prems(1) by (auto split: if_splits)
    then obtain m where m: "m < n" "s = ((h + 1) mod n_int + m) mod n_int" "t ! s = 0"
      "\<forall>j < m. t ! (((h + 1) mod n_int + j) mod n_int) \<notin> {0, v}" using Suc.IH by fastforce
    have "t ! ((h + j) mod n_int) \<notin> {0, v}" if "j < Suc m" for j
    proof (cases j)
      case 0
      then show ?thesis using False v Suc.prems(2) by simp
    next
      case (Suc j')
      then show ?thesis using m(4) that by (auto simp: mod_simps)
    qed
    moreover have "s = (h + Suc m) mod n_int" using m(2) by (simp add: mod_simps)
    ultimately show ?thesis using m(1,3) by (intro exI [of _ "Suc m"]) simp
  qed
qed simp

lemma probe_found: "probe n t v h = Some None \<Longrightarrow> h < n_int \<Longrightarrow> length t = n_int \<Longrightarrow> v \<in> set t"
proof (induction n arbitrary: h)
  case (Suc n)
  then show ?case using nth_mem [of h t] by (auto split: if_splits)
qed simp

lemma probe_ends:
  assumes "t ! ((h + m) mod n_int) = 0" and "m < n" and "h < n_int"
  shows "probe n t v h \<noteq> None"
  using assms
proof (induction n arbitrary: h m)
  case (Suc n)
  show ?case
  proof (cases m)
    case 0
    then show ?thesis using Suc.prems by simp
  next
    case (Suc m')
    then have "t ! (((h + 1) mod n_int + m') mod n_int) = 0" using Suc.prems(1) by (simp add: mod_simps)
    then show ?thesis using Suc.IH [of "(h + 1) mod n_int" m'] Suc.prems(2) Suc by simp
  qed
qed simp

section \<open>Tables\<close>

text \<open>The empty slot at which the probe for a value ends.\<close>

definition free_slot :: "u32 list \<Rightarrow> u32 \<Rightarrow> nat \<Rightarrow> bool" where
  "free_slot t v s \<longleftrightarrow> t ! s = 0 \<and> (\<exists>m < n_int. s = (home_slot (v - 1) + m) mod n_int \<and>
     (\<forall>j < m. t ! ((home_slot (v - 1) + j) mod n_int) \<noteq> 0))"

text \<open>No empty slot lies between the home of a value and its slot.\<close>

definition reached :: "u32 list \<Rightarrow> nat \<Rightarrow> bool" where
  "reached t s \<longleftrightarrow> (\<exists>m < n_int. s = (home_slot (t ! s - 1) + m) mod n_int \<and>
     (\<forall>j < m. t ! ((home_slot (t ! s - 1) + j) mod n_int) \<noteq> 0))"

definition table_ok :: "u32 \<Rightarrow> u32 list \<Rightarrow> bool" where
  "table_ok k t \<longleftrightarrow> length t = n_int \<and> unat k = length (filter (\<lambda>v. v \<noteq> 0) t) \<and> unat k < n_int \<and>
     (\<forall>a < n_int. \<forall>b < n_int. t ! a = t ! b \<longrightarrow> t ! a \<noteq> 0 \<longrightarrow> a = b) \<and>
     (\<forall>a < n_int. t ! a \<noteq> 0 \<longrightarrow> reached t a)"

lemma free_slot_less: "free_slot t v s \<Longrightarrow> s < n_int"
  unfolding free_slot_def by (metis mod_less_divisor zero_less_numeral)

lemma table_ok_new: "table_ok 0 (replicate n_int 0)"
  by (auto simp: table_ok_def)

lemma table_has_room:
  assumes "table_ok k t"
  shows "\<exists>m < n_int. t ! ((home_slot i + m) mod n_int) = 0"
proof -
  have "\<exists>s < n_int. t ! s = 0"
  proof (rule ccontr)
    assume "\<not> (\<exists>s < n_int. t ! s = 0)"
    then have "filter (\<lambda>v. v \<noteq> 0) t = t"
      using assms by (intro filter_True) (auto simp: table_ok_def in_set_conv_nth)
    then show False using assms by (auto simp: table_ok_def)
  qed
  then obtain s where s: "s < n_int" "t ! s = 0" by blast
  let ?m = "(s + (n_int - home_slot i)) mod n_int"
  have "(home_slot i + ?m) mod n_int = (s + (home_slot i + (n_int - home_slot i))) mod n_int"
    by (simp add: mod_simps add.left_commute)
  also have "home_slot i + (n_int - home_slot i) = n_int" using home_slot_less [of i] by linarith
  also have "(s + n_int) mod n_int = s" using s(1) by simp
  finally show ?thesis using s(2) by (intro exI [of _ ?m]) simp
qed

text \<open>A probe tells whether the value is in the table, and finds the slot for a new one.\<close>

lemma probe_table:
  assumes ok: "table_ok k t" and v: "v \<noteq> 0"
  shows "\<exists>r. probe n_int t v (home_slot (v - 1)) = Some r \<and>
    (case r of None \<Rightarrow> v \<in> set t | Some s \<Rightarrow> v \<notin> set t \<and> free_slot t v s)"
proof -
  let ?h = "home_slot (v - 1)"
  obtain m0 where "m0 < n_int" "t ! ((?h + m0) mod n_int) = 0" using table_has_room [OF ok] by blast
  then have "probe n_int t v ?h \<noteq> None" by (intro probe_ends [of _ _ m0]) simp_all
  then obtain r where r: "probe n_int t v ?h = Some r" by blast
  show ?thesis
  proof (cases r)
    case None
    then show ?thesis using r probe_found [of n_int t v ?h] ok by (simp add: table_ok_def)
  next
    case (Some s)
    then obtain m where m: "m < n_int" "s = (?h + m) mod n_int" "t ! s = 0"
      "\<forall>j < m. t ! ((?h + j) mod n_int) \<notin> {0, v}" using probe_free_slot [of n_int t v ?h s] r by auto
    have "v \<notin> set t"
    proof
      assume "v \<in> set t"
      moreover have "length t = n_int" using ok by (simp add: table_ok_def)
      ultimately obtain a where a: "a < n_int" "t ! a = v" by (metis in_set_conv_nth)
      then have "reached t a" using ok v by (simp add: table_ok_def)
      then obtain m' where m': "a = (?h + m') mod n_int" "\<forall>j < m'. t ! ((?h + j) mod n_int) \<noteq> 0"
        using a(2) by (auto simp: reached_def)
      show False
      proof (cases m' m rule: linorder_cases)
        case less
        from m(4) [rule_format, OF this] show False using a(2) m'(1) by simp
      next
        case equal
        then show False using m(2,3) a(2) m'(1) v by simp
      next
        case greater
        from m'(2) [rule_format, OF this] show False using m(2,3) by simp
      qed
    qed
    moreover have "free_slot t v s" unfolding free_slot_def using m by (intro conjI exI [of _ m]) simp_all
    ultimately show ?thesis using r Some by simp
  qed
qed

lemma table_insert:
  assumes ok: "table_ok k t" and room: "unat k < n_int - 1" and v: "v \<noteq> 0" "v \<notin> set t" and s: "free_slot t v s"
  shows "table_ok (k + 1) (t[s := v])"
proof -
  have len: "length t = n_int" and "s < n_int" "t ! s = 0"
    using ok s free_slot_less [OF s] by (simp_all add: table_ok_def free_slot_def)
  have k: "unat (k + 1) = Suc (unat k)" using room by (simp add: unat_word_ariths)
  have count: "length (filter (\<lambda>v. v \<noteq> 0) (t[s := v])) = Suc (unat k)"
    using count_update_more [of s t "\<lambda>v. v \<noteq> 0" v] ok len \<open>s < n_int\<close> \<open>t ! s = 0\<close> v(1) by (simp add: table_ok_def)
  have still: "t[s := v] ! (j mod n_int) \<noteq> 0" if "t ! (j mod n_int) \<noteq> 0" for j
    using that v(1) len by (simp add: nth_update)
  have "reached (t[s := v]) a" if a: "a < n_int" "t[s := v] ! a \<noteq> 0" for a
  proof (cases "a = s")
    case True
    then have "t[s := v] ! a = v" using len a(1) by simp
    then show ?thesis using s True still unfolding reached_def free_slot_def by auto
  next
    case False
    then have e: "t[s := v] ! a = t ! a" by simp
    then have "reached t a" using ok a by (simp add: table_ok_def)
    then show ?thesis using still unfolding reached_def e by blast
  qed
  moreover have "a = b" if "a < n_int" "b < n_int" "t[s := v] ! a = t[s := v] ! b" "t[s := v] ! a \<noteq> 0" for a b
  proof -
    have "t ! c \<noteq> v" if "c < n_int" for c using v(2) len nth_mem [of c t] that by auto
    moreover have "t ! a = t ! b \<Longrightarrow> t ! a \<noteq> 0 \<Longrightarrow> a = b" using ok that(1,2) by (simp add: table_ok_def)
    ultimately show ?thesis using that len by (auto simp: nth_update split: if_splits)
  qed
  ultimately show ?thesis using count k room len unfolding table_ok_def by auto
qed

lemma set_table_insert:
  "table_ok k t \<Longrightarrow> free_slot t v s \<Longrightarrow> u \<noteq> 0 \<Longrightarrow> u \<in> set (t[s := v]) \<longleftrightarrow> u = v \<or> u \<in> set t"
proof -
  assume "table_ok k t" "free_slot t v s" "u \<noteq> 0"
  then have s: "s < length t" "t ! s = 0" using free_slot_less [of t v s] by (simp_all add: table_ok_def free_slot_def)
  have "u \<in> set (t[s := v])" if u: "u \<in> set t"
  proof -
    obtain a where a: "a < length t" "t ! a = u" using u unfolding in_set_conv_nth by blast
    then have "a \<noteq> s" using s(2) \<open>u \<noteq> 0\<close> by metis
    then have "t[s := v] ! a = u" using a(2) by simp
    then show ?thesis using nth_mem [of a "t[s := v]"] a(1) by simp
  qed
  then show ?thesis using s(1) set_update_memI [of s t v] set_update_subset_insert [of t s v] by auto
qed

end
