(* ===== verification/Bitvec_Set.thy ===== *)
theory Bitvec_Set
  imports Bitvec
begin

text \<open>
  The bit vector as a set: which vectors the operations build, what a vector holds, and that
  test, set and clear do to it what they do to a set of numbers. Indices count from zero here, as
  they do inside the operations.
\<close>

section \<open>Well-formed vectors and what they hold\<close>

lemma sub_in_size [termination_simp]:
  "Some q \<in> set subs \<Longrightarrow> size q < Suc (size_list (size_option size) subs)"
  using size_list_estimation' [of "Some q" subs "size q" "size_option size"] by simp

fun vector_ok :: "bitvec \<Rightarrow> bool" where
  "vector_ok (Bitmap n bm) \<longleftrightarrow> unat n \<le> n_bit \<and> length bm = 496"
| "vector_ok (Hashed n k t) \<longleftrightarrow> n_bit < unat n \<and> table_ok k t \<and> (\<forall>v \<in> set t. unat v \<le> unat n)"
| "vector_ok (Divided n k d subs) \<longleftrightarrow> n_bit < unat n \<and> unat d = (unat n + 61) div 62 \<and> length subs = n_ptr \<and>
     (\<forall>s \<in> set subs. case s of None \<Rightarrow> True | Some q \<Rightarrow> vector_ok q \<and> bv_size q = d)"

fun holds :: "bitvec \<Rightarrow> nat \<Rightarrow> bool" where
  "holds (Bitmap n bm) j \<longleftrightarrow> bit (bm ! (j div 8)) (j mod 8)"
| "holds (Hashed n k t) j \<longleftrightarrow> (\<exists>v \<in> set t. unat v = Suc j)"
| "holds (Divided n k d subs) j \<longleftrightarrow>
     (let bin = j div unat d
      in if bin < length subs then (case subs ! bin of None \<Rightarrow> False | Some q \<Rightarrow> holds q (j mod unat d)) else False)"

lemma divisor_bounds:
  fixes n d :: nat
  assumes "n_bit < n" and "d = (n + 61) div 62"
  shows "0 < d" "d < n" "i < n \<Longrightarrow> i div d < n_ptr" "n \<le> n_bit * 62 ^ Suc k \<Longrightarrow> d \<le> n_bit * 62 ^ k"
proof -
  have d: "n \<le> 62 * d" "62 * d \<le> n + 61" using assms(2) by linarith+
  then show p: "0 < d" "d < n" using assms(1) by linarith+
  show "i div d < n_ptr" if "i < n"
    using that d(1) p(1) by (simp add: div_less_iff_less_mult mult.commute)
  show "d \<le> n_bit * 62 ^ k" if "n \<le> n_bit * 62 ^ Suc k"
  proof -
    have "62 * d \<le> 62 * (n_bit * 62 ^ k) + 61" using d(2) that by simp
    then show ?thesis by linarith
  qed
qed

lemma index_succ: "unat (i :: u32) < unat (n :: u32) \<Longrightarrow> unat (i + 1) = Suc (unat i)"
  using unat_u32_less [of n] by (simp add: unat_word_ariths)

lemma index_succ_in:
  assumes "unat (i :: u32) < unat (n :: u32)"
  shows "(\<exists>v \<in> set t. unat v = Suc (unat i)) \<longleftrightarrow> i + 1 \<in> set t"
proof -
  have "unat v = Suc (unat i) \<longleftrightarrow> v = i + 1" for v
    using index_succ [OF assms] by (metis word_unat_eq_iff)
  then show ?thesis by auto
qed

lemma index_succ_nonzero: "unat (i :: u32) < unat (n :: u32) \<Longrightarrow> i + 1 \<noteq> 0"
  using index_succ [of i n] by auto

lemma unat_and_7: "unat (i AND 7 :: u32) = unat i mod 8"
proof -
  have "unat (take_bit 3 i) = unat i mod 8" by (simp only: unsigned_take_bit_eq) (simp add: take_bit_eq_mod)
  moreover have "take_bit 3 i = i AND 7" by (simp only: take_bit_eq_mask mask_eq_exp_minus_1) simp
  ultimately show ?thesis by simp
qed

lemma new_vector_ok [simp]: "vector_ok (bitvec_new n)" "bv_size (bitvec_new n) = n" "\<not> is_Divided (bitvec_new n)"
  by (auto simp: bitvec_new_def table_ok_new)

lemma new_vector_holds: "j < unat n \<Longrightarrow> \<not> holds (bitvec_new n) j"
  by (auto simp: bitvec_new_def)

section \<open>Test\<close>

lemma test_bitmap:
  "m < 8 \<Longrightarrow> (ucast (b :: u8) :: u32) AND 2 ^ m = 0 \<longleftrightarrow> \<not> bit b m"
  by (simp add: and_exp_eq_0_iff_not_bit bit_simps)

lemma test_at_holds:
  "vector_ok p \<Longrightarrow> unat i < unat (bv_size p) \<Longrightarrow> test_at i p = Done (holds p (unat i)) ()"
proof (induction i p rule: test_at.induct)
  case (1 i n bm)
  then have "unat i < 3968" by simp
  then have "unat i div 8 < 496" by linarith
  then show ?case using 1 by (simp add: test_bitmap unat_and_7)
next
  case (2 i n k t)
  have ok: "table_ok k t" and i: "unat i < unat n" using 2 by simp_all
  obtain r where r: "probe n_int t (i + 1) (home_slot i) = Some r"
    "case r of None \<Rightarrow> i + 1 \<in> set t | Some s \<Rightarrow> i + 1 \<notin> set t \<and> free_slot t (i + 1) s"
    using probe_table [OF ok index_succ_nonzero [OF i]] by auto
  then show ?case by (cases r) (simp_all add: index_succ_in [OF i])
next
  case (3 i n k d subs)
  have d: "n_bit < unat n" "unat d = (unat n + 61) div 62" and i: "unat i < unat n" using 3 by simp_all
  have bin: "unat i div unat d < n_ptr" by (rule divisor_bounds(3) [OF d i])
  have "unat (i mod d) < unat d" using divisor_bounds(1) [OF d] by (simp add: unat_mod_distrib)
  show ?case
  proof (cases "subs ! (unat i div unat d)")
    case None
    then show ?thesis using bin 3(2) by (simp add: unat_div_distrib)
  next
    case (Some q)
    then have "Some q \<in> set subs" using bin 3(2) by (metis nth_mem vector_ok.simps(3))
    then have "vector_ok q" "bv_size q = d" using 3(2) by auto
    then show ?thesis
      using 3(1) [OF refl, of q] Some bin 3(2) \<open>unat (i mod d) < unat d\<close>
      by (simp add: unat_div_distrib unat_mod_distrib)
  qed
qed

section \<open>Set\<close>

text \<open>
  What setting index \<open>j\<close> of a vector may end in. The result is a vector that holds nothing else
  that is new; when the function succeeds it holds the index and all it held before, and it
  succeeds when all memory is granted.
\<close>

definition sets_index :: "('h \<Rightarrow> bool \<times> 'h) \<Rightarrow> nat \<Rightarrow> bitvec \<Rightarrow> (int, bitvec \<times> 'h) outcome \<Rightarrow> bool" where
  "sets_index grant j p out \<longleftrightarrow> (\<exists>rc p' h'. out = Done rc (p', h') \<and>
     vector_ok p' \<and> bv_size p' = bv_size p \<and> (is_Divided p \<longrightarrow> is_Divided p') \<and> rc \<in> {0, 7} \<and>
     (\<forall>l < unat (bv_size p). (holds p' l \<longrightarrow> l = j \<or> holds p l) \<and> (rc = 0 \<longrightarrow> l = j \<or> holds p l \<longrightarrow> holds p' l)) \<and>
     ((\<forall>h. fst (grant h)) \<longrightarrow> rc = 0))"

lemma sets_index_unchanged:
  "vector_ok p \<Longrightarrow> holds p j \<Longrightarrow> sets_index grant j p (Done 0 (p, h))"
  "vector_ok p \<Longrightarrow> \<not> (\<forall>h. fst (grant h)) \<Longrightarrow> sets_index grant j p (Done 7 (p, h))"
  by (auto simp: sets_index_def)

lemma set_bitmap:
  assumes "vector_ok (Bitmap n bm)" and i: "unat (i :: u32) < unat n"
  shows "sets_index grant (unat i) (Bitmap n bm)
    (Done 0 (Bitmap n (bm[unat i div 8 := bm ! (unat i div 8) OR push_bit (unat (i AND 7)) 1]), h))"
proof -
  have len: "length bm = 496" and small: "unat n \<le> n_bit" using assms(1) by simp_all
  have "holds (Bitmap n (bm[unat i div 8 := bm ! (unat i div 8) OR 2 ^ (unat i mod 8)])) l \<longleftrightarrow>
      l = unat i \<or> holds (Bitmap n bm) l" if "l < unat n" for l
  proof -
    have l: "l div 8 < 496" using that small by linarith
    have "l mod 8 = unat i mod 8 \<and> l div 8 = unat i div 8 \<longleftrightarrow> l = unat i"
      by (metis div_mult_mod_eq)
    moreover have "bit (2 ^ (unat i mod 8) :: u8) (l mod 8) \<longleftrightarrow> l mod 8 = unat i mod 8"
      by (auto simp: bit_exp_iff)
    ultimately show ?thesis using l len by (auto simp: nth_update bit_or_iff)
  qed
  then show ?thesis using len small by (simp add: sets_index_def unat_and_7 del: holds.simps)
qed

lemma set_hashed:
  assumes ok: "vector_ok (Hashed n k t)" and i: "unat i < unat n" and room: "unat k < n_int - 1"
    and new: "i + 1 \<notin> set t" and s: "free_slot t (i + 1) s"
  shows "sets_index grant (unat i) (Hashed n k t) (Done 0 (Hashed n (k + 1) (t[s := i + 1]), h))"
proof -
  have t: "table_ok k t" using ok by simp
  have v: "i + 1 \<noteq> 0" by (rule index_succ_nonzero [OF i])
  have "holds (Hashed n (k + 1) (t[s := i + 1])) l \<longleftrightarrow> l = unat i \<or> holds (Hashed n k t) l" for l
  proof -
    have "holds (Hashed n k t') l \<longleftrightarrow> (\<exists>u. u \<noteq> 0 \<and> u \<in> set t' \<and> unat u = Suc l)" for k t'
      by (metis holds.simps(2) nat.distinct(1) unat_0)
    then show ?thesis
      using set_table_insert [OF t s] v index_succ [OF i] by auto
  qed
  moreover have "unat u \<le> unat n" if "u \<in> set (t[s := i + 1])" for u
    using that ok index_succ [OF i] i set_update_subset_insert [of t s "i + 1"] by auto
  ultimately show ?thesis
    using table_insert [OF t room v new s] ok by (simp add: sets_index_def)
qed

text \<open>Dividing a full table: an empty divided vector, and the values inserted again.\<close>

lemma subdivided_ok:
  assumes "n_bit < unat n"
  shows "vector_ok (subdivided n k) \<and> is_Divided (subdivided n k) \<and> bv_size (subdivided n k) = n \<and>
    \<not> holds (subdivided n k) l"
proof -
  have n: "unat n < 2 ^ 32" by (rule unat_u32_less)
  have "unat ((ucast n :: u64) + 62) = unat n + 62"
    using n by (subst unat_plus_no_wrap) (simp_all add: unat_ucast_u32_u64)
  then have "unat ((ucast n :: u64) + 62 - 1) = unat n + 61"
    by (subst unat_sub) (simp_all add: word_le_nat_alt)
  then have "unat (((ucast n :: u64) + 62 - 1) div 62) = (unat n + 61) div 62" by (simp only: unat_div_distrib) simp
  moreover have "(unat n + 61) div 62 < 2 ^ 32" using n by simp
  ultimately have "unat (ucast (((ucast n :: u64) + 62 - 1) div 62) :: u32) = (unat n + 61) div 62"
    by (simp only: unsigned_ucast_eq take_bit_nat_eq_self_iff) (simp add: take_bit_nat_eq_self)
  then show ?thesis using assms by (auto simp: subdivided_def Let_def)
qed

lemma from_one_index:
  "v \<noteq> 0 \<Longrightarrow> unat v \<le> unat (bv_size p) \<Longrightarrow> from_one nd f v p h = f (v - 1) p h"
  by (simp add: from_one_def word_le_nat_alt word_gt_0)

lemma unat_pred: "v \<noteq> 0 \<Longrightarrow> unat (v - 1 :: u32) = unat v - 1"
  by (rule unat_minus_one)

lemma reinsert_result:
  assumes f: "\<And>q i h. vector_ok q \<Longrightarrow> is_Divided q \<Longrightarrow> bv_size q = n \<Longrightarrow> unat i < unat n \<Longrightarrow>
      sets_index grant (unat i) q (f i q h)"
    and "\<forall>v \<in> set vs. unat v \<le> unat n" and "vector_ok p" "is_Divided p" "bv_size p = n" and "rc \<in> {0, 7}"
  shows "\<exists>rc' p' h'. reinsert (from_one nd f) vs rc p h = Done rc' (p', h') \<and>
    vector_ok p' \<and> is_Divided p' \<and> bv_size p' = n \<and> rc' \<in> {0, 7} \<and> (rc' = 0 \<longrightarrow> rc = 0) \<and>
    (\<forall>l < unat n. (holds p' l \<longrightarrow> (\<exists>v \<in> set vs. unat v = Suc l) \<or> holds p l) \<and>
       (rc' = 0 \<longrightarrow> (\<exists>v \<in> set vs. unat v = Suc l) \<or> holds p l \<longrightarrow> holds p' l)) \<and>
    ((\<forall>h. fst (grant h)) \<longrightarrow> rc = 0 \<longrightarrow> rc' = 0)"
  using assms(2-)
proof (induction vs arbitrary: rc p h)
  case Nil
  then show ?case by simp
next
  case (Cons v vs)
  show ?case
  proof (cases "v = 0")
    case True
    then show ?thesis using Cons.IH [of p rc h] Cons.prems by simp
  next
    case False
    have small: "unat v \<le> unat n" using Cons.prems(1) by simp
    have pos: "0 < unat v" using False by (simp add: word_neq_0_conv flip: word_less_nat_alt) (simp add: unat_gt_0)
    have pred: "unat (v - 1) < unat n" "Suc (unat (v - 1)) = unat v"
      using small pos unat_pred [OF False] by linarith+
    from f [OF Cons.prems(2,3,4) pred(1), of h] obtain r q h1
      where q: "f (v - 1) p h = Done r (q, h1)" "vector_ok q" "is_Divided q" "bv_size q = n" "r \<in> {0, 7}"
        "\<forall>l < unat n. (holds q l \<longrightarrow> l = unat (v - 1) \<or> holds p l) \<and> (r = 0 \<longrightarrow> l = unat (v - 1) \<or> holds p l \<longrightarrow> holds q l)"
        "(\<forall>h. fst (grant h)) \<longrightarrow> r = 0"
      using Cons.prems(3,4) unfolding sets_index_def by auto
    have "rc OR r \<in> {0, 7}" and zero: "rc OR r = 0 \<longleftrightarrow> rc = 0 \<and> r = 0" using Cons.prems(5) q(5) by auto
    from Cons.IH [OF _ q(2,3,4) this(1), of h1] Cons.prems(1) obtain rc' p' h'
      where p': "reinsert (from_one nd f) vs (rc OR r) q h1 = Done rc' (p', h')" "vector_ok p'" "is_Divided p'"
        "bv_size p' = n" "rc' \<in> {0, 7}" "rc' = 0 \<longrightarrow> rc OR r = 0"
        "\<forall>l < unat n. (holds p' l \<longrightarrow> (\<exists>v \<in> set vs. unat v = Suc l) \<or> holds q l) \<and>
           (rc' = 0 \<longrightarrow> (\<exists>v \<in> set vs. unat v = Suc l) \<or> holds q l \<longrightarrow> holds p' l)"
        "(\<forall>h. fst (grant h)) \<longrightarrow> rc OR r = 0 \<longrightarrow> rc' = 0" by auto
    have run: "reinsert (from_one nd f) (v # vs) rc p h = Done rc' (p', h')"
      using False p'(1) q(1) from_one_index [OF False, of p nd f h] small Cons.prems(4) by simp
    have l: "l = unat (v - 1) \<longleftrightarrow> unat v = Suc l" for l using pred(2) by linarith
    have "(holds p' l \<longrightarrow> (\<exists>v \<in> set (v # vs). unat v = Suc l) \<or> holds p l) \<and>
       (rc' = 0 \<longrightarrow> (\<exists>v \<in> set (v # vs). unat v = Suc l) \<or> holds p l \<longrightarrow> holds p' l)" if "l < unat n" for l
      using p'(6) p'(7) [rule_format, OF that] q(6) [rule_format, OF that] zero unfolding l by auto
    then show ?thesis using run p'(2-6,8) q(7) zero by auto
  qed
qed

lemma redistribute_result:
  assumes f: "\<And>q j g. vector_ok q \<Longrightarrow> is_Divided q \<Longrightarrow> bv_size q = n \<Longrightarrow> unat j < unat n \<Longrightarrow>
      sets_index grant (unat j) q (f j q g)"
    and ok: "vector_ok (Hashed n k t)" and i: "unat i < unat n"
  shows "sets_index grant (unat i) (Hashed n k t)
    (case grant h of
       (False, h1) \<Rightarrow> Done 7 (Hashed n k t, h1)
     | (True, h1) \<Rightarrow>
        (case from_one nd f (i + 1) (subdivided n k) h1 of
           Done rc (p1, h2) \<Rightarrow> reinsert (from_one nd f) t rc p1 h2
         | out \<Rightarrow> out))"
proof (cases "grant h")
  case (Pair granted h1)
  show ?thesis
  proof (cases granted)
    case False
    then have "\<not> (\<forall>h. fst (grant h))" using Pair by (metis fst_conv)
    then show ?thesis using sets_index_unchanged(2) [OF ok, of grant "unat i" h1] Pair False by simp
  next
    case True
    let ?p = "subdivided n k"
    have p: "vector_ok ?p" "is_Divided ?p" "bv_size ?p = n" "\<not> holds ?p l" for l
      using subdivided_ok [of n k l] ok by simp_all
    have one: "from_one nd f (i + 1) ?p h1 = f i ?p h1"
      using from_one_index [of "i + 1" ?p nd f h1] index_succ [OF i] index_succ_nonzero [OF i] i p(3) by simp
    moreover obtain r q h2 where q: "f i ?p h1 = Done r (q, h2)" "vector_ok q" "is_Divided q" "bv_size q = n" "r \<in> {0, 7}"
      "\<forall>l < unat n. (holds q l \<longrightarrow> l = unat i) \<and> (r = 0 \<longrightarrow> l = unat i \<longrightarrow> holds q l)"
      "(\<forall>h. fst (grant h)) \<longrightarrow> r = 0"
      using f [OF p(1,2,3) i, of h1] p(2,3,4) unfolding sets_index_def by auto
    from ok have "\<forall>v \<in> set t. unat v \<le> unat n" by simp
    from reinsert_result [where f = f and grant = grant and nd = nd and h = h2, OF f this q(2-5)] obtain rc' p' h'
      where p': "reinsert (from_one nd f) t r q h2 = Done rc' (p', h')" "vector_ok p'" "bv_size p' = n"
        "rc' \<in> {0, 7}" "rc' = 0 \<longrightarrow> r = 0"
        "\<forall>l < unat n. (holds p' l \<longrightarrow> (\<exists>v \<in> set t. unat v = Suc l) \<or> holds q l) \<and>
           (rc' = 0 \<longrightarrow> (\<exists>v \<in> set t. unat v = Suc l) \<or> holds q l \<longrightarrow> holds p' l)"
        "(\<forall>h. fst (grant h)) \<longrightarrow> r = 0 \<longrightarrow> rc' = 0" by blast
    have hold: "(holds p' l \<longrightarrow> l = unat i \<or> holds (Hashed n k t) l) \<and>
        (rc' = 0 \<longrightarrow> l = unat i \<or> holds (Hashed n k t) l \<longrightarrow> holds p' l)" if "l < unat n" for l
      using p'(6) [rule_format, OF that] q(6) [rule_format, OF that] p'(5) unfolding holds.simps(2) by blast
    have res: "sets_index grant (unat i) (Hashed n k t) (Done rc' (p', h'))"
      unfolding sets_index_def using p'(2-4,7) q(7) hold
      by (intro exI [of _ rc'] exI [of _ p'] exI [of _ h'] conjI) (simp_all del: holds.simps)
    have run: "from_one nd f (i + 1) ?p h1 = Done r (q, h2)" by (rule trans [OF one q(1)])
    show ?thesis using res by (simp add: Pair True run p'(1))
  qed
qed

text \<open>A divided vector whose part for index \<open>i\<close> is replaced.\<close>

lemma divided_update:
  assumes ok: "vector_ok (Divided n k d subs)" and i: "unat i < unat n" and q: "vector_ok q" "bv_size q = d"
  shows "vector_ok (Divided n k d (subs[unat i div unat d := Some q]))"
    and "l < unat n \<Longrightarrow> holds (Divided n k d (subs[unat i div unat d := Some q])) l \<longleftrightarrow>
      (if l div unat d = unat i div unat d then holds q (l mod unat d) else holds (Divided n k d subs) l)"
    and "l div unat d = unat i div unat d \<Longrightarrow> l = unat i \<longleftrightarrow> l mod unat d = unat i mod unat d"
proof -
  have d: "n_bit < unat n" "unat d = (unat n + 61) div 62" and len: "length subs = n_ptr" using ok by simp_all
  show "vector_ok (Divided n k d (subs[unat i div unat d := Some q]))"
    using ok q set_update_subset_insert [of subs "unat i div unat d" "Some q"] by (auto split: option.splits)
  show "holds (Divided n k d (subs[unat i div unat d := Some q])) l \<longleftrightarrow>
      (if l div unat d = unat i div unat d then holds q (l mod unat d) else holds (Divided n k d subs) l)"
    if "l < unat n" using divisor_bounds(3) [OF d that] len by (auto simp: Let_def)
  show "l = unat i \<longleftrightarrow> l mod unat d = unat i mod unat d" if "l div unat d = unat i div unat d"
    using that by (metis div_mult_mod_eq)
qed

lemma divided_result:
  assumes f: "\<And>q g. vector_ok q \<Longrightarrow> bv_size q = d \<Longrightarrow> sets_index grant (unat (i mod d)) q (f q g)"
    and ok: "vector_ok (Divided n k d subs)" and i: "unat i < unat n"
  shows "sets_index grant (unat i) (Divided n k d subs)
    (let bin = unat (i div d)
     in if bin < length subs then
          (case (case subs ! bin of Some q \<Rightarrow> (Some q, h) | None \<Rightarrow> bitvec_create grant d h) of
             (None, h1) \<Rightarrow> Done 7 (Divided n k d subs, h1)
           | (Some q, h1) \<Rightarrow>
              (case f q h1 of
                 Done rc (q', h2) \<Rightarrow> Done rc (Divided n k d (subs[bin := Some q']), h2)
               | out \<Rightarrow> out))
        else Trapped Out_of_range)"
proof -
  have d: "n_bit < unat n" "unat d = (unat n + 61) div 62" and len: "length subs = n_ptr" using ok by simp_all
  let ?b = "unat i div unat d"
  have bin: "?b < n_ptr" by (rule divisor_bounds(3) [OF d i])
  have d0: "0 < unat d" by (rule divisor_bounds(1) [OF d])
  define g where "g = (case subs ! ?b of Some q \<Rightarrow> (Some q, h) | None \<Rightarrow> bitvec_create grant d h)"
  show ?thesis
  proof (cases g)
    case (Pair o1 h1)
    show ?thesis
    proof (cases o1)
      case None
      then have "\<not> (\<forall>h. fst (grant h))"
        using Pair by (auto simp: g_def bitvec_create_def split: option.splits prod.splits if_splits) (metis fst_conv)
      then show ?thesis
        using sets_index_unchanged(2) [OF ok, of grant "unat i" h1] Pair None bin len
        by (simp add: unat_div_distrib flip: g_def)
    next
      case (Some q)
      have q: "vector_ok q" "bv_size q = d" and same: "m < unat d \<Longrightarrow>
          holds q m \<longleftrightarrow> (case subs ! ?b of None \<Rightarrow> False | Some q \<Rightarrow> holds q m)" for m
      proof -
        have "vector_ok q \<and> bv_size q = d \<and> (m < unat d \<longrightarrow>
          (holds q m \<longleftrightarrow> (case subs ! ?b of None \<Rightarrow> False | Some q \<Rightarrow> holds q m)))" for m
        proof (cases "subs ! ?b")
          case None
          then have "q = bitvec_new d"
            using Pair Some by (auto simp: g_def bitvec_create_def split: prod.splits if_splits)
          then show ?thesis using None new_vector_holds [of m d] by simp
        next
          case sub: (Some q')
          then have "q = q'" using Pair Some by (simp add: g_def)
          moreover have "Some q' \<in> set subs" using sub bin len by (metis nth_mem)
          ultimately show ?thesis using ok sub by auto
        qed
        then show "vector_ok q" "bv_size q = d" "m < unat d \<Longrightarrow>
          holds q m \<longleftrightarrow> (case subs ! ?b of None \<Rightarrow> False | Some q \<Rightarrow> holds q m)" by blast+
      qed
      obtain rc q' h2 where r: "f q h1 = Done rc (q', h2)" "vector_ok q'" "bv_size q' = d" "rc \<in> {0, 7}"
        "\<forall>l < unat d. (holds q' l \<longrightarrow> l = unat i mod unat d \<or> holds q l) \<and>
           (rc = 0 \<longrightarrow> l = unat i mod unat d \<or> holds q l \<longrightarrow> holds q' l)"
        "(\<forall>h. fst (grant h)) \<longrightarrow> rc = 0"
        using f [OF q, of h1] q(2) unfolding sets_index_def by (auto simp: unat_mod_distrib)
      let ?p' = "Divided n k d (subs[?b := Some q'])"
      note upd = divided_update [OF ok i r(2,3)]
      have "(holds ?p' l \<longrightarrow> l = unat i \<or> holds (Divided n k d subs) l) \<and>
          (rc = 0 \<longrightarrow> l = unat i \<or> holds (Divided n k d subs) l \<longrightarrow> holds ?p' l)" if "l < unat n" for l
      proof (cases "l div unat d = ?b")
        case True
        have m: "l mod unat d < unat d" using d0 by simp
        show ?thesis
          using True upd(2) [OF that] upd(3) [OF True] r(5) [rule_format, OF m] same [OF m] bin len
          by (auto simp: Let_def)
      next
        case False
        then show ?thesis using upd(2) [OF that] by auto
      qed
      then have "sets_index grant (unat i) (Divided n k d subs) (Done rc (?p', h2))"
        using r(4,6) upd(1) by (auto simp: sets_index_def simp del: holds.simps vector_ok.simps)
      then show ?thesis using Pair Some r(1) bin len by (simp add: unat_div_distrib flip: g_def)
    qed
  qed
qed

text \<open>The depth that is enough: the size is at most 3968 times 62 to the number of divisions.\<close>

lemma set_at_result:
  "vector_ok p \<Longrightarrow> unat i < unat (bv_size p) \<Longrightarrow> unat (bv_size p) \<le> n_bit * 62 ^ k \<Longrightarrow>
   (if is_Divided p then 2 * k else 2 * k + 1) \<le> n \<Longrightarrow> 0 < n \<Longrightarrow>
   sets_index grant (unat i) p (set_at n nd grant i p h)"
proof (induction n arbitrary: k i p h)
  case 0
  then show ?case by simp
next
  case (Suc n)
  show ?case
  proof (cases p)
    case (Bitmap sz bm)
    then have "unat i < 3968" using Suc.prems(1,2) by simp
    then have "unat i div 8 < 496" by linarith
    then show ?thesis using set_bitmap [of sz bm i grant h] Suc.prems(1,2) Bitmap by simp
  next
    case (Hashed sz c t)
    have ok: "vector_ok (Hashed sz c t)" and i: "unat i < unat sz" using Suc.prems(1,2) Hashed by simp_all
    have t: "table_ok c t" and big: "n_bit < unat sz" using ok by simp_all
    have v: "i + 1 \<noteq> 0" "unat (i + 1) = Suc (unat i)" using index_succ [OF i] index_succ_nonzero [OF i] by simp_all
    let ?f = "set_at n nd grant"
    have divided: "sets_index grant (unat j) q (?f j q g)"
      if "vector_ok q" "is_Divided q" "bv_size q = sz" "unat j < unat sz" for q j g
    proof -
      have "k \<noteq> 0" using Suc.prems(3) big Hashed by (cases k) simp_all
      then show ?thesis using Suc.IH [of q j k g] that Suc.prems(3,4) Hashed by simp
    qed
    note rehash = redistribute_result [where f = ?f and grant = grant and nd = nd and h = h, OF divided ok i]
    obtain r where r: "probe n_int t (i + 1) (home_slot i) = Some r"
      "case r of None \<Rightarrow> i + 1 \<in> set t | Some s \<Rightarrow> i + 1 \<notin> set t \<and> free_slot t (i + 1) s"
      using probe_table [OF t v(1)] by auto
    note keep = set_hashed [OF ok i, of _ grant h]
    show ?thesis
    proof (cases "t ! home_slot i = 0")
      case True
      then have "r = Some (home_slot i)" using r(1) by (simp add: probe_empty)
      then have s: "i + 1 \<notin> set t" "free_slot t (i + 1) (home_slot i)" using r(2) by simp_all
      show ?thesis
      proof (cases "unat c < n_int - 1")
        case True
        show ?thesis unfolding Hashed set_at.simps bitvec.case Let_def if_P [OF \<open>t ! home_slot i = 0\<close>] if_P [OF True]
          by (rule keep [OF True s])
      next
        case False
        then have "mx_hash \<le> unat c" by linarith
        then show ?thesis
          unfolding Hashed set_at.simps bitvec.case Let_def if_P [OF \<open>t ! home_slot i = 0\<close>] if_not_P [OF False]
          using rehash by (simp only: if_True)
      qed
    next
      case False
      have s: "probe_set n_int t (i + 1) (home_slot i) = Some r" by (rule probe_set_probe [OF r(1) _ False]) simp
      show ?thesis
      proof (cases r)
        case None
        then have "holds (Hashed sz c t) (unat i)" using r(2) v(2) by auto
        then show ?thesis using sets_index_unchanged(1) [OF ok] s False None Hashed by (simp add: Let_def)
      next
        case (Some a)
        then have a: "i + 1 \<notin> set t" "free_slot t (i + 1) a" using r(2) by simp_all
        show ?thesis
        proof (cases "mx_hash \<le> unat c")
          case True
          show ?thesis unfolding Hashed set_at.simps bitvec.case Let_def if_not_P [OF False] s Some option.case if_P [OF True]
            by (rule rehash [unfolded Hashed])
        next
          case few: False
          then have "unat c < n_int - 1" by linarith
          from keep [OF this a] show ?thesis
            unfolding Hashed set_at.simps bitvec.case Let_def if_not_P [OF False] s Some option.case if_not_P [OF few] .
        qed
      qed
    qed
  next
    case (Divided sz c d subs)
    have ok: "vector_ok (Divided sz c d subs)" and i: "unat i < unat sz" using Suc.prems(1,2) Divided by simp_all
    have d: "n_bit < unat sz" "unat d = (unat sz + 61) div 62" using ok by simp_all
    obtain k' where k: "k = Suc k'" using Suc.prems(3) d(1) Divided by (cases k) simp_all
    have low: "unat (i mod d) < unat d" "unat d \<le> n_bit * 62 ^ k'"
      using divisor_bounds(1,4) [OF d] Suc.prems(3) Divided k by (simp_all add: unat_mod_distrib)
    have "sets_index grant (unat (i mod d)) q (set_at n nd grant (i mod d) q g)" if "vector_ok q" "bv_size q = d" for q g
      using Suc.IH [of q "i mod d" k' g] that low Suc.prems(4) Divided k by simp
    from divided_result [where grant = grant and h = h and f = "set_at n nd grant (i mod d)", OF this ok i] show ?thesis using Divided by simp
  qed
qed

section \<open>Clear\<close>

lemma distinct_filter_nth:
  "\<forall>a < length xs. \<forall>b < length xs. xs ! a = xs ! b \<longrightarrow> P (xs ! a) \<longrightarrow> a = b \<Longrightarrow> distinct (filter P xs)"
proof (induction xs)
  case (Cons x xs)
  have "distinct (filter P xs)"
  proof (rule Cons.IH, intro allI impI)
    fix a b assume "a < length xs" "b < length xs" "xs ! a = xs ! b" "P (xs ! a)"
    then show "a = b" using Cons.prems [rule_format, of "Suc a" "Suc b"] by simp
  qed
  moreover have "x \<notin> set xs" if "P x"
    using Cons.prems [rule_format, of 0 "Suc b" for b] that by (force simp: in_set_conv_nth)
  ultimately show ?case by simp
qed simp

lemma refill_result:
  assumes "table_ok k t" and "distinct (filter (\<lambda>x. x \<noteq> 0) xs)" and "\<forall>x \<in> set xs. x \<noteq> 0 \<longrightarrow> x \<notin> set t"
    and "unat k + length (filter (\<lambda>x. x \<noteq> 0) xs) < n_int"
  shows "\<exists>k' t'. refill v xs k t = Some (k', t') \<and> table_ok k' t' \<and>
    (\<forall>u. u \<noteq> 0 \<longrightarrow> (u \<in> set t' \<longleftrightarrow> u \<in> set t \<or> u \<in> set xs \<and> u \<noteq> v))"
  using assms
proof (induction xs arbitrary: k t)
  case Nil
  then show ?case by simp
next
  case (Cons x xs)
  show ?case
  proof (cases "x \<noteq> 0 \<and> x \<noteq> v")
    case False
    then have "unat k + length (filter (\<lambda>x. x \<noteq> 0) xs) < n_int" "distinct (filter (\<lambda>x. x \<noteq> 0) xs)"
      using Cons.prems(2,4) by (auto split: if_splits)
    then show ?thesis using Cons.IH [of k t] Cons.prems(1,3) False by auto
  next
    case True
    have new: "x \<notin> set t" and len: "length t = n_int" using Cons.prems(1,3) True by (simp_all add: table_ok_def)
    obtain r where r: "probe n_int t x (home_slot (x - 1)) = Some r"
      "case r of None \<Rightarrow> x \<in> set t | Some s \<Rightarrow> x \<notin> set t \<and> free_slot t x s"
      using probe_table [OF Cons.prems(1), of x] True by auto
    then obtain s where s: "r = Some s" "free_slot t x s" using new by (cases r) simp_all
    have free: "probe_free n_int t (home_slot (x - 1)) = Some s"
      using probe_free_probe [OF new len home_slot_less, of n_int "x - 1"] r(1) s(1)
      by (cases "probe_free n_int t (home_slot (x - 1))") simp_all
    have room: "unat k < n_int - 1" using Cons.prems(4) True by simp
    have k: "unat (k + 1) = Suc (unat k)" using room by (simp add: unat_word_ariths)
    have ins: "u \<in> set (t[s := x]) \<longleftrightarrow> u = x \<or> u \<in> set t" if "u \<noteq> 0" for u
      by (rule set_table_insert [OF Cons.prems(1) s(2) that])
    have "table_ok (k + 1) (t[s := x])" by (rule table_insert [OF Cons.prems(1) room _ new s(2)]) (use True in simp)
    moreover have "\<forall>y \<in> set xs. y \<noteq> 0 \<longrightarrow> y \<notin> set (t[s := x])" using Cons.prems(2,3) ins True by auto
    ultimately obtain k' t' where t': "refill v xs (k + 1) (t[s := x]) = Some (k', t')" "table_ok k' t'"
      "\<forall>u. u \<noteq> 0 \<longrightarrow> (u \<in> set t' \<longleftrightarrow> u \<in> set (t[s := x]) \<or> u \<in> set xs \<and> u \<noteq> v)"
      using Cons.IH [of "k + 1" "t[s := x]"] Cons.prems(2,4) True k by auto
    have "refill v (x # xs) k t = Some (k', t')" using t'(1) free True by simp
    moreover have "u \<in> set t' \<longleftrightarrow> u \<in> set t \<or> u \<in> set (x # xs) \<and> u \<noteq> v" if "u \<noteq> 0" for u
      using t'(3) ins [OF that] that True by auto
    ultimately show ?thesis using t'(2) by blast
  qed
qed

definition clears_index :: "nat \<Rightarrow> bitvec \<Rightarrow> (unit, bitvec) outcome \<Rightarrow> bool" where
  "clears_index j p out \<longleftrightarrow> (\<exists>p'. out = Done () p' \<and> vector_ok p' \<and> bv_size p' = bv_size p \<and>
     (\<forall>l < unat (bv_size p). holds p' l \<longleftrightarrow> holds p l \<and> l \<noteq> j))"

lemma clear_bitmap:
  assumes "vector_ok (Bitmap n bm)" and i: "unat (i :: u32) < unat n"
  shows "clears_index (unat i) (Bitmap n bm)
    (Done () (Bitmap n (bm[unat i div 8 := bm ! (unat i div 8) AND NOT (push_bit (unat (i AND 7)) 1)])))"
proof -
  have len: "length bm = 496" and small: "unat n \<le> n_bit" using assms(1) by simp_all
  have "holds (Bitmap n (bm[unat i div 8 := bm ! (unat i div 8) AND NOT (2 ^ (unat i mod 8))])) l \<longleftrightarrow>
      holds (Bitmap n bm) l \<and> l \<noteq> unat i" if "l < unat n" for l
  proof -
    have l: "l div 8 < 496" using that small by linarith
    have "l mod 8 = unat i mod 8 \<and> l div 8 = unat i div 8 \<longleftrightarrow> l = unat i"
      by (metis div_mult_mod_eq)
    moreover have "bit (NOT (2 ^ (unat i mod 8)) :: u8) (l mod 8) \<longleftrightarrow> l mod 8 \<noteq> unat i mod 8"
      by (auto simp: bit_simps)
    ultimately show ?thesis using l len by (auto simp: nth_update bit_and_iff)
  qed
  then show ?thesis using len small by (simp add: clears_index_def unat_and_7 del: holds.simps)
qed

lemma clear_at_result:
  "vector_ok p \<Longrightarrow> unat i < unat (bv_size p) \<Longrightarrow> clears_index (unat i) p (clear_at i p)"
proof (induction i p rule: clear_at.induct)
  case (1 i n bm)
  have "unat i < 3968" using 1 by simp
  then have "unat i div 8 < 496" by linarith
  then show ?case using clear_bitmap [of n bm i] 1 by simp
next
  case (2 i n k t)
  have t: "table_ok k t" and i: "unat i < unat n" and big: "n_bit < unat n" using 2 by simp_all
  have "distinct (filter (\<lambda>x. x \<noteq> 0) t)" using t by (intro distinct_filter_nth) (simp add: table_ok_def)
  moreover have "length (filter (\<lambda>x. x \<noteq> 0) t) < n_int" using t by (simp add: table_ok_def)
  ultimately obtain k' t' where t': "refill (i + 1) t 0 (replicate n_int 0) = Some (k', t')" "table_ok k' t'"
    "\<forall>u. u \<noteq> 0 \<longrightarrow> (u \<in> set t' \<longleftrightarrow> u \<in> set (replicate n_int 0) \<or> u \<in> set t \<and> u \<noteq> i + 1)"
    using refill_result [OF table_ok_new, of t "i + 1"] by auto
  have mem: "u \<in> set t' \<longleftrightarrow> u \<in> set t \<and> u \<noteq> i + 1" if "u \<noteq> 0" for u using t'(3) that by simp
  have hold: "holds (Hashed n k t) l \<longleftrightarrow> (\<exists>u. u \<noteq> 0 \<and> u \<in> set t \<and> unat u = Suc l)" for k t l
    by (metis holds.simps(2) nat.distinct(1) unat_0)
  have "holds (Hashed n k' t') l \<longleftrightarrow> holds (Hashed n k t) l \<and> l \<noteq> unat i" for l
    unfolding hold using mem index_succ [OF i] by (metis nat.inject word_unat_eq_iff)
  moreover have "unat u \<le> unat n" if "u \<in> set t'" for u
    using 2(1) mem [of u] that by (cases "u = 0") auto
  ultimately show ?case using t'(1,2) big by (simp add: clears_index_def)
next
  case (3 i n k d subs)
  have ok: "vector_ok (Divided n k d subs)" and i: "unat i < unat n" using 3(2,3) by simp_all
  have d: "n_bit < unat n" "unat d = (unat n + 61) div 62" and len: "length subs = n_ptr" using ok by simp_all
  let ?b = "unat i div unat d"
  have bin: "?b < n_ptr" by (rule divisor_bounds(3) [OF d i])
  have d0: "0 < unat d" by (rule divisor_bounds(1) [OF d])
  show ?case
  proof (cases "subs ! ?b")
    case None
    then have "\<not> holds (Divided n k d subs) (unat i)" by (simp add: Let_def)
    then show ?thesis using ok None bin len
      by (auto simp: clears_index_def unat_div_distrib simp del: vector_ok.simps holds.simps)
  next
    case (Some q)
    have "Some q \<in> set subs" using Some bin len by (metis nth_mem)
    then have q: "vector_ok q" "bv_size q = d" using ok by auto
    have "clears_index (unat (i mod d)) q (clear_at (i mod d) q)"
      using 3(1) [OF refl, of q] Some bin len q d0 by (simp add: unat_div_distrib unat_mod_distrib)
    then obtain q' where q': "clear_at (i mod d) q = Done () q'" "vector_ok q'" "bv_size q' = d"
      "\<forall>l < unat d. holds q' l \<longleftrightarrow> holds q l \<and> l \<noteq> unat i mod unat d"
      using q(2) by (auto simp: clears_index_def unat_mod_distrib)
    let ?p' = "Divided n k d (subs[?b := Some q'])"
    note upd = divided_update [OF ok i q'(2,3)]
    have "holds ?p' l \<longleftrightarrow> holds (Divided n k d subs) l \<and> l \<noteq> unat i" if "l < unat n" for l
    proof (cases "l div unat d = ?b")
      case True
      have m: "l mod unat d < unat d" using d0 by simp
      show ?thesis
        using True upd(2) [OF that] upd(3) [OF True] q'(4) [rule_format, OF m] Some bin len by (auto simp: Let_def)
    next
      case False
      then show ?thesis using upd(2) [OF that] by auto
    qed
    then have "clears_index (unat i) (Divided n k d subs) (Done () ?p')"
      using upd(1) by (simp add: clears_index_def del: holds.simps vector_ok.simps)
    then show ?thesis using Some q'(1) bin len by (simp add: unat_div_distrib)
  qed
qed

section \<open>The vector as a set of numbers\<close>

definition contents :: "bitvec \<Rightarrow> nat set" where
  "contents p = {j. 0 < j \<and> j \<le> unat (bv_size p) \<and> holds p (j - 1)}"

lemma in_contents_Suc: "Suc l \<in> contents p \<longleftrightarrow> l < unat (bv_size p) \<and> holds p l"
  by (auto simp: contents_def)

lemma contents_eqI:
  assumes "0 \<notin> S" and "\<And>l. Suc l \<in> contents p \<longleftrightarrow> Suc l \<in> S"
  shows "contents p = S"
proof (rule set_eqI)
  fix j show "j \<in> contents p \<longleftrightarrow> j \<in> S"
    using assms by (cases j) (simp_all add: contents_def)
qed

lemma contents_new: "contents (bitvec_new n) = {}"
  using new_vector_holds [of _ n] by (auto simp: contents_def)

text \<open>An index as the callers count: from one.\<close>

lemma one_based:
  assumes "(i :: u32) \<noteq> 0" and "unat i \<le> unat (bv_size p)"
  shows "unat (i - 1) < unat (bv_size p)" "Suc (unat (i - 1)) = unat i"
proof -
  have "0 < unat i" using assms(1) by (simp add: unat_gt_0)
  then show "unat (i - 1) < unat (bv_size p)" "Suc (unat (i - 1)) = unat i"
    using unat_pred [OF assms(1)] assms(2) by linarith+
qed

lemma size_small: "unat (bv_size p) \<le> n_bit * 62 ^ 4"
  using unat_u32_less [of "bv_size p"] by simp

lemma from_one_result:
  assumes ok: "vector_ok p" and i: "i \<noteq> 0" "unat i \<le> unat (bv_size p)"
  shows "\<exists>rc p' h'. from_one nd (set_at 9 nd grant) i p h = Done rc (p', h') \<and> vector_ok p' \<and>
    bv_size p' = bv_size p \<and> rc \<in> {0, 7} \<and> contents p' \<subseteq> insert (unat i) (contents p) \<and>
    (rc = 0 \<longrightarrow> contents p' = insert (unat i) (contents p)) \<and> ((\<forall>h. fst (grant h)) \<longrightarrow> rc = 0)"
proof -
  have j: "unat (i - 1) < unat (bv_size p)" "Suc (unat (i - 1)) = unat i" by (rule one_based [OF i])+
  have "sets_index grant (unat (i - 1)) p (set_at 9 nd grant (i - 1) p h)"
    by (rule set_at_result [OF ok j(1) size_small]) simp_all
  then obtain rc p' h' where r: "set_at 9 nd grant (i - 1) p h = Done rc (p', h')" "vector_ok p'"
    "bv_size p' = bv_size p" "rc \<in> {0, 7}"
    "\<forall>l < unat (bv_size p). (holds p' l \<longrightarrow> l = unat (i - 1) \<or> holds p l) \<and>
       (rc = 0 \<longrightarrow> l = unat (i - 1) \<or> holds p l \<longrightarrow> holds p' l)"
    "(\<forall>h. fst (grant h)) \<longrightarrow> rc = 0" unfolding sets_index_def by auto
  have c: "(l \<in> contents p' \<longrightarrow> l = unat i \<or> l \<in> contents p) \<and>
      (rc = 0 \<longrightarrow> l = unat i \<or> l \<in> contents p \<longrightarrow> l \<in> contents p')" for l
  proof (cases l)
    case 0
    then show ?thesis using j(2) by (auto simp: contents_def)
  next
    case (Suc m)
    then show ?thesis using r(3,5) j by (auto simp: in_contents_Suc simp flip: j(2))
  qed
  then have "contents p' \<subseteq> insert (unat i) (contents p)" "rc = 0 \<longrightarrow> contents p' = insert (unat i) (contents p)" by blast+
  then show ?thesis using r(1-4,6) from_one_index [OF i, of nd "set_at 9 nd grant" h] by auto
qed

lemma clear_contents:
  assumes ok: "vector_ok p" and i: "i \<noteq> 0" "unat i \<le> unat (bv_size p)"
  shows "\<exists>p'. bitvec_clear nd i (Some p) = Done () (Some p') \<and> vector_ok p' \<and> bv_size p' = bv_size p \<and>
    contents p' = contents p - {unat i}"
proof -
  have j: "unat (i - 1) < unat (bv_size p)" "Suc (unat (i - 1)) = unat i" by (rule one_based [OF i])+
  from clear_at_result [OF ok j(1)] obtain p' where p': "clear_at (i - 1) p = Done () p'" "vector_ok p'"
    "bv_size p' = bv_size p" "\<forall>l < unat (bv_size p). holds p' l \<longleftrightarrow> holds p l \<and> l \<noteq> unat (i - 1)"
    unfolding clears_index_def by auto
  have "contents p' = contents p - {unat i}"
    by (rule contents_eqI) (use p'(3,4) in \<open>auto simp: in_contents_Suc simp flip: j(2)\<close>, simp add: contents_def)
  then show ?thesis using p'(1-3) i(1) by (simp add: bitvec_clear_def word_gt_0)
qed

lemma test_contents:
  assumes "vector_ok p"
  shows "bitvec_test (Some p) i = Done (unat i \<in> contents p) ()"
proof (cases "i \<noteq> 0 \<and> unat i \<le> unat (bv_size p)")
  case True
  then have j: "unat (i - 1) < unat (bv_size p)" "Suc (unat (i - 1)) = unat i" using one_based by blast+
  then show ?thesis
    using test_at_holds [OF assms j(1)] in_contents_Suc [of "unat (i - 1)" p]
    by (simp add: bitvec_test_def bitvec_test_not_null_def word_le_nat_alt)
next
  case False
  have "bv_size p \<le> i - 1"
  proof (cases "i = 0")
    case True
    then show ?thesis by simp
  next
    case nz: False
    then show ?thesis using False unat_pred [OF nz] by (simp add: word_le_nat_alt)
  qed
  moreover have "unat i \<notin> contents p" using False by (auto simp: contents_def)
  ultimately show ?thesis by (simp add: bitvec_test_def bitvec_test_not_null_def)
qed

lemma set_contents:
  assumes ok: "vector_ok p" and i: "i \<noteq> 0" "unat i \<le> unat (bv_size p)"
  shows "\<exists>rc p' h'. bitvec_set nd grant i (Some p) h = Done rc (Some p', h') \<and> vector_ok p' \<and>
    bv_size p' = bv_size p \<and> rc \<in> {0, 7} \<and> contents p' \<subseteq> insert (unat i) (contents p) \<and>
    (rc = 0 \<longrightarrow> contents p' = insert (unat i) (contents p)) \<and> ((\<forall>h. fst (grant h)) \<longrightarrow> rc = 0)"
  using from_one_result [OF assms, of nd grant h] unfolding bitvec_set_def by force

lemma set_contents_granted:
  assumes "vector_ok p" and "i \<noteq> 0" "unat i \<le> unat (bv_size p)" and grants: "\<forall>h. fst (grant h)"
  shows "\<exists>p' h'. bitvec_set nd grant i (Some p) h = Done 0 (Some p', h') \<and> vector_ok p' \<and>
    bv_size p' = bv_size p \<and> contents p' = insert (unat i) (contents p)"
proof -
  from set_contents [OF assms(1-3), of nd grant h] obtain rc p' h'
    where r: "bitvec_set nd grant i (Some p) h = Done rc (Some p', h')" "vector_ok p'" "bv_size p' = bv_size p"
      "rc = 0 \<longrightarrow> contents p' = insert (unat i) (contents p)" "(\<forall>h. fst (grant h)) \<longrightarrow> rc = 0" by blast
  from r(5) grants have "rc = 0" by (rule mp)
  with r show ?thesis by blast
qed

section \<open>Histories\<close>

datatype bv_op = Put u32 | Remove u32 | Ask u32

definition beside :: "'h \<Rightarrow> ('a, 'p) outcome \<Rightarrow> ('a, 'p \<times> 'h) outcome" where
  "beside h out =
     (case out of Done x p \<Rightarrow> Done x (p, h) | Blocked \<Rightarrow> Blocked | Diverges \<Rightarrow> Diverges | Trapped t \<Rightarrow> Trapped t)"

fun bv_run ::
  "bool \<Rightarrow> ('h \<Rightarrow> bool \<times> 'h) \<Rightarrow> bv_op list \<Rightarrow> bitvec option \<times> 'h \<Rightarrow> (bool list, bitvec option \<times> 'h) outcome" where
  "bv_run nd grant [] = Done []"
| "bv_run nd grant (Put i # ops) =
     bind_act (\<lambda>(p, h). bitvec_set nd grant i p h) (\<lambda>_. bv_run nd grant ops)"
| "bv_run nd grant (Remove i # ops) =
     bind_act (\<lambda>(p, h). beside h (bitvec_clear nd i p)) (\<lambda>_. bv_run nd grant ops)"
| "bv_run nd grant (Ask i # ops) =
     bind_act (\<lambda>(p, h). case bitvec_test p i of Done b _ \<Rightarrow> Done b (p, h) | Blocked \<Rightarrow> Blocked
        | Diverges \<Rightarrow> Diverges | Trapped t \<Rightarrow> Trapped t)
      (\<lambda>b. bind_act (bv_run nd grant ops) (\<lambda>bs. Done (b # bs)))"

fun set_run :: "bv_op list \<Rightarrow> nat set \<Rightarrow> bool list \<times> nat set" where
  "set_run [] S = ([], S)"
| "set_run (Put i # ops) S = set_run ops (insert (unat i) S)"
| "set_run (Remove i # ops) S = set_run ops (S - {unat i})"
| "set_run (Ask i # ops) S = (let (bs, S') = set_run ops S in ((unat i \<in> S) # bs, S'))"

text \<open>What the callers have to see to: that indices to set and to clear are in range.\<close>

fun op_in_range :: "nat \<Rightarrow> bv_op \<Rightarrow> bool" where
  "op_in_range n (Put i) \<longleftrightarrow> 0 < unat i \<and> unat i \<le> n"
| "op_in_range n (Remove i) \<longleftrightarrow> 0 < unat i \<and> unat i \<le> n"
| "op_in_range n (Ask i) \<longleftrightarrow> True"

lemma bv_run_spec:
  "vector_ok p \<Longrightarrow> list_all (op_in_range (unat (bv_size p))) ops \<Longrightarrow> (\<forall>h. fst (grant h)) \<Longrightarrow>
   \<exists>p' h'. bv_run nd grant ops (Some p, h) = Done (fst (set_run ops (contents p))) (Some p', h') \<and>
     vector_ok p' \<and> bv_size p' = bv_size p \<and> contents p' = snd (set_run ops (contents p))"
proof (induction ops arbitrary: p h)
  case Nil
  then show ?case by simp
next
  case (Cons x ops)
  show ?case
  proof (cases x)
    case (Put i)
    then have "i \<noteq> 0" "unat i \<le> unat (bv_size p)" using Cons.prems(2) by auto
    from set_contents_granted [OF Cons.prems(1) this Cons.prems(3), of nd h] obtain p1 h1
      where p1: "bitvec_set nd grant i (Some p) h = Done 0 (Some p1, h1)" "vector_ok p1" "bv_size p1 = bv_size p"
        "contents p1 = insert (unat i) (contents p)" by blast
    then show ?thesis using Cons.IH [of p1 h1] Cons.prems(2,3) Put by (simp add: bind_act_def)
  next
    case (Remove i)
    then have "i \<noteq> 0" "unat i \<le> unat (bv_size p)" using Cons.prems(2) by auto
    from clear_contents [OF Cons.prems(1) this, of nd] obtain p1
      where p1: "bitvec_clear nd i (Some p) = Done () (Some p1)" "vector_ok p1" "bv_size p1 = bv_size p"
        "contents p1 = contents p - {unat i}" by blast
    then show ?thesis using Cons.IH [of p1 h] Cons.prems(2,3) Remove by (simp add: bind_act_def beside_def)
  next
    case (Ask i)
    obtain p1 h1 where "bv_run nd grant ops (Some p, h) = Done (fst (set_run ops (contents p))) (Some p1, h1)"
      "vector_ok p1" "bv_size p1 = bv_size p" "contents p1 = snd (set_run ops (contents p))"
      using Cons.IH [of p h] Cons.prems by auto
    then show ?thesis using test_contents [OF Cons.prems(1), of i] Ask
      by (simp add: bind_act_def split: prod.split)
  qed
qed

section \<open>Properties\<close>

text \<open>C37: Through any history of operations within its size a new bit vector that gets the memory it
  asks for behaves as a set of numbers, whatever representation it passes through: every test
  gives the set's answer, and nothing fails, runs for ever or leaves its arrays.\<close>

theorem bitvec_refines_set:
  assumes "list_all (op_in_range (unat n)) ops" and "\<forall>h. fst (grant h)"
  shows "\<exists>p h'. bv_run nd grant ops (Some (bitvec_new n), h) = Done (fst (set_run ops {})) (Some p, h') \<and>
    contents p = snd (set_run ops {})"
  using bv_run_spec [of "bitvec_new n" ops grant nd h] assms by (auto simp: contents_new)

theorem bitvec_refines_set_witness:
  "\<exists>p h'. bv_run False (\<lambda>h. (True, Suc h)) [Put 7, Ask 7, Put 4999, Remove 7, Ask 7, Ask 4999]
     (Some (bitvec_new 5000), 0) = Done [True, False, True] (Some p, h') \<and> contents p = {4999}"
  using bitvec_refines_set [of 5000 "[Put 7, Ask 7, Put 4999, Remove 7, Ask 7, Ask 4999]" "\<lambda>h. (True, Suc h)" False 0]
  by (simp add: insert_Diff_if del: bv_run.simps)

text \<open>When memory is short, setting a number returns normally with 0 or the code for no memory,
  leaves a well-formed vector and never makes another number a member; when it returns 0 the
  number and all earlier ones are members.\<close>

theorem bitvec_set_out_of_memory:
  assumes "vector_ok p" and "0 < unat i" and "unat i \<le> unat (bv_size p)"
  shows "\<exists>rc p' h'. bitvec_set nd grant i (Some p) h = Done rc (Some p', h') \<and> vector_ok p' \<and> rc \<in> {0, 7} \<and>
    contents p' \<subseteq> insert (unat i) (contents p) \<and> (rc = 0 \<longrightarrow> contents p' = insert (unat i) (contents p))"
proof -
  have "i \<noteq> 0" using assms(2) by auto
  from set_contents [OF assms(1) this assms(3), of nd grant h] show ?thesis by blast
qed

theorem bitvec_set_out_of_memory_witness:
  "\<exists>rc p' h'. bitvec_set False (\<lambda>h. (False, h)) 9 (Some (bitvec_new 5000)) () = Done rc (Some p', h') \<and>
     contents p' \<subseteq> {9}"
  using bitvec_set_out_of_memory [of "bitvec_new 5000" 9 False "\<lambda>h. (False, h)" "()"]
  by (auto simp: contents_new)

end
