(* ===== verification/Name_Hash.thy ===== *)
theory Name_Hash
  imports Prelude
begin

text \<open>
  The hash table of the database library, deps/sqlite3/sqlite3.c, which maps names to pointers
  without regard to case. All elements are in one doubly linked list, given here as a list of
  elements with their addresses; a bucket counts its elements and points to the first of them in
  that list. The table starts without buckets. Keys are C strings, given without the final zero;
  data is an address, 0 for the null pointer.
\<close>

section \<open>Names\<close>

definition upper_to_lower :: "u8 \<Rightarrow> u8" where
  "upper_to_lower c = (if 65 \<le> c \<and> c \<le> 90 then c + 32 else c)"

fun str_icmp :: "bytes \<Rightarrow> bytes \<Rightarrow> int" where
  "str_icmp [] [] = 0"
| "str_icmp (a # as) [] = uint (upper_to_lower a) - uint (upper_to_lower 0)"
| "str_icmp [] (b # bs) = uint (upper_to_lower 0) - uint (upper_to_lower b)"
| "str_icmp (a # as) (b # bs) =
     (if a = b then str_icmp as bs
      else (let c = uint (upper_to_lower a) - uint (upper_to_lower b)
            in if c \<noteq> 0 then c else str_icmp as bs))"

definition str_hash :: "bytes \<Rightarrow> u32" where
  "str_hash z = fold (\<lambda>c h. (h + ucast (upper_to_lower c)) * 0x9e3779b1) z 0"

section \<open>State\<close>

record hash_elem =
  addr :: nat
  data_of :: nat
  key_of :: bytes

record bucket =
  b_count :: u32
  chain :: "nat option"

record name_hash =
  htsize :: u32
  h_count :: u32
  elems :: "hash_elem list"
  ht :: "bucket list option"

text \<open>
  What malloc answers: an address for a new element, given those in use, and the usable size of a
  new array of buckets, given the size asked for; none when there is no memory.
\<close>

record hash_memory =
  new_addr :: "nat list \<Rightarrow> nat option"
  table_room :: "nat \<Rightarrow> nat option"

definition hash_init :: name_hash where
  "hash_init = \<lparr>htsize = 0, h_count = 0, elems = [], ht = None\<rparr>"

definition hash_clear :: "name_hash \<Rightarrow> name_hash" where
  "hash_clear H = H\<lparr>elems := [], ht := None, htsize := 0, h_count := 0\<rparr>"

text \<open>The index of the bucket of a key.\<close>

definition slot_of :: "bytes \<Rightarrow> u32 \<Rightarrow> trap + nat" where
  "slot_of k n = (if n = 0 then Inl Div_by_zero else Inr (unat (str_hash k mod n)))"

section \<open>Insertion of an element\<close>

text \<open>A pointer that points to no element of the list is not followed.\<close>

fun put_before :: "nat \<Rightarrow> hash_elem \<Rightarrow> hash_elem list \<Rightarrow> trap + hash_elem list" where
  "put_before a e [] = Inl Null_deref"
| "put_before a e (x # xs) =
     (if addr x = a then Inr (e # x # xs) else and_then (put_before a e xs) (\<lambda>ys. Inr (x # ys)))"

definition insert_element :: "nat option \<Rightarrow> hash_elem \<Rightarrow> name_hash \<Rightarrow> trap + name_hash" where
  "insert_element entry e H =
     (case (entry, ht H) of
        (Some i, Some bs) \<Rightarrow>
          if i < length bs then
            (let b = bs ! i;
                 head = (if b_count b \<noteq> 0 then chain b else None);
                 H1 = H\<lparr>ht := Some (bs[i := \<lparr>b_count = b_count b + 1, chain = Some (addr e)\<rparr>])\<rparr>
             in case head of
                  Some a \<Rightarrow> and_then (put_before a e (elems H)) (\<lambda>xs. Inr (H1\<lparr>elems := xs\<rparr>))
                | None \<Rightarrow> Inr (H1\<lparr>elems := e # elems H\<rparr>))
          else Inl Out_of_range
      | _ \<Rightarrow> Inr (H\<lparr>elems := e # elems H\<rparr>))"

fun rehash_loop :: "hash_elem list \<Rightarrow> name_hash \<Rightarrow> trap + name_hash" where
  "rehash_loop [] H = Inr H"
| "rehash_loop (e # es) H =
     and_then (slot_of (key_of e) (htsize H)) (\<lambda>i.
     and_then (insert_element (Some i) e H) (rehash_loop es))"

text \<open>A bucket takes 16 bytes, and the size of the array is limited to 1024.\<close>

definition rehash :: "hash_memory \<Rightarrow> u32 \<Rightarrow> name_hash \<Rightarrow> trap + bool \<times> name_hash" where
  "rehash M new_size H =
     (let n = (if 1024 < unat new_size * 16 then 1024 div 16 else new_size)
      in if n = htsize H then Inr (False, H)
         else
          (case table_room M (unat n * 16) of
             None \<Rightarrow> Inr (False, H)
           | Some m \<Rightarrow>
              (let n' = of_nat (m div 16)
               in and_then
                   (rehash_loop (elems H)
                     (H\<lparr>ht := Some (replicate (unat n') \<lparr>b_count = 0, chain = None\<rparr>), htsize := n', elems := []\<rparr>))
                   (\<lambda>H'. Inr (True, H')))))"

section \<open>Search and removal\<close>

fun search :: "bool \<Rightarrow> nat \<Rightarrow> hash_elem list \<Rightarrow> bytes \<Rightarrow> trap + hash_elem option" where
  "search nd 0 xs k = Inr None"
| "search nd (Suc n) [] k = Inl (if nd then Null_deref else Assert_failed)"
| "search nd (Suc n) (e # xs) k =
     (if str_icmp (key_of e) k = 0 then Inr (Some e) else search nd n xs k)"

text \<open>The list from the element a pointer points to.\<close>

definition list_from :: "nat option \<Rightarrow> hash_elem list \<Rightarrow> hash_elem list" where
  "list_from p xs = dropWhile (\<lambda>e. Some (addr e) \<noteq> p) xs"

definition find_element :: "bool \<Rightarrow> bytes \<Rightarrow> name_hash \<Rightarrow> trap + hash_elem option \<times> nat" where
  "find_element nd k H =
     (case ht H of
        Some bs \<Rightarrow>
          and_then (slot_of k (htsize H)) (\<lambda>i.
            if i < length bs then
              and_then (search nd (unat (b_count (bs ! i))) (list_from (chain (bs ! i)) (elems H)) k)
                (\<lambda>r. Inr (r, i))
            else Inl Out_of_range)
      | None \<Rightarrow> and_then (search nd (unat (h_count H)) (elems H) k) (\<lambda>r. Inr (r, 0)))"

definition unlink :: "nat \<Rightarrow> hash_elem list \<Rightarrow> hash_elem list" where
  "unlink a xs = takeWhile (\<lambda>e. addr e \<noteq> a) xs @ tl (dropWhile (\<lambda>e. addr e \<noteq> a) xs)"

definition next_of :: "nat \<Rightarrow> hash_elem list \<Rightarrow> nat option" where
  "next_of a xs = (case dropWhile (\<lambda>e. addr e \<noteq> a) xs of e # e' # _ \<Rightarrow> Some (addr e') | _ \<Rightarrow> None)"

definition remove_element :: "bool \<Rightarrow> hash_elem \<Rightarrow> nat \<Rightarrow> name_hash \<Rightarrow> trap + name_hash" where
  "remove_element nd e h H =
     and_then
      (case ht H of
         None \<Rightarrow> Inr (H\<lparr>elems := unlink (addr e) (elems H)\<rparr>)
       | Some bs \<Rightarrow>
          if h < length bs then
            (let b = bs ! h;
                 b1 = (if chain b = Some (addr e) then b\<lparr>chain := next_of (addr e) (elems H)\<rparr> else b)
             in if \<not> asserts nd (0 < b_count b1) then Inl Assert_failed
                else Inr (H\<lparr>elems := unlink (addr e) (elems H), ht := Some (bs[h := b1\<lparr>b_count := b_count b1 - 1\<rparr>])\<rparr>))
          else Inl Out_of_range)
      (\<lambda>H1.
        let H2 = H1\<lparr>h_count := h_count H1 - 1\<rparr>
        in if h_count H2 = 0 then
             (if \<not> asserts nd (elems H2 = []) then Inl Assert_failed else Inr (hash_clear H2))
           else Inr H2)"

section \<open>The interface\<close>

definition data_or_null :: "hash_elem option \<Rightarrow> nat" where
  "data_or_null r = (case r of None \<Rightarrow> 0 | Some e \<Rightarrow> data_of e)"

definition hash_find :: "bool \<Rightarrow> bytes \<Rightarrow> name_hash \<Rightarrow> trap + nat" where
  "hash_find nd k H = and_then (find_element nd k H) (\<lambda>(r, h). Inr (data_or_null r))"

definition replace_data :: "nat \<Rightarrow> bytes \<Rightarrow> nat \<Rightarrow> hash_elem list \<Rightarrow> hash_elem list" where
  "replace_data a k d xs = map (\<lambda>e. if addr e = a then e\<lparr>data_of := d, key_of := k\<rparr> else e) xs"

definition add_element :: "bool \<Rightarrow> hash_memory \<Rightarrow> hash_elem \<Rightarrow> nat \<Rightarrow> name_hash \<Rightarrow> trap + name_hash" where
  "add_element nd M e h H0 =
     (let H = H0\<lparr>h_count := h_count H0 + 1\<rparr>
      in and_then
          (if 10 \<le> h_count H \<and> 2 * htsize H < h_count H then
             and_then (rehash M (h_count H * 2) H) (\<lambda>(resized, H1).
               if resized then
                 (if \<not> asserts nd (0 < htsize H1) then Inl Assert_failed
                  else and_then (slot_of (key_of e) (htsize H1)) (\<lambda>h1. Inr (h1, H1)))
               else Inr (h, H1))
           else Inr (h, H))
          (\<lambda>(h1, H1). insert_element (if ht H1 = None then None else Some h1) e H1))"

definition hash_insert :: "bool \<Rightarrow> hash_memory \<Rightarrow> bytes \<Rightarrow> nat \<Rightarrow> name_hash \<Rightarrow> trap + nat \<times> name_hash" where
  "hash_insert nd M k d H =
     and_then (find_element nd k H) (\<lambda>(r, h).
       case (if data_or_null r \<noteq> 0 then r else None) of
         Some e \<Rightarrow>
           if d = 0 then and_then (remove_element nd e h H) (\<lambda>H'. Inr (data_of e, H'))
           else Inr (data_of e, H\<lparr>elems := replace_data (addr e) k d (elems H)\<rparr>)
       | None \<Rightarrow>
           if d = 0 then Inr (0, H)
           else
            (case new_addr M (map addr (elems H)) of
               None \<Rightarrow> Inr (d, H)
             | Some a \<Rightarrow>
                and_then (add_element nd M \<lparr>addr = a, data_of = d, key_of = k\<rparr> h H) (\<lambda>H'. Inr (0, H'))))"

end
