(* ===== verification/Name_Hash_Spec.thy ===== *)
theory Name_Hash_Spec
  imports Name_Hash "HOL-Library.Multiset"
begin

text \<open>
  The hash table as a map from names without case to data. The elements of a bucket stand together
  in the list of all elements: the list is the concatenation of segments, one for each bucket that
  is not empty, and an operation changes one segment.
\<close>

section \<open>Names\<close>

definition fold_key :: "bytes \<Rightarrow> bytes" where
  "fold_key k = map upper_to_lower k"

lemma upper_to_lower_zero: "upper_to_lower c = upper_to_lower 0 \<longleftrightarrow> c = 0"
proof -
  have "c = 224" if "c + 32 = (0 :: u8)"
  proof -
    have "c = - 32" using that by (simp add: eq_neg_iff_add_eq_0)
    then show ?thesis by simp
  qed
  then show ?thesis by (auto simp: upper_to_lower_def)
qed

lemma str_icmp_zero:
  "0 \<notin> set as \<Longrightarrow> 0 \<notin> set bs \<Longrightarrow> str_icmp as bs = 0 \<longleftrightarrow> fold_key as = fold_key bs"
proof (induction as bs rule: str_icmp.induct)
  case (2 a as)
  then show ?case using upper_to_lower_zero [of a] by (auto simp: fold_key_def dest: word_uint_eqI)
next
  case (3 b bs)
  then show ?case using upper_to_lower_zero [of b] by (auto simp: fold_key_def dest: word_uint_eqI)
next
  case (4 a as b bs)
  then show ?case by (auto simp: fold_key_def Let_def dest: word_uint_eqI)
qed (simp add: fold_key_def)

lemma str_hash_fold_key: "fold_key a = fold_key b \<Longrightarrow> str_hash a = str_hash b"
proof -
  have "str_hash z = fold (\<lambda>c h. (h + ucast c) * 0x9e3779b1) (fold_key z) 0" for z
    by (simp add: str_hash_def fold_key_def fold_map comp_def)
  then show "fold_key a = fold_key b \<Longrightarrow> str_hash a = str_hash b" by simp
qed

section \<open>Segments\<close>

definition home :: "u32 \<Rightarrow> bytes \<Rightarrow> nat" where
  "home n k = unat (str_hash k mod n)"

lemma home_less: "n \<noteq> 0 \<Longrightarrow> home n k < unat n"
  by (simp add: home_def unat_mod_distrib unat_gt_0)

lemma slot_of_home [simp]: "n \<noteq> 0 \<Longrightarrow> slot_of k n = Inr (home n k)"
  by (simp add: slot_of_def home_def)

definition segment_ok :: "u32 \<Rightarrow> bucket list \<Rightarrow> nat \<times> hash_elem list \<Rightarrow> bool" where
  "segment_ok n bs = (\<lambda>(h, s). s \<noteq> [] \<and> h < unat n \<and> (\<forall>e \<in> set s. home n (key_of e) = h) \<and>
     unat (b_count (bs ! h)) = length s \<and> chain (bs ! h) = Some (addr (hd s)))"

definition segments :: "u32 \<Rightarrow> bucket list \<Rightarrow> hash_elem list \<Rightarrow> (nat \<times> hash_elem list) list \<Rightarrow> bool" where
  "segments n bs xs segs \<longleftrightarrow> n \<noteq> 0 \<and> length bs = unat n \<and> xs = concat (map snd segs) \<and> distinct (map fst segs) \<and>
     (\<forall>s \<in> set segs. segment_ok n bs s) \<and> (\<forall>h < unat n. h \<notin> fst ` set segs \<longrightarrow> b_count (bs ! h) = 0)"

text \<open>One bucket and its segment change, and nothing else.\<close>

lemma segment_ok_other: "fst s \<noteq> h \<Longrightarrow> segment_ok n (bs[h := b]) s \<longleftrightarrow> segment_ok n bs s"
  by (cases s) (simp add: segment_ok_def)

lemma segments_change:
  assumes "segments n bs xs (A @ (h, s) # B)"
    and "segment_ok n (bs[h := b]) (h, s')"
  shows "segments n (bs[h := b]) (concat (map snd A) @ s' @ concat (map snd B)) (A @ (h, s') # B)"
proof -
  have "fst t \<noteq> h" if "t \<in> set A \<union> set B" for t using assms(1) that by (force simp: segments_def)
  then show ?thesis
    using assms by (auto simp: segments_def segment_ok_other)
qed

lemma segments_drop:
  assumes "segments n bs xs (A @ (h, s) # B)" and "b_count b = 0"
  shows "segments n (bs[h := b]) (concat (map snd A) @ concat (map snd B)) (A @ B)"
proof -
  have "fst t \<noteq> h" if "t \<in> set A \<union> set B" for t using assms(1) that by (force simp: segments_def)
  moreover have "b_count (bs[h := b] ! g) = 0" if "g < unat n" "g \<notin> fst ` set (A @ B)" for g
    using assms that by (cases "g = h") (auto simp: segments_def)
  ultimately show ?thesis using assms(1) by (auto simp: segments_def segment_ok_other)
qed

lemma segments_new:
  assumes "segments n bs xs segs" and "h \<notin> fst ` set segs" and "segment_ok n (bs[h := b]) (h, s)"
  shows "segments n (bs[h := b]) (s @ xs) ((h, s) # segs)"
proof -
  have "fst t \<noteq> h" if "t \<in> set segs" for t using assms(2) that by force
  then show ?thesis using assms by (auto simp: segments_def segment_ok_other)
qed

section \<open>Lists with distinct addresses\<close>

lemma drop_to: "addr x \<notin> addr ` set xs \<Longrightarrow> dropWhile (\<lambda>e. addr e \<noteq> addr x) (xs @ x # ys) = x # ys"
  by (induction xs) auto

lemma take_to: "addr x \<notin> addr ` set xs \<Longrightarrow> takeWhile (\<lambda>e. addr e \<noteq> addr x) (xs @ x # ys) = xs"
  by (induction xs) auto

lemma put_before_at: "addr x \<notin> addr ` set xs \<Longrightarrow> put_before (addr x) e (xs @ x # ys) = Inr (xs @ e # x # ys)"
  by (induction xs) auto

lemma list_from_at: "addr x \<notin> addr ` set xs \<Longrightarrow> list_from (Some (addr x)) (xs @ x # ys) = x # ys"
  using drop_to [of x xs ys] by (simp add: list_from_def)

lemma unlink_at: "addr x \<notin> addr ` set xs \<Longrightarrow> unlink (addr x) (xs @ x # ys) = xs @ ys"
  by (simp add: unlink_def drop_to take_to)

lemma next_of_at: "addr x \<notin> addr ` set xs \<Longrightarrow>
    next_of (addr x) (xs @ x # ys) = (case ys of [] \<Rightarrow> None | y # _ \<Rightarrow> Some (addr y))"
  by (simp add: next_of_def drop_to split: list.split)

lemma search_found: "length s = m \<Longrightarrow>
    \<exists>r. search nd m (s @ ys) k = Inr r \<and>
      (case r of None \<Rightarrow> \<forall>e \<in> set s. str_icmp (key_of e) k \<noteq> 0
       | Some e \<Rightarrow> e \<in> set s \<and> str_icmp (key_of e) k = 0)"
proof (induction s arbitrary: m)
  case (Cons e s)
  then obtain m' where m: "m = Suc m'" "length s = m'" by (cases m) auto
  from Cons.IH [OF m(2)] show ?case
    using m(1) by (auto split: option.splits)
qed simp

section \<open>Tables with buckets\<close>

definition grouped :: "name_hash \<Rightarrow> bool" where
  "grouped H \<longleftrightarrow> (\<exists>bs segs. ht H = Some bs \<and> segments (htsize H) bs (elems H) segs) \<and>
     distinct (map addr (elems H))"

lemma distinct_addr_split:
  "distinct (map addr (xs @ x # ys)) \<Longrightarrow> addr x \<notin> addr ` set xs \<and> addr x \<notin> addr ` set ys"
  by auto

lemma grouped_split:
  assumes "segments n bs xs segs" and "(h, s) \<in> set segs"
  obtains A B where "segs = A @ (h, s) # B" and "xs = concat (map snd A) @ s @ concat (map snd B)"
proof -
  obtain A B where "segs = A @ (h, s) # B" using assms(2) by (auto dest: split_list)
  then show ?thesis using that assms(1) by (simp add: segments_def)
qed

lemma element_segment:
  assumes "segments n bs xs segs" and "e \<in> set xs"
  shows "\<exists>s. (home n (key_of e), s) \<in> set segs \<and> e \<in> set s"
proof -
  obtain t where t: "t \<in> set segs" "e \<in> set (snd t)" using assms by (auto simp: segments_def)
  then have "segment_ok n bs t" using assms(1) by (simp add: segments_def)
  then have "fst t = home n (key_of e)" using t(2) by (auto simp: segment_ok_def split: prod.splits)
  then show ?thesis using t by (metis prod.collapse)
qed

lemma mset_distinct_addr: "mset xs = mset ys \<Longrightarrow> distinct (map addr xs) \<longleftrightarrow> distinct (map addr ys)"
  by (metis mset_eq_imp_distinct_iff mset_map)

lemma insert_element_grouped:
  assumes "grouped H" and new: "addr e \<notin> addr ` set (elems H)" and room: "length (elems H) < 2 ^ 32 - 1"
  shows "\<exists>H'. insert_element (Some (home (htsize H) (key_of e))) e H = Inr H' \<and> grouped H' \<and>
    htsize H' = htsize H \<and> h_count H' = h_count H \<and> mset (elems H') = add_mset e (mset (elems H))"
proof -
  obtain bs segs where bs: "ht H = Some bs" and seg: "segments (htsize H) bs (elems H) segs"
    and dist: "distinct (map addr (elems H))" using assms(1) by (auto simp: grouped_def)
  let ?n = "htsize H" and ?h = "home (htsize H) (key_of e)"
  let ?b = "\<lparr>b_count = b_count (bs ! ?h) + 1, chain = Some (addr e)\<rparr>"
  have h: "?h < length bs" "?h < unat ?n" using seg by (auto simp: segments_def home_less)
  show ?thesis
  proof (cases "?h \<in> fst ` set segs")
    case True
    then obtain s where s: "(?h, s) \<in> set segs" by force
    from grouped_split [OF seg s] obtain A B where segs: "segs = A @ (?h, s) # B"
      and xs: "elems H = concat (map snd A) @ s @ concat (map snd B)" .
    have ok: "segment_ok ?n bs (?h, s)" using seg s by (auto simp: segments_def)
    then obtain x s' where x: "s = x # s'" by (cases s) (auto simp: segment_ok_def)
    have count: "unat (b_count (bs ! ?h)) = length s" using ok by (simp add: segment_ok_def)
    have "length s < 2 ^ 32 - 1" using room xs by simp
    then have more: "unat (b_count (bs ! ?h) + 1) = Suc (length s)" using count by (simp add: unat_word_ariths)
    have nz: "b_count (bs ! ?h) \<noteq> 0" using count x by auto
    have "addr x \<notin> addr ` set (concat (map snd A))" using dist unfolding xs x by auto
    from put_before_at [OF this, of e "s' @ concat (map snd B)"]
    have put: "put_before (addr x) e (elems H) = Inr (concat (map snd A) @ (e # s) @ concat (map snd B))"
      unfolding xs x by simp
    have "segment_ok ?n (bs[?h := ?b]) (?h, e # s)" using ok h more by (simp add: segment_ok_def)
    from segments_change [OF seg [unfolded segs] this]
    have "segments ?n (bs[?h := ?b]) (concat (map snd A) @ (e # s) @ concat (map snd B)) (A @ (?h, e # s) # B)" .
    moreover have "insert_element (Some ?h) e H =
        Inr (H\<lparr>ht := Some (bs[?h := ?b]), elems := concat (map snd A) @ (e # s) @ concat (map snd B)\<rparr>)"
      using bs h(1) nz ok put x by (simp add: insert_element_def Let_def segment_ok_def)
    moreover have "distinct (map addr (concat (map snd A) @ (e # s) @ concat (map snd B)))"
    proof (rule mset_distinct_addr [THEN iffD2])
      show "mset (concat (map snd A) @ (e # s) @ concat (map snd B)) = mset (e # elems H)" by (simp add: xs)
      show "distinct (map addr (e # elems H))" using new dist by simp
    qed
    ultimately show ?thesis unfolding grouped_def using xs by auto
  next
    case False
    then have zero: "b_count (bs ! ?h) = 0" using seg h(2) by (simp add: segments_def)
    then have "segment_ok ?n (bs[?h := ?b]) (?h, [e])" using h by (simp add: segment_ok_def)
    from segments_new [OF seg False this]
    have "segments ?n (bs[?h := ?b]) (e # elems H) ((?h, [e]) # segs)" by simp
    moreover have "insert_element (Some ?h) e H = Inr (H\<lparr>ht := Some (bs[?h := ?b]), elems := e # elems H\<rparr>)"
      using bs h(1) zero by (simp add: insert_element_def)
    ultimately show ?thesis unfolding grouped_def using new dist by auto
  qed
qed

lemma rehash_loop_grouped:
  assumes "grouped H" and "distinct (map addr es)" and "addr ` set es \<inter> addr ` set (elems H) = {}"
    and "length es + length (elems H) < 2 ^ 32"
  shows "\<exists>H'. rehash_loop es H = Inr H' \<and> grouped H' \<and> htsize H' = htsize H \<and> h_count H' = h_count H \<and>
    mset (elems H') = mset es + mset (elems H)"
  using assms
proof (induction es arbitrary: H)
  case (Cons e es)
  have n: "htsize H \<noteq> 0" using Cons.prems(1) by (auto simp: grouped_def segments_def)
  obtain H1 where H1: "insert_element (Some (home (htsize H) (key_of e))) e H = Inr H1" "grouped H1"
    "htsize H1 = htsize H" "h_count H1 = h_count H" "mset (elems H1) = add_mset e (mset (elems H))"
    using insert_element_grouped [OF Cons.prems(1), of e] Cons.prems(3,4) by auto
  have "set (elems H1) = insert e (set (elems H))" using H1(5) by (metis set_mset_add_mset_insert set_mset_mset)
  moreover have "length (elems H1) = Suc (length (elems H))" using H1(5) by (metis size_add_mset size_mset)
  ultimately obtain H' where "rehash_loop es H1 = Inr H'" "grouped H'" "htsize H' = htsize H1" "h_count H' = h_count H1"
    "mset (elems H') = mset es + mset (elems H1)"
    using Cons.IH [OF H1(2)] Cons.prems(2-4) by auto
  then show ?case using H1 n by simp
qed simp

text \<open>What malloc promises: an address that is not in use, and at least the size asked for, less
  than the largest int.\<close>

definition memory_ok :: "hash_memory \<Rightarrow> bool" where
  "memory_ok M \<longleftrightarrow> (\<forall>used a. new_addr M used = Some a \<longrightarrow> a \<notin> set used) \<and>
     (\<forall>n m. table_room M n = Some m \<longrightarrow> n \<le> m \<and> m < 2 ^ 31)"

lemma rehash_result:
  assumes M: "memory_ok M" and dist: "distinct (map addr (elems H))" and small: "length (elems H) < 2 ^ 32"
    and n: "new_size \<noteq> 0"
  shows "\<exists>b H'. rehash M new_size H = Inr (b, H') \<and> (if b then grouped H' \<and> mset (elems H') = mset (elems H) \<and>
    h_count H' = h_count H else H' = H)"
proof -
  define m where "m = (if 1024 < unat new_size * 16 then 1024 div 16 else new_size)"
  note body = rehash_def [of M new_size H, folded m_def, unfolded Let_def]
  have "0 < unat new_size" using n by (simp add: unat_gt_0)
  then have m: "0 < unat m" by (simp add: m_def)
  show ?thesis
  proof (cases "m = htsize H \<or> table_room M (unat m * 16) = None")
    case True
    then have "rehash M new_size H = Inr (False, H)" by (elim disjE) (simp_all only: body if_True simp_thms option.case if_cancel)
    then show ?thesis by (intro exI [of _ False] exI [of _ H]) simp
  next
    case False
    then obtain r where r: "table_room M (unat m * 16) = Some r" by auto
    then have bounds: "unat m * 16 \<le> r" "r < 2 ^ 31" using M by (auto simp: memory_ok_def)
    let ?n = "of_nat (r div 16) :: u32"
    have "r div 16 < 2 ^ 32" by (rule le_less_trans [OF div_le_dividend less_trans [OF bounds(2)]]) simp
    then have un: "unat ?n = r div 16" by (simp add: unat_of_nat take_bit_nat_eq_self)
    have "16 \<le> r" using bounds(1) m by linarith
    then have "0 < unat ?n" using un by (simp add: div_greater_zero_iff)
    then have n0: "?n \<noteq> 0" by auto
    let ?H0 = "H\<lparr>ht := Some (replicate (unat ?n) \<lparr>b_count = 0, chain = None\<rparr>), htsize := ?n, elems := []\<rparr>"
    have "segments ?n (replicate (unat ?n) \<lparr>b_count = 0, chain = None\<rparr>) [] []"
      using n0 by (simp add: segments_def)
    then have "grouped ?H0" by (auto simp: grouped_def)
    from rehash_loop_grouped [OF this dist] obtain H' where "rehash_loop (elems H) ?H0 = Inr H'" "grouped H'"
      "h_count H' = h_count H" "mset (elems H') = mset (elems H)" using small by auto
    then show ?thesis using False r by (intro exI [of _ True] exI [of _ H']) (simp add: body)
  qed
qed

section \<open>Search and removal in a table\<close>

text \<open>A table is in one of two shapes: with no buckets, or grouped.\<close>

definition table_shape :: "name_hash \<Rightarrow> bool" where
  "table_shape H \<longleftrightarrow> unat (h_count H) = length (elems H) \<and> distinct (map addr (elems H)) \<and>
     (\<forall>e \<in> set (elems H). 0 \<notin> set (key_of e)) \<and> (if ht H = None then htsize H = 0 else grouped H)"

definition slot_for :: "name_hash \<Rightarrow> bytes \<Rightarrow> nat" where
  "slot_for H k = (if ht H = None then 0 else home (htsize H) k)"

lemma find_element_result:
  assumes shape: "table_shape H" and k: "0 \<notin> set k"
  shows "\<exists>r. find_element nd k H = Inr (r, slot_for H k) \<and>
    (case r of None \<Rightarrow> \<forall>e \<in> set (elems H). fold_key (key_of e) \<noteq> fold_key k
     | Some e \<Rightarrow> e \<in> set (elems H) \<and> fold_key (key_of e) = fold_key k)"
proof -
  have cmp: "str_icmp (key_of e) k = 0 \<longleftrightarrow> fold_key (key_of e) = fold_key k" if "e \<in> set (elems H)" for e
    using str_icmp_zero [of "key_of e" k] shape that k by (simp add: table_shape_def)
  show ?thesis
  proof (cases "ht H")
    case None
    have "length (elems H) = unat (h_count H)" using shape by (simp add: table_shape_def)
    from search_found [OF this, of nd "[]" k] None show ?thesis
      using cmp by (auto simp: find_element_def slot_for_def split: option.splits)
  next
    case (Some bs)
    then have g: "grouped H" using shape by (simp add: table_shape_def)
    then obtain segs where seg: "segments (htsize H) bs (elems H) segs" and dist: "distinct (map addr (elems H))"
      using Some by (auto simp: grouped_def)
    let ?h = "home (htsize H) k"
    have n: "htsize H \<noteq> 0" and h: "?h < length bs" "?h < unat (htsize H)" using seg by (auto simp: segments_def home_less)
    have in_seg: "e \<in> set s" if e: "e \<in> set (elems H)" "fold_key (key_of e) = fold_key k" "(?h, s) \<in> set segs" for e s
    proof -
      obtain t where t: "(home (htsize H) (key_of e), t) \<in> set segs" "e \<in> set t"
        using element_segment [OF seg e(1)] by blast
      moreover have "home (htsize H) (key_of e) = ?h" using str_hash_fold_key [OF e(2)] by (simp add: home_def)
      ultimately have "t = s" using e(3) seg by (auto simp: segments_def dest: eq_key_imp_eq_value)
      then show ?thesis using t(2) by simp
    qed
    show ?thesis
    proof (cases "?h \<in> fst ` set segs")
      case True
      then obtain s where s: "(?h, s) \<in> set segs" by force
      from grouped_split [OF seg s] obtain A B where segs: "segs = A @ (?h, s) # B"
        and xs: "elems H = concat (map snd A) @ s @ concat (map snd B)" .
      have ok: "segment_ok (htsize H) bs (?h, s)" using seg s by (auto simp: segments_def)
      then obtain x s' where x: "s = x # s'" by (cases s) (auto simp: segment_ok_def)
      have "addr x \<notin> addr ` set (concat (map snd A))" using dist unfolding xs x by auto
      from list_from_at [OF this, of "s' @ concat (map snd B)"]
      have "list_from (chain (bs ! ?h)) (elems H) = s @ concat (map snd B)"
        using ok x unfolding xs by (simp add: segment_ok_def)
      moreover have "length s = unat (b_count (bs ! ?h))" using ok by (simp add: segment_ok_def)
      from search_found [OF this, of nd "concat (map snd B)" k]
      obtain r where r: "search nd (unat (b_count (bs ! ?h))) (s @ concat (map snd B)) k = Inr r"
        "case r of None \<Rightarrow> \<forall>e \<in> set s. str_icmp (key_of e) k \<noteq> 0 | Some e \<Rightarrow> e \<in> set s \<and> str_icmp (key_of e) k = 0" by blast
      moreover have "set s \<subseteq> set (elems H)" unfolding xs by auto
      ultimately show ?thesis
        using Some n h cmp in_seg [OF _ _ s]
        by (auto simp: find_element_def slot_for_def split: option.splits)
    next
      case False
      then have "b_count (bs ! ?h) = 0" using seg h(2) by (simp add: segments_def)
      moreover have "fold_key (key_of e) \<noteq> fold_key k" if "e \<in> set (elems H)" for e
      proof
        assume eq: "fold_key (key_of e) = fold_key k"
        have "home (htsize H) (key_of e) = ?h" using str_hash_fold_key [OF eq] by (simp add: home_def)
        then show False using element_segment [OF seg that] False by force
      qed
      ultimately show ?thesis using Some n h by (simp add: find_element_def slot_for_def)
    qed
  qed
qed

lemma remove_grouped:
  assumes g: "grouped H" and bs: "ht H = Some bs" and e: "e \<in> set (elems H)"
  defines "h \<equiv> home (htsize H) (key_of e)"
  defines "b1 \<equiv> if chain (bs ! h) = Some (addr e) then (bs ! h)\<lparr>chain := next_of (addr e) (elems H)\<rparr> else bs ! h"
  shows "h < length bs \<and> b_count b1 \<noteq> 0 \<and> mset (unlink (addr e) (elems H)) = mset (elems H) - {#e#} \<and>
    grouped (H\<lparr>elems := unlink (addr e) (elems H), ht := Some (bs[h := b1\<lparr>b_count := b_count b1 - 1\<rparr>])\<rparr>)"
proof -
  obtain segs where seg: "segments (htsize H) bs (elems H) segs" and dist: "distinct (map addr (elems H))"
    using g bs by (auto simp: grouped_def)
  obtain s where s: "(h, s) \<in> set segs" "e \<in> set s" using element_segment [OF seg e] by (auto simp: h_def)
  from grouped_split [OF seg s(1)] obtain A B where segs: "segs = A @ (h, s) # B"
    and xs: "elems H = concat (map snd A) @ s @ concat (map snd B)" .
  obtain s1 s2 where split: "s = s1 @ e # s2" using s(2) by (auto dest: split_list)
  let ?pre = "concat (map snd A) @ s1" and ?post = "s2 @ concat (map snd B)"
  have els: "elems H = ?pre @ e # ?post" by (simp add: xs split)
  have new: "addr e \<notin> addr ` set ?pre" using distinct_addr_split [of ?pre e ?post] dist els by simp
  have ok: "segment_ok (htsize H) bs (h, s)" using seg s(1) by (auto simp: segments_def)
  have h: "h < length bs" using seg by (auto simp: segments_def h_def home_less)
  have cnt: "b_count b1 = b_count (bs ! h)" by (simp add: b1_def)
  have len: "unat (b_count (bs ! h)) = length s" using ok by (simp add: segment_ok_def)
  then have nz: "b_count b1 \<noteq> 0" using cnt split by auto
  let ?b = "b1\<lparr>b_count := b_count b1 - 1\<rparr>"
  have left: "unat (b_count ?b) = length (s1 @ s2)" using unat_minus_one [OF nz] cnt len split by simp
  have un: "unlink (addr e) (elems H) = concat (map snd A) @ (s1 @ s2) @ concat (map snd B)"
    unfolding els unlink_at [OF new] by simp
  have "\<exists>segs'. segments (htsize H) (bs[h := ?b]) (unlink (addr e) (elems H)) segs'"
  proof (cases "s1 @ s2 = []")
    case True
    then have "b_count ?b = 0" using left by (simp add: unat_eq_0)
    from segments_drop [where b = ?b, OF seg [unfolded segs] this] show ?thesis using un True by auto
  next
    case False
    have "chain ?b = Some (addr (hd (s1 @ s2)))"
    proof (cases s1)
      case Nil
      then have "chain (bs ! h) = Some (addr e)" using ok split by (simp add: segment_ok_def)
      moreover have "next_of (addr e) (elems H) = Some (addr (hd s2))"
        unfolding els next_of_at [OF new] using False Nil by (cases s2) simp_all
      ultimately show ?thesis using Nil by (simp add: b1_def)
    next
      case (Cons x xs')
      then have "chain (bs ! h) = Some (addr x)" "addr x \<noteq> addr e"
        using ok split new by (auto simp: segment_ok_def)
      then show ?thesis using Cons by (simp add: b1_def)
    qed
    then have "segment_ok (htsize H) (bs[h := ?b]) (h, s1 @ s2)"
      using ok h left False split by (auto simp: segment_ok_def)
    from segments_change [OF seg [unfolded segs] this] show ?thesis using un by metis
  qed
  moreover have "distinct (map addr (unlink (addr e) (elems H)))" using dist unfolding un by (auto simp: xs split)
  moreover have "mset (unlink (addr e) (elems H)) = mset (elems H) - {#e#}" unfolding un by (simp add: xs split)
  ultimately show ?thesis using h nz by (auto simp: grouped_def)
qed

lemma remove_element_result:
  assumes shape: "table_shape H" and e: "e \<in> set (elems H)"
  shows "\<exists>H'. remove_element nd e (slot_for H (key_of e)) H = Inr H' \<and> table_shape H' \<and>
    mset (elems H') = mset (elems H) - {#e#}"
proof -
  let ?h = "slot_for H (key_of e)" and ?xs = "unlink (addr e) (elems H)"
  have dist: "distinct (map addr (elems H))" and count: "unat (h_count H) = length (elems H)"
    using shape by (simp_all add: table_shape_def)
  define out where "out = (case ht H of
       None \<Rightarrow> Inr (H\<lparr>elems := ?xs\<rparr>)
     | Some bs \<Rightarrow>
        if ?h < length bs then
          (let b = bs ! ?h;
               b1 = (if chain b = Some (addr e) then b\<lparr>chain := next_of (addr e) (elems H)\<rparr> else b)
           in if \<not> asserts nd (0 < b_count b1) then Inl Assert_failed
              else Inr (H\<lparr>elems := ?xs, ht := Some (bs[?h := b1\<lparr>b_count := b_count b1 - 1\<rparr>])\<rparr>))
        else Inl Out_of_range)"
  have "\<exists>H1. out = Inr H1 \<and> elems H1 = ?xs \<and> h_count H1 = h_count H \<and> htsize H1 = htsize H \<and>
      mset ?xs = mset (elems H) - {#e#} \<and> (if ht H1 = None then ht H = None else ht H \<noteq> None \<and> grouped H1)"
  proof (cases "ht H")
    case None
    obtain xs ys where split: "elems H = xs @ e # ys" using e by (auto dest: split_list)
    have "addr e \<notin> addr ` set xs" using distinct_addr_split [of xs e ys] dist split by simp
    then have "?xs = xs @ ys" unfolding split by (rule unlink_at)
    then show ?thesis using None split by (simp add: out_def)
  next
    case (Some bs)
    have g: "grouped H" using shape Some by (simp add: table_shape_def)
    from remove_grouped [OF g Some e] show ?thesis
      using Some by (auto simp: out_def slot_for_def Let_def word_gt_0)
  qed
  then obtain H1 where H1: "out = Inr H1" "elems H1 = ?xs" "h_count H1 = h_count H" "htsize H1 = htsize H"
    "mset ?xs = mset (elems H) - {#e#}" "if ht H1 = None then ht H = None else ht H \<noteq> None \<and> grouped H1" by blast
  let ?H2 = "H1\<lparr>h_count := h_count H1 - 1\<rparr>"
  have nz: "h_count H \<noteq> 0" using count e by auto
  have len: "length ?xs = length (elems H) - 1"
    using H1(5) e by (metis size_Diff_singleton size_mset set_mset_mset)
  have c2: "unat (h_count ?H2) = length ?xs" using unat_minus_one [OF nz] count len H1(3) by simp
  have sub: "set ?xs \<subseteq> set (elems H)" using H1(5) by (metis in_diffD set_mset_mset subsetI)
  have d2: "distinct (map addr ?xs)"
    using mset_distinct_addr [of "elems H" "e # ?xs"] H1(5) e dist by simp
  have run: "remove_element nd e ?h H = (if h_count ?H2 = 0 then
      (if \<not> asserts nd (elems ?H2 = []) then Inl Assert_failed else Inr (hash_clear ?H2)) else Inr ?H2)"
    using H1(1) by (simp add: remove_element_def Let_def flip: out_def)
  show ?thesis
  proof (cases "h_count ?H2 = 0")
    case True
    then have "?xs = []" using c2 by simp
    then show ?thesis using run True H1(2,5) by (simp add: table_shape_def hash_clear_def)
  next
    case False
    have "grouped ?H2" if "ht H1 \<noteq> None" using that H1(6) by (auto simp: grouped_def split: if_splits)
    then have "table_shape ?H2"
      using c2 d2 sub shape H1(2,4,6) by (auto simp: table_shape_def split: if_splits)
    then show ?thesis using run False H1(2,5) by simp
  qed
qed

section \<open>Insertion and replacement in a table\<close>

lemma insert_element_result:
  assumes "distinct (map addr (elems H))" and "if ht H = None then htsize H = 0 else grouped H"
    and keys: "\<forall>x \<in> set (elems H). 0 \<notin> set (key_of x)" "0 \<notin> set (key_of e)"
    and new: "addr e \<notin> addr ` set (elems H)" and small: "length (elems H) < 2 ^ 30"
    and count: "unat (h_count H) = Suc (length (elems H))"
  shows "\<exists>H'. insert_element (if ht H = None then None else Some (home (htsize H) (key_of e))) e H = Inr H' \<and>
    table_shape H' \<and> mset (elems H') = add_mset e (mset (elems H))"
proof (cases "ht H")
  case None
  then show ?thesis using assms by (simp add: insert_element_def table_shape_def)
next
  case (Some bs)
  then have g: "grouped H" using assms(2) by simp
  from insert_element_grouped [OF g new] small obtain H'
    where H': "insert_element (Some (home (htsize H) (key_of e))) e H = Inr H'" "grouped H'" "h_count H' = h_count H"
      "mset (elems H') = add_mset e (mset (elems H))" by auto
  have "set (elems H') = insert e (set (elems H))" using H'(4) by (metis set_mset_add_mset_insert set_mset_mset)
  moreover have "length (elems H') = Suc (length (elems H))" using H'(4) by (metis size_add_mset size_mset)
  moreover have "ht H' \<noteq> None" "distinct (map addr (elems H'))" using H'(2) by (auto simp: grouped_def)
  ultimately have "table_shape H'" using H'(2,3) keys count by (auto simp: table_shape_def)
  then show ?thesis using H' Some by simp
qed

lemma add_element_result:
  assumes shape: "table_shape H" and M: "memory_ok M" and key: "0 \<notin> set (key_of e)"
    and new: "addr e \<notin> addr ` set (elems H)" and small: "length (elems H) < 2 ^ 30"
  shows "\<exists>H'. add_element nd M e (slot_for H (key_of e)) H = Inr H' \<and> table_shape H' \<and>
    mset (elems H') = add_mset e (mset (elems H))"
proof -
  let ?H = "H\<lparr>h_count := h_count H + 1\<rparr>"
  have count: "unat (h_count ?H) = Suc (length (elems H))"
    using shape small by (simp add: table_shape_def unat_word_ariths)
  have dist: "distinct (map addr (elems H))" and keys: "\<forall>x \<in> set (elems H). 0 \<notin> set (key_of x)"
    and form: "if ht ?H = None then htsize ?H = 0 else grouped ?H"
    using shape by (auto simp: table_shape_def grouped_def)
  have stay: "\<exists>H'. insert_element (if ht ?H = None then None else Some (slot_for H (key_of e))) e ?H = Inr H' \<and>
      table_shape H' \<and> mset (elems H') = add_mset e (mset (elems H))"
    using insert_element_result [of ?H e] dist keys form count key new small
    by (cases "ht H") (simp_all add: slot_for_def)
  show ?thesis
  proof (cases "10 \<le> h_count ?H \<and> 2 * htsize ?H < h_count ?H")
    case False
    show ?thesis unfolding add_element_def Let_def if_not_P [OF False] and_then_simps prod.case by (rule stay)
  next
    case True
    have "unat (c * 2) = unat c * 2" if "unat c < 2 ^ 31" for c :: u32
      using that by (simp add: unat_word_ariths)
    from this [of "h_count ?H"] have "unat (h_count ?H * 2) = Suc (length (elems H)) * 2"
      using count small by (simp del: mult_Suc name_hash.simps)
    then have "h_count ?H * 2 \<noteq> 0" by auto
    moreover have "length (elems ?H) < 2 ^ 32" using small by simp
    ultimately obtain b H1 where H1: "rehash M (h_count ?H * 2) ?H = Inr (b, H1)"
      "if b then grouped H1 \<and> mset (elems H1) = mset (elems ?H) \<and> h_count H1 = h_count ?H else H1 = ?H"
      using rehash_result [OF M, of ?H "h_count ?H * 2"] dist by auto
    show ?thesis
    proof (cases b)
      case False
      then have "H1 = ?H" using H1(2) by simp
      then show ?thesis
        using stay False H1(1)
        by (simp only: add_element_def Let_def if_P [OF True] and_then_simps prod.case if_False)
    next
      case resized: True
      then have g: "grouped H1" and ms: "mset (elems H1) = mset (elems H)" and c: "h_count H1 = h_count ?H"
        using H1(2) by simp_all
      have n: "htsize H1 \<noteq> 0" "ht H1 \<noteq> None" using g by (auto simp: grouped_def segments_def)
      have "set (elems H1) = set (elems H)" "length (elems H1) = length (elems H)"
        using ms by (metis set_mset_mset, metis size_mset)
      then obtain H' where "insert_element (Some (home (htsize H1) (key_of e))) e H1 = Inr H'" "table_shape H'"
        "mset (elems H') = add_mset e (mset (elems H))"
        using insert_element_result [of H1 e] g n count c keys key new small ms by (auto simp: grouped_def)
      then show ?thesis
        using n by (simp only: add_element_def Let_def if_P [OF True] H1(1) resized and_then_simps prod.case if_True
            word_gt_0 slot_of_home [OF n(1)] asserts_simps simp_thms if_False not_False_eq_True) auto
    qed
  qed
qed

lemma segments_map:
  assumes "segments n bs xs segs" and f: "\<forall>e \<in> set xs. addr (f e) = addr e \<and> home n (key_of (f e)) = home n (key_of e)"
  shows "segments n bs (map f xs) (map (\<lambda>(h, s). (h, map f s)) segs)"
proof -
  have "segment_ok n bs (h, map f s)" if "(h, s) \<in> set segs" for h s
  proof -
    have "set s \<subseteq> set xs" using assms(1) that by (force simp: segments_def)
    moreover have "segment_ok n bs (h, s)" using assms(1) that by (auto simp: segments_def)
    ultimately show ?thesis using f by (cases s) (auto simp: segment_ok_def)
  qed
  moreover have fsts: "map fst (map (\<lambda>(h, s). (h, map f s)) segs) = map fst segs" by auto
  moreover have "distinct (map fst (map (\<lambda>(h, s). (h, map f s)) segs))"
    unfolding fsts using assms(1) by (simp add: segments_def)
  moreover from fsts have "fst ` set (map (\<lambda>(h, s). (h, map f s)) segs) = fst ` set segs" by (metis list.set_map)
  moreover have "map f xs = concat (map snd (map (\<lambda>(h, s). (h, map f s)) segs))"
    using assms(1) by (simp add: segments_def map_concat comp_def case_prod_beta)
  ultimately show ?thesis using assms(1) unfolding segments_def by auto
qed

lemma replace_shape:
  assumes shape: "table_shape H" and e: "e \<in> set (elems H)" and k: "fold_key k = fold_key (key_of e)" "0 \<notin> set k"
  shows "table_shape (H\<lparr>elems := replace_data (addr e) k d (elems H)\<rparr>)"
proof -
  let ?f = "\<lambda>x. if addr x = addr e then x\<lparr>data_of := d, key_of := k\<rparr> else x"
  have dist: "distinct (map addr (elems H))" using shape by (simp add: table_shape_def)
  have same: "x = e" if "x \<in> set (elems H)" "addr x = addr e" for x
    using dist e that by (auto simp: distinct_map inj_on_def)
  have addrs: "map addr (map ?f (elems H)) = map addr (elems H)" by auto
  have d': "distinct (map addr (map ?f (elems H)))" unfolding addrs by (rule dist)
  have "grouped (H\<lparr>elems := map ?f (elems H)\<rparr>)" if g: "grouped H"
  proof -
    obtain bs segs where bs: "ht H = Some bs" and seg: "segments (htsize H) bs (elems H) segs"
      using g by (auto simp: grouped_def)
    have "home (htsize H) k = home (htsize H) (key_of e)" using str_hash_fold_key [OF k(1)] by (simp add: home_def)
    then have "\<forall>x \<in> set (elems H). addr (?f x) = addr x \<and> home (htsize H) (key_of (?f x)) = home (htsize H) (key_of x)"
      using same by force
    from segments_map [OF seg this] bs have "\<exists>bs segs. ht H = Some bs \<and> segments (htsize H) bs (map ?f (elems H)) segs"
      by blast
    then show ?thesis unfolding grouped_def using d' by simp
  qed
  moreover have "\<forall>x \<in> set (map ?f (elems H)). 0 \<notin> set (key_of x)" using shape k(2) by (auto simp: table_shape_def)
  ultimately show ?thesis using shape d' by (simp add: table_shape_def replace_data_def)
qed

section \<open>The table as a map\<close>

definition elem_name :: "hash_elem \<Rightarrow> bytes" where
  "elem_name e = fold_key (key_of e)"

definition hash_ok :: "name_hash \<Rightarrow> (bytes \<rightharpoonup> nat) \<Rightarrow> bool" where
  "hash_ok H m \<longleftrightarrow> table_shape H \<and> distinct (map elem_name (elems H)) \<and> (\<forall>e \<in> set (elems H). data_of e \<noteq> 0) \<and>
     (\<forall>n d. m n = Some d \<longleftrightarrow> (\<exists>e \<in> set (elems H). elem_name e = n \<and> data_of e = d))"

definition datum :: "(bytes \<rightharpoonup> nat) \<Rightarrow> bytes \<Rightarrow> nat" where
  "datum m k = (case m (fold_key k) of None \<Rightarrow> 0 | Some d \<Rightarrow> d)"

lemma hash_ok_init: "hash_ok hash_init Map.empty"
  by (simp add: hash_ok_def hash_init_def table_shape_def)

lemma same_name: "hash_ok H m \<Longrightarrow> e \<in> set (elems H) \<Longrightarrow> e' \<in> set (elems H) \<Longrightarrow> elem_name e = elem_name e' \<Longrightarrow> e = e'"
  by (auto simp: hash_ok_def distinct_map inj_on_def)

lemma find_element_map:
  assumes "hash_ok H m" and "0 \<notin> set k"
  shows "\<exists>r. find_element nd k H = Inr (r, slot_for H k) \<and> data_or_null r = datum m k \<and>
    (if datum m k = 0 then r = None \<and> m (fold_key k) = None
     else \<exists>e. r = Some e \<and> e \<in> set (elems H) \<and> elem_name e = fold_key k)"
proof -
  have shape: "table_shape H" and data: "\<forall>e \<in> set (elems H). data_of e \<noteq> 0"
    and m: "\<forall>n d. m n = Some d \<longleftrightarrow> (\<exists>e \<in> set (elems H). elem_name e = n \<and> data_of e = d)"
    using assms(1) by (simp_all add: hash_ok_def)
  from find_element_result [OF shape assms(2), of nd] obtain r where r: "find_element nd k H = Inr (r, slot_for H k)"
    "case r of None \<Rightarrow> \<forall>e \<in> set (elems H). fold_key (key_of e) \<noteq> fold_key k
     | Some e \<Rightarrow> e \<in> set (elems H) \<and> fold_key (key_of e) = fold_key k" by blast
  show ?thesis
  proof (cases r)
    case None
    then have "\<not> m (fold_key k) = Some d" for d using r(2) m by (auto simp: elem_name_def)
    then have "m (fold_key k) = None" by (cases "m (fold_key k)") auto
    then show ?thesis using r(1) None by (simp add: datum_def data_or_null_def)
  next
    case (Some e)
    then have e: "e \<in> set (elems H)" "elem_name e = fold_key k" using r(2) by (simp_all add: elem_name_def)
    then have "m (fold_key k) = Some (data_of e)" using m by blast
    then have "datum m k = data_of e" by (simp add: datum_def)
    moreover have "data_of e \<noteq> 0" using data e(1) by blast
    ultimately show ?thesis using r(1) Some e by (simp add: data_or_null_def)
  qed
qed

lemma mset_set_length: "mset xs = mset ys \<Longrightarrow> set xs = set ys \<and> length xs = length ys"
  by (metis set_mset_mset size_mset)

lemma hash_remove_ok:
  assumes ok: "hash_ok H m" and e: "e \<in> set (elems H)"
    and H': "table_shape H'" "mset (elems H') = mset (elems H) - {#e#}"
  shows "hash_ok H' (m(elem_name e := None))"
proof -
  have ms: "mset (elems H) = mset (e # elems H')" using H'(2) e by simp
  then have "mset (map elem_name (elems H)) = mset (map elem_name (e # elems H'))" by (metis mset_map)
  then have dist: "distinct (map elem_name (e # elems H'))"
    using ok by (metis hash_ok_def mset_eq_imp_distinct_iff)
  have els: "set (elems H) = insert e (set (elems H'))" using mset_set_length [OF ms] by simp
  have m: "m n = Some d \<longleftrightarrow> (\<exists>x \<in> set (elems H). elem_name x = n \<and> data_of x = d)" for n d
    using ok by (simp add: hash_ok_def)
  have "(m(elem_name e := None)) n = Some d \<longleftrightarrow> (\<exists>x \<in> set (elems H'). elem_name x = n \<and> data_of x = d)" for n d
  proof (cases "n = elem_name e")
    case True
    then show ?thesis using dist by auto (metis imageI)
  next
    case False
    then show ?thesis using m els by auto
  qed
  then show ?thesis using H'(1) dist ok els by (simp add: hash_ok_def)
qed

lemma hash_add_ok:
  assumes ok: "hash_ok H m" and new: "m (elem_name e) = None" and d: "data_of e \<noteq> 0"
    and H': "table_shape H'" "mset (elems H') = add_mset e (mset (elems H))"
  shows "hash_ok H' (m(elem_name e \<mapsto> data_of e))"
proof -
  have ms: "mset (elems H') = mset (e # elems H)" using H'(2) by simp
  have m: "m n = Some d \<longleftrightarrow> (\<exists>x \<in> set (elems H). elem_name x = n \<and> data_of x = d)" for n d
    using ok by (simp add: hash_ok_def)
  have other: "elem_name x \<noteq> elem_name e" if "x \<in> set (elems H)" for x
    using m [of "elem_name e" "data_of x"] new that by auto
  have "mset (map elem_name (elems H')) = mset (map elem_name (e # elems H))" using ms by (metis mset_map)
  moreover have "distinct (map elem_name (e # elems H))" using ok other by (force simp: hash_ok_def)
  ultimately have dist: "distinct (map elem_name (elems H'))" by (metis mset_eq_imp_distinct_iff)
  have els: "set (elems H') = insert e (set (elems H))" using mset_set_length [OF ms] by simp
  have "(m(elem_name e \<mapsto> data_of e)) n = Some v \<longleftrightarrow> (\<exists>x \<in> set (elems H'). elem_name x = n \<and> data_of x = v)" for n v
    using m other els by auto
  then show ?thesis using H'(1) dist ok els d by (simp add: hash_ok_def)
qed

lemma hash_replace_ok:
  assumes ok: "hash_ok H m" and e: "e \<in> set (elems H)" and k: "elem_name e = fold_key k" "0 \<notin> set k" and d: "d \<noteq> 0"
  shows "hash_ok (H\<lparr>elems := replace_data (addr e) k d (elems H)\<rparr>) (m(fold_key k \<mapsto> d))"
proof -
  let ?f = "\<lambda>x. if addr x = addr e then x\<lparr>data_of := d, key_of := k\<rparr> else x"
  have shape: "table_shape H" using ok by (simp add: hash_ok_def)
  have same: "addr x = addr e \<longleftrightarrow> x = e" if "x \<in> set (elems H)" for x
    using shape e that by (auto simp: table_shape_def distinct_map inj_on_def)
  have m: "m n = Some v \<longleftrightarrow> (\<exists>x \<in> set (elems H). elem_name x = n \<and> data_of x = v)" for n v
    using ok by (simp add: hash_ok_def)
  have name: "elem_name (?f x) = elem_name x" if "x \<in> set (elems H)" for x
    using same [OF that] k(1) by (auto simp: elem_name_def)
  have names: "map elem_name (map ?f (elems H)) = map elem_name (elems H)" using name by simp
  have dist: "distinct (map elem_name (map ?f (elems H)))" unfolding names using ok by (simp add: hash_ok_def)
  have "(m(fold_key k \<mapsto> d)) n = Some v \<longleftrightarrow> (\<exists>x \<in> set (map ?f (elems H)). elem_name x = n \<and> data_of x = v)" for n v
  proof (cases "n = fold_key k")
    case True
    have "elem_name x = fold_key k \<longleftrightarrow> x = e" if "x \<in> set (elems H)" for x
      using same_name [OF ok that e] k(1) by auto
    moreover have "elem_name (e\<lparr>data_of := d, key_of := k\<rparr>) = fold_key k" by (simp add: elem_name_def)
    ultimately show ?thesis using True name same e by auto
  next
    case False
    have "elem_name (?f x) = n \<and> data_of (?f x) = v \<longleftrightarrow> elem_name x = n \<and> data_of x = v" if x: "x \<in> set (elems H)" for x
    proof (cases "x = e")
      case True
      then show ?thesis using False k(1) name [OF x] by simp
    next
      case other: False
      then show ?thesis using same [OF x] by simp
    qed
    then have "(\<exists>x \<in> set (elems H). elem_name (?f x) = n \<and> data_of (?f x) = v) \<longleftrightarrow>
        (\<exists>x \<in> set (elems H). elem_name x = n \<and> data_of x = v)" by (rule bex_cong [OF refl])
    then show ?thesis unfolding list.set_map bex_simps fun_upd_other [OF False] m by (rule sym)
  qed
  moreover have "table_shape (H\<lparr>elems := map ?f (elems H)\<rparr>)"
    using replace_shape [OF shape e _ k(2), of d] k(1) by (simp add: replace_data_def elem_name_def)
  moreover have "\<forall>x \<in> set (map ?f (elems H)). data_of x \<noteq> 0" using ok d by (auto simp: hash_ok_def)
  ultimately show ?thesis using dist unfolding hash_ok_def replace_data_def by simp
qed

lemma hash_find_map: "hash_ok H m \<Longrightarrow> 0 \<notin> set k \<Longrightarrow> hash_find nd k H = Inr (datum m k)"
  using find_element_map [of H m k nd] by (auto simp: hash_find_def)

text \<open>Every branch of the insertion: removal, replacement, a new element, no element, no memory.\<close>

lemma hash_insert_map:
  assumes ok: "hash_ok H m" and k: "0 \<notin> set k" and M: "memory_ok M" and small: "length (elems H) < 2 ^ 30"
  shows "\<exists>r H'. hash_insert nd M k d H = Inr (r, H') \<and> length (elems H') \<le> Suc (length (elems H)) \<and>
    (if datum m k = 0 \<and> d \<noteq> 0 \<and> new_addr M (map addr (elems H)) = None then r = d \<and> H' = H
     else r = datum m k \<and> hash_ok H' (m(fold_key k := if d = 0 then None else Some d)))"
proof -
  have shape: "table_shape H" using ok by (simp add: hash_ok_def)
  from find_element_map [OF ok k, of nd] obtain r where r: "find_element nd k H = Inr (r, slot_for H k)"
    "data_or_null r = datum m k" "if datum m k = 0 then r = None \<and> m (fold_key k) = None
     else \<exists>e. r = Some e \<and> e \<in> set (elems H) \<and> elem_name e = fold_key k" by blast
  show ?thesis
  proof (cases "datum m k = 0")
    case False
    then obtain e where e: "r = Some e" "e \<in> set (elems H)" "elem_name e = fold_key k" using r(3) by auto
    have d: "data_of e = datum m k" using r(2) e(1) by (simp add: data_or_null_def)
    show ?thesis
    proof (cases "d = 0")
      case True
      have "slot_for H k = slot_for H (key_of e)"
        using str_hash_fold_key [of k "key_of e"] e(3) by (simp add: slot_for_def home_def elem_name_def)
      moreover obtain H' where H': "remove_element nd e (slot_for H (key_of e)) H = Inr H'" "table_shape H'"
        "mset (elems H') = mset (elems H) - {#e#}" using remove_element_result [OF shape e(2)] by blast
      ultimately have "hash_insert nd M k d H = Inr (datum m k, H')"
        using r e(1) d False True by (simp add: hash_insert_def)
      moreover have "hash_ok H' (m(fold_key k := None))" using hash_remove_ok [OF ok e(2) H'(2,3)] e(3) by simp
      moreover have "length (elems H') \<le> length (elems H)"
        using size_mset_mono [OF diff_subset_eq_self [of "mset (elems H)" "{#e#}"]] unfolding H'(3) [symmetric] by simp
      ultimately show ?thesis using True False by simp
    next
      case set: False
      then have "hash_insert nd M k d H = Inr (datum m k, H\<lparr>elems := replace_data (addr e) k d (elems H)\<rparr>)"
        using r e(1) d False by (simp add: hash_insert_def)
      then show ?thesis using hash_replace_ok [OF ok e(2,3) k set] set False by (simp add: replace_data_def)
    qed
  next
    case True
    then have none: "r = None" "m (fold_key k) = None" using r(3) by simp_all
    show ?thesis
    proof (cases "d = 0 \<or> new_addr M (map addr (elems H)) = None")
      case True
      moreover have "m(fold_key k := None) = m" using none(2) by (simp add: fun_upd_idem)
      ultimately show ?thesis
        using r(1) none ok \<open>datum m k = 0\<close> by (auto simp: hash_insert_def data_or_null_def)
    next
      case False
      then obtain a where a: "new_addr M (map addr (elems H)) = Some a" and d: "d \<noteq> 0" by auto
      let ?e = "\<lparr>addr = a, data_of = d, key_of = k\<rparr>"
      have "a \<notin> set (map addr (elems H))" using M a unfolding memory_ok_def by blast
      then have "addr ?e \<notin> addr ` set (elems H)" by simp
      from add_element_result [OF shape M _ this small, of nd] k obtain H' where H':
        "add_element nd M ?e (slot_for H k) H = Inr H'" "table_shape H'"
        "mset (elems H') = add_mset ?e (mset (elems H))" by auto
      have "hash_insert nd M k d H = Inr (0, H')" using r(1) none a d H'(1) by (simp add: hash_insert_def data_or_null_def)
      moreover have "length (elems H') = Suc (length (elems H))" using H'(3) by (metis size_add_mset size_mset)
      moreover have "hash_ok H' (m(fold_key k \<mapsto> d))"
        using hash_add_ok [OF ok _ _ H'(2,3)] none(2) d by (simp add: elem_name_def)
      ultimately show ?thesis using \<open>datum m k = 0\<close> a d by simp
    qed
  qed
qed

section \<open>Histories\<close>

datatype hash_op = Find bytes | Insert bytes nat

fun hash_run :: "bool \<Rightarrow> hash_memory \<Rightarrow> hash_op list \<Rightarrow> name_hash \<Rightarrow> trap + nat list \<times> name_hash" where
  "hash_run nd M [] H = Inr ([], H)"
| "hash_run nd M (Find k # ops) H =
     and_then (hash_find nd k H) (\<lambda>d. and_then (hash_run nd M ops H) (\<lambda>(ds, H'). Inr (d # ds, H')))"
| "hash_run nd M (Insert k d # ops) H =
     and_then (hash_insert nd M k d H) (\<lambda>(r, H1). and_then (hash_run nd M ops H1) (\<lambda>(ds, H'). Inr (r # ds, H')))"

fun map_run :: "hash_op list \<Rightarrow> (bytes \<rightharpoonup> nat) \<Rightarrow> nat list" where
  "map_run [] m = []"
| "map_run (Find k # ops) m = datum m k # map_run ops m"
| "map_run (Insert k d # ops) m = datum m k # map_run ops (m(fold_key k := if d = 0 then None else Some d))"

fun op_name :: "hash_op \<Rightarrow> bytes" where
  "op_name (Find k) = k"
| "op_name (Insert k d) = k"

lemma hash_run_map:
  "hash_ok H m \<Longrightarrow> memory_ok M \<Longrightarrow> \<forall>used. new_addr M used \<noteq> None \<Longrightarrow> \<forall>op \<in> set ops. 0 \<notin> set (op_name op) \<Longrightarrow>
   length (elems H) + length ops < 2 ^ 30 \<Longrightarrow> \<exists>H'. hash_run nd M ops H = Inr (map_run ops m, H')"
proof (induction ops arbitrary: H m)
  case (Cons op ops)
  show ?case
  proof (cases op)
    case (Find k)
    then have k: "0 \<notin> set k" using Cons.prems(4) by simp
    have "\<exists>H'. hash_run nd M ops H = Inr (map_run ops m, H')" using Cons.IH [OF Cons.prems(1-3)] Cons.prems(4,5) by simp
    then show ?thesis using hash_find_map [OF Cons.prems(1) k] Find by auto
  next
    case (Insert k d)
    then have k: "0 \<notin> set k" using Cons.prems(4) by simp
    have small: "length (elems H) < 2 ^ 30" using Cons.prems(5) by simp
    from hash_insert_map [OF Cons.prems(1) k Cons.prems(2) small, of nd d] obtain H1
      where H1: "hash_insert nd M k d H = Inr (datum m k, H1)" "length (elems H1) \<le> Suc (length (elems H))"
        "hash_ok H1 (m(fold_key k := if d = 0 then None else Some d))" using Cons.prems(3) by auto
    have "\<exists>H'. hash_run nd M ops H1 = Inr (map_run ops (m(fold_key k := if d = 0 then None else Some d)), H')"
      by (rule Cons.IH [OF H1(3) Cons.prems(2,3)]) (use Cons.prems(4,5) H1(2) in simp_all)
    then show ?thesis using H1(1) Insert by auto
  qed
qed simp

section \<open>Properties\<close>


definition some_memory :: hash_memory where
  "some_memory = \<lparr>new_addr = (\<lambda>used. Some (Suc (foldr max used 0))),
     table_room = (\<lambda>n. if n < 2 ^ 31 then Some n else None)\<rparr>"

lemma some_memory_ok: "memory_ok some_memory" "\<forall>used. new_addr some_memory used \<noteq> None"
proof -
  have "x \<in> set used \<Longrightarrow> x \<le> foldr max used 0" for x and used :: "nat list" by (induction used) auto
  then have "Suc (foldr max used 0) \<notin> set used" for used by (metis Suc_n_not_le_n)
  then show "memory_ok some_memory" "\<forall>used. new_addr some_memory used \<noteq> None"
    by (auto simp: memory_ok_def some_memory_def)
qed


text \<open>When there is no memory for a new element the insertion of a new name hands the data back and
  leaves the table as it was; all the other insertions do not need any memory.\<close>

theorem hash_insert_no_memory:
  assumes "hash_ok H m" and "0 \<notin> set k" and "memory_ok M" and "length (elems H) < 2 ^ 30"
    and "new_addr M (map addr (elems H)) = None"
  shows "\<exists>r H'. hash_insert nd M k d H = Inr (r, H') \<and>
    (if m (fold_key k) = None \<and> d \<noteq> 0 then r = d \<and> H' = H
     else r = datum m k \<and> hash_ok H' (m(fold_key k := if d = 0 then None else Some d)))"
proof -
  have "datum m k = 0 \<longleftrightarrow> m (fold_key k) = None"
  proof (cases "m (fold_key k)")
    case (Some v)
    then obtain e where "e \<in> set (elems H)" "data_of e = v" using assms(1) by (auto simp: hash_ok_def)
    then have "v \<noteq> 0" using assms(1) by (auto simp: hash_ok_def)
    then show ?thesis using Some by (simp add: datum_def)
  qed (simp add: datum_def)
  then show ?thesis using hash_insert_map [OF assms(1-4), of nd d] assms(5) by auto
qed

theorem hash_insert_no_memory_witness:
  "hash_insert False \<lparr>new_addr = (\<lambda>used. None), table_room = (\<lambda>n. None)\<rparr> [65] 7 hash_init = Inr (7, hash_init)"
  using hash_insert_no_memory [OF hash_ok_init, of "[65]" "\<lparr>new_addr = (\<lambda>used. None), table_room = (\<lambda>n. None)\<rparr>" False 7]
  by (simp add: memory_ok_def hash_init_def)

end
