(* ===== verification/Spec2Isabelle.thy ===== *)
theory Spec2Isabelle
  imports Disk System Guest_Time Console Barrier Startup Guests Pipe_Threads Delivery
    Varint_Codec Checked_Arith Log_Est Utf_Codec Rowset_Spec Bitvec_Set Name_Hash_Spec
begin

text \<open>
  Redstone runs Linux programs unmodified under a simulator of their network, clock and disk.
  src/main.cpp reads a configuration and starts a machine for every replica in it. A machine has
  a runner (src/sim/runner/ptrace.cpp), a thread that traces the program with ptrace(2). The
  runner stops the program at each of its system calls, looks the number up in a table
  (src/hook/hook.cpp) and, where there is a function for it (src/hook/impls.cpp), runs that
  function and gives its result to the program in place of the kernel's. The functions work on
  the file descriptors of the replica (src/sim/file\_descriptor.cpp), the sockets behind them
  (src/net), the name service that binds addresses to sockets (src/net/network.cpp), a random
  generator (src/random) that decides losses, replays and latencies (src/net/fault.hpp), and the
  memory of the program, which they read and write through ptrace.

  Conventions. An object of a class is a record of the names the class has, a method a function
  from the object to a result and the object it leaves. A machine integer is a word where it can
  wrap, an \<^verbatim>\<open>int\<close> of Isabelle with its range checked where overflow is undefined. What a C++
  statement does besides returning, an exception nobody catches, a failed assertion or undefined
  behaviour, is a \<^verbatim>\<open>trap\<close> (theory Prelude) on the left of a sum, and the argument \<open>nd\<close> or
  \<open>ndebug\<close> says whether the build has NDEBUG. An operation under a mutex is one step; one that
  waits on a condition variable is \<^verbatim>\<open>Blocked\<close> in the state it waits in, and its sleep and its
  wake-ups are steps in theory Cond\_Wait. A loop that need not end
  is a partial function whose value \<^verbatim>\<open>None\<close> is running for ever. Code that is not under src/ is
  an argument: the kernel is a record of its operations, with the documented behaviour as the
  assumptions of a locale that a concrete instance satisfies; hashes, clocks and the parser of
  the configuration are functions.
\<close>

text \<open>
  The theories, from the bottom.

  Prelude: integer types, errors, traps, and lemmas on byte lists and words.

  Rng (src/random): split\_mix and xoshiro256 bit for bit, filling of byte ranges, sampling of
  ranges and booleans. The step of xoshiro256 is a bijection that never reaches zero; ranges are
  respected; a boolean has exactly the probability asked for; split\_mix returns 32 bits only.

  Fault (src/net/fault.hpp): latency, loss and number of replays, with the cases in which the
  replay loop never ends and in which an inverted range divides by zero.

  Sock\_Addr, Network (src/net/socket.hpp, network.cpp): addresses, their orders and hashes, and
  the map from addresses to weak pointers. A binding lives exactly as long as its socket.

  Pqueue, Datagram (src/net/datagram\_socket.cpp): the binary heap of libstdc++, and the packet
  queue on it. Nothing is received that was not sent, nor before the least latency; without
  faults the queue is a multiset of messages; a packet arrives at the latest one latency later.

  Stream\_Sock (src/net/stream\_socket.cpp): what is received is a prefix of what was sent.

  Cond\_Wait, Pipe\_Threads (the waiting loops of src/net/datagram\_socket.cpp, stream\_socket.cpp):
  threads on a condition variable under a mutex, with deadlines, notification of one or of all
  and spurious wake-ups. The locale \<^verbatim>\<open>waiting_protocol\<close> has the laws under which no wake-up is
  missed; the pipe and the stream satisfy it. Every run of threads on a pipe is a history of the
  atomic operations of theory Datagram. Two receivers of one pipe can miss a wake-up.

  Fd\_Table (src/sim/file\_descriptor.cpp): lookup, closing and insertion, which refine a partial
  map, and what a lookup of a descriptor that was never issued breaks.

  Disk (src/disk): a growing file and an open file with a backlog of writes. The buffered file
  refines the direct one.

  Guest\_Memory (src/sim/runner/ptrace.cpp): reading and writing of the program's memory in
  words, with the tails, over the locale \<^verbatim>\<open>tracee\<close>.

  Sim\_State, Parse\_Addr, Hooks, Console, Guest\_Time (src/sim, src/hook/impls.cpp): the state of
  the simulation, decoding of addresses, the eleven system calls with every error path, the
  standard output descriptor, and the scaled clock.

  Syscall\_Names, Hook\_Table (src/hook/syscalls.cpp, hook.cpp): all 347 names, the construction
  of the table and its lookups and statistics.

  Hook\_Steps, System: each call is a sequence of elementary changes, from which follow the
  invariant of all reachable states, the isolation of the replicas and the exact list of the
  traps a call can end in; then the calls end to end, bind, close, socket, and sendto with
  recvfrom.

  Delivery: whole runs with the list of their calls. The calls that name a datagram socket are a
  history of its pipe, so what a guest receives is what a guest sent to a name of the same socket,
  not before the least latency, and without faults exactly once. Guests compute between their
  calls, which is an arbitrary change of their own memory.

  Child, Sys\_File, Barrier, Startup (src/sys, src/sim/runner/ptrace.cpp): decoding of wait statuses,
  owned descriptors and the loops that retry short and interrupted transfers, the barrier, and the
  start of a runner as the two threads that meet there: who gets a handle, and when nobody does.

  Tracer, Tracee (src/sim/runner/ptrace.cpp, src/sys/ptrace.cpp): the runner over the locale
  \<^verbatim>\<open>traced_process\<close>, and a traced process that satisfies it. The worker serves a program to its
  end: each call that has a function is answered by it, the others by the kernel.

  Config (src/main.cpp, src/metrics.hpp): the replicas a configuration gives, the order in which
  main starts, awaits and kills them, and the timing of sections.

  Guests (demo, benches): the programs that come with the simulator; the socket benchmark runs on
  the system calls of theory Hooks.

  Varint, Varint\_Codec, Checked\_Arith, Log\_Est, Utf, Utf\_Codec, Rowset, Rowset\_Spec, Bitvec,
  Bitvec\_Set, Name\_Hash, Name\_Hash\_Spec (deps/sqlite3/sqlite3.c): self-contained parts of the
  database library the program is linked with: integer encodings with an equivalence to a byte-by-byte reader, checked arithmetic with
  its two bodies, logarithmic estimates, text encodings with their buffer bounds and round trips,
  the row set, which refines a pair of sets, and the bit vector, whose bitmap, hash table and
  divided representations refine one set of numbers. The depth bound nine of its recursive
  insertion is enough for every 32-bit size: four divisions, each entered from a table. The hash
  table of names, with its list of elements, its buckets that point into it and its resizing,
  refines a map in which case does not matter.
\<close>

text \<open>
  Bounds. Theorems about byte counts assume lengths below 2^63, the limit of the standard
  containers; those about the packet queue that the configured latencies do not overflow the
  clock; those about the row set fewer than 2^40 entries, its forty buckets. Where a loop is
  bounded by what the kernel does, the locale says that interruptions end: the schedule of the
  concrete file and the run of the concrete process are finite, and the theorems that a loop
  returns follow from that. Enough fuel is never assumed.

  Not modelled. Logging, formatting and wall-clock reading, which nothing depends on. The UDP
  sockets (src/net/udp.hpp, udp.cpp), every line of which is a comment. The old table
  src/hook\_impls.cpp, which includes a header that does not exist and is not built. Headers
  without code (src/random/getrandom.hpp, aes-ctr.hpp, src/sys/command.hpp) and src/simple.cpp.
  The rest of the database library: the program links it and calls nothing of it. Of what the
  threads of several replicas can do to one another, the operations under a mutex interleave
  freely in the reachable states of theory System; the generator of the simulator, which they
  share without a lock, is drawn from one call at a time.
\<close>

end
